(* ===== verification/Prelude.thy ===== *)
theory Prelude
  imports Main "HOL-Library.Word"
begin

text \<open>
  Shared vocabulary of the development.

  \<^item> The types every component uses: byte strings, 64-bit integers, the outcome of a Rust call
    that may return a value, an error or panic, and the record of everything the sources call
    that is not part of the repository.
  \<^item> The \<open>?\<close> operator of Rust as \<open>and_then\<close>, with the rewrite rules (\<open>res_conv\<close>) that carry
    the component proofs and the congruence rule recursive definitions need.
  \<^item> Generic lemmas on lists and words.
\<close>

named_theorems res_conv \<open>when an outcome built with and\_then is Ok, Err or Panic\<close>
named_theorems cursor_simps \<open>evaluation of the cursor primitives\<close>
named_theorems wire_simps \<open>evaluation of the encoder\<close>

section \<open>Types\<close>

text \<open>
  A HOL \<open>char\<close> is an 8-bit byte, so \<open>&[u8]\<close>, \<open>Vec<u8>\<close> and \<open>Bytes\<close> are \<open>char list\<close>.
  A Rust \<open>String\<close> is the same type together with validity as UTF-8 (theory Std\_Lib).
\<close>

type_synonym bytes = string
type_synonym u64 = "64 word"

text \<open>\<open>usize\<close> on the 64-bit targets the workspace is built for.\<close>

type_synonym usize = "64 word"

datatype panic =
    ArithOverflow
  | IndexOutOfBounds
  | Unimplemented
  | Unreachable
  | NotAnArrayFrame
  | InstantOverflow
  | PoisonedLock
  | ExpectNone
  | PanicMacro
  | DivByZero

text \<open>\<open>Result<'a, 'e>\<close> of a Rust function that may also panic.\<close>

datatype ('a, 'e) res = Ok 'a | Err 'e | Panic panic

text \<open>
  What the sources call and the repository does not contain, as one record that every definition
  using it takes as an argument:
  \<open>atoi\<close> is \<open>atoi::atoi::<u64>\<close> of the crate \<open>atoi\<close>; \<open>to_lowercase\<close> and \<open>to_uppercase\<close> are
  the Unicode tables behind \<open>str::to_lowercase\<close> and \<open>str::to_uppercase\<close>; \<open>debug_bytes\<close> is the
  \<open>Debug\<close> rendering of the crate \<open>bytes\<close>. \<open>overflow_checks\<close> is the compiler setting of the
  build profile: a debug build panics when unsigned arithmetic overflows, a release build wraps.
\<close>

record env =
  overflow_checks :: bool
  atoi :: "bytes \<Rightarrow> u64 option"
  to_lowercase :: "bytes \<Rightarrow> bytes"
  to_uppercase :: "bytes \<Rightarrow> bytes"
  debug_bytes :: "bytes \<Rightarrow> bytes"

section \<open>The question-mark operator\<close>

definition and_then :: "('a, 'e) res \<Rightarrow> ('a \<Rightarrow> ('b, 'e) res) \<Rightarrow> ('b, 'e) res" where
  "and_then r f = (case r of Ok a \<Rightarrow> f a | Err e \<Rightarrow> Err e | Panic p \<Rightarrow> Panic p)"

definition map_err :: "('e \<Rightarrow> 'f) \<Rightarrow> ('a, 'e) res \<Rightarrow> ('a, 'f) res" where
  "map_err g r = (case r of Ok a \<Rightarrow> Ok a | Err e \<Rightarrow> Err (g e) | Panic p \<Rightarrow> Panic p)"

definition ok_or :: "'e \<Rightarrow> 'a option \<Rightarrow> ('a, 'e) res" where
  "ok_or e x = (case x of Some a \<Rightarrow> Ok a | None \<Rightarrow> Err e)"

lemma and_then_simps [simp]:
  "and_then (Ok a) f = f a"
  "and_then (Err e) f = Err e"
  "and_then (Panic p) f = Panic p"
  by (simp_all add: and_then_def)

lemma map_err_simps [simp]:
  "map_err g (Ok a) = Ok a"
  "map_err g (Err e) = Err (g e)"
  "map_err g (Panic p) = Panic p"
  by (simp_all add: map_err_def)

lemma ok_or_simps [simp]:
  "ok_or e (Some a) = Ok a"
  "ok_or e None = Err e"
  by (simp_all add: ok_or_def)

lemma and_then_cong [fundef_cong]:
  assumes "r = r'" and "\<And>a. r' = Ok a \<Longrightarrow> f a = g a"
  shows "and_then r f = and_then r' g"
  using assms by (cases r') simp_all

lemma and_then_Ok_iff [res_conv]:
  "and_then r f = Ok b \<longleftrightarrow> (\<exists>a. r = Ok a \<and> f a = Ok b)"
  by (cases r) simp_all

lemma and_then_Err_iff [res_conv]:
  "and_then r f = Err e \<longleftrightarrow> r = Err e \<or> (\<exists>a. r = Ok a \<and> f a = Err e)"
  by (cases r) auto

lemma and_then_Panic_iff [res_conv]:
  "and_then r f = Panic p \<longleftrightarrow> r = Panic p \<or> (\<exists>a. r = Ok a \<and> f a = Panic p)"
  by (cases r) auto

lemma map_err_Ok_iff [res_conv]: "map_err g r = Ok a \<longleftrightarrow> r = Ok a"
  by (cases r) simp_all

lemma map_err_Err_iff [res_conv]: "map_err g r = Err f \<longleftrightarrow> (\<exists>e. r = Err e \<and> f = g e)"
  by (cases r) auto

lemma map_err_Panic_iff [res_conv]: "map_err g r = Panic p \<longleftrightarrow> r = Panic p"
  by (cases r) simp_all

lemma ok_or_Ok_iff [res_conv]: "ok_or e x = Ok a \<longleftrightarrow> x = Some a"
  by (cases x) simp_all

lemma ok_or_Err_iff [res_conv]: "ok_or e x = Err f \<longleftrightarrow> x = None \<and> f = e"
  by (cases x) auto

lemma ok_or_Panic [simp]: "ok_or e x \<noteq> Panic p"
  by (cases x) simp_all

text \<open>Mapping the results of two steps maps the result of their composition.\<close>

lemma and_then_map:
  assumes "r' = map_res g id r" and "\<And>a. r = Ok a \<Longrightarrow> f' (g a) = map_res h id (f a)"
  shows "and_then r' f' = map_res h id (and_then r f)"
  using assms by (cases r) simp_all

text \<open>The same operator for code that also changes a state \<open>'s\<close>, kept on every outcome.\<close>

definition st_then ::
    "('a, 'e) res \<times> 's \<Rightarrow> ('a \<Rightarrow> 's \<Rightarrow> ('b, 'e) res \<times> 's) \<Rightarrow> ('b, 'e) res \<times> 's" where
  "st_then rs f =
     (case fst rs of Ok a \<Rightarrow> f a (snd rs) | Err e \<Rightarrow> (Err e, snd rs) | Panic p \<Rightarrow> (Panic p, snd rs))"

lemma st_then_simps [simp]:
  "st_then (Ok a, s) f = f a s"
  "st_then (Err e, s) f = (Err e, s)"
  "st_then (Panic p, s) f = (Panic p, s)"
  by (simp_all add: st_then_def)

section \<open>Machine arithmetic\<close>

text \<open>
  \<open>a + b\<close> on \<open>usize\<close>: exact when it fits; otherwise a panic with overflow checks and the
  wrapped sum without.
\<close>

definition add_usize :: "env \<Rightarrow> usize \<Rightarrow> usize \<Rightarrow> (usize, 'e) res" where
  "add_usize E a b =
     (if overflow_checks E \<and> 2 ^ 64 \<le> unat a + unat b then Panic ArithOverflow else Ok (a + b))"

text \<open>No Rust allocation, hence no buffer, is longer than \<open>isize::MAX\<close> bytes.\<close>

definition isize_max :: nat where
  "isize_max = 2 ^ 63 - 1"

lemma add_usize_fits:
  "unat a + unat b < 2 ^ 64 \<Longrightarrow> add_usize E a b = Ok (a + b)"
  by (simp add: add_usize_def)

lemma unat_add_usize_fits:
  "unat (a::usize) + unat b < 2 ^ 64 \<Longrightarrow> unat (a + b) = unat a + unat b"
  by (simp add: unat_word_ariths)

lemma add_usize_no_Err [simp]: "add_usize E a b \<noteq> Err e"
  by (simp add: add_usize_def)

lemma unat_of_nat_u64: "n < 2 ^ 64 \<Longrightarrow> unat (of_nat n :: u64) = n"
  by (simp add: unat_of_nat)

section \<open>Lists\<close>

text \<open>The half-open slice \<open>xs[i..j]\<close>, in range.\<close>

definition subslice :: "nat \<Rightarrow> nat \<Rightarrow> 'a list \<Rightarrow> 'a list" where
  "subslice i j xs = take (j - i) (drop i xs)"

lemma subslice_append1: "j \<le> length xs \<Longrightarrow> subslice i j (xs @ ys) = subslice i j xs"
  by (cases "i \<le> length xs") (simp_all add: subslice_def)

lemma subslice_middle:
  "subslice (length pre) (length pre + length xs) (pre @ xs @ post) = xs"
  by (simp add: subslice_def)

lemma nth_append_shift: "(pre @ xs) ! (length pre + i) = xs ! i"
  by simp

lemma replicate_numeral: "replicate (numeral k) x = x # replicate (pred_numeral k) x"
  by (simp add: numeral_eq_Suc)

lemma length_filter_neq: "length (filter (\<lambda>x. x \<noteq> a) xs) + count_list xs a = length xs"
  by (induction xs) auto

lemma distinct_count_one: "distinct xs \<Longrightarrow> a \<in> set xs \<Longrightarrow> count_list xs a = 1"
  by (induction xs) (auto simp: count_notin)

section \<open>Reachable states\<close>

text \<open>A predicate every step keeps holds along every sequence of steps.\<close>

lemma reach_invariant:
  assumes "R\<^sup>*\<^sup>* x y" "P x" "\<And>a b. R a b \<Longrightarrow> P a \<Longrightarrow> P b"
  shows "P y"
  using assms by (induction rule: rtranclp_induct) simp_all

end
