(* ===== verification/Std_Lib.thy ===== *)
theory Std_Lib
  imports Prelude
begin

text \<open>
  The parts of the Rust language and standard library that the sources use: decimal formatting of
  an unsigned integer, UTF-8 validation (\<open>String::from_utf8\<close>, \<open>str::from_utf8\<close>), ASCII case
  mapping, \<open>Duration\<close> and \<open>Instant\<close>. The last section states what the repository relies on in
  code outside it (\<open>atoi\<close> and the Unicode case tables) as predicates on the environment, and
  gives a concrete environment that satisfies them.
\<close>

section \<open>Decimal formatting\<close>

definition digit_char :: "nat \<Rightarrow> char" where
  "digit_char d = char_of (48 + d)"

text \<open>\<open>Display\<close> of an unsigned integer.\<close>

fun dec :: "nat \<Rightarrow> bytes" where
  "dec n = (if n < 10 then [digit_char n] else dec (n div 10) @ [digit_char (n mod 10)])"

declare dec.simps [simp del]

definition is_digit :: "char \<Rightarrow> bool" where
  "is_digit c \<longleftrightarrow> 48 \<le> (of_char c :: nat) \<and> (of_char c :: nat) \<le> 57"

definition digit_val :: "char \<Rightarrow> nat" where
  "digit_val c = of_char c - 48"

lemma of_char_digit: "d < 10 \<Longrightarrow> (of_char (digit_char d) :: nat) = 48 + d"
  by (simp add: digit_char_def)

lemma digit_char_digit [simp]: "d < 10 \<Longrightarrow> is_digit (digit_char d)"
  by (simp add: is_digit_def of_char_digit)

lemma digit_val_char [simp]: "d < 10 \<Longrightarrow> digit_val (digit_char d) = d"
  by (simp add: digit_val_def of_char_digit)

lemma dec_nonempty [simp]: "dec n \<noteq> []"
  by (subst dec.simps) simp

lemma dec_digits: "c \<in> set (dec n) \<Longrightarrow> is_digit c"
proof (induction n rule: dec.induct)
  case (1 n)
  then show ?case
    by (subst (asm) (2) dec.simps) (auto split: if_splits)
qed

lemma not_digit_control:
  "\<not> is_digit (CHR 0x0D)" "\<not> is_digit (CHR 0x0A)" "\<not> is_digit (CHR ''-'')"
  by (simp_all add: is_digit_def)

lemma dec_no_control:
  "CHR 0x0D \<notin> set (dec n)" "CHR 0x0A \<notin> set (dec n)" "CHR ''-'' \<notin> set (dec n)"
  using dec_digits not_digit_control by blast+

lemma dec_hd_not_minus: "hd (dec n) \<noteq> CHR ''-''"
  using dec_no_control(3) [of n] hd_in_set [OF dec_nonempty] by metis

lemma dec_length_bound: "n < 10 ^ k \<Longrightarrow> 0 < k \<Longrightarrow> length (dec n) \<le> k"
proof (induction k arbitrary: n)
  case (Suc k)
  show ?case
  proof (cases "n < 10")
    case True
    then show ?thesis by (simp add: dec.simps [of n])
  next
    case False
    with Suc.prems have "n div 10 < 10 ^ k" and "0 < k"
      by (auto simp: less_mult_imp_div_less mult.commute intro: Suc_leI gr0I)
    then have "length (dec (n div 10)) \<le> k" by (rule Suc.IH)
    with False show ?thesis by (simp add: dec.simps [of n])
  qed
qed simp

text \<open>Every \<open>u64\<close> has at most twenty decimal digits.\<close>

lemma dec_u64_length: "length (dec (unat (v::u64))) \<le> 20"
proof (rule dec_length_bound)
  show "unat v < 10 ^ 20" using unsigned_less [of v, where 'a = nat] by simp
qed simp

text \<open>Reading the digits back.\<close>

definition undec :: "bytes \<Rightarrow> nat" where
  "undec = foldl (\<lambda>a c. 10 * a + digit_val c) 0"

lemma undec_dec [simp]: "undec (dec n) = n"
proof (induction n rule: dec.induct)
  case (1 n)
  then show ?case
    by (cases "n < 10") (simp_all add: dec.simps [of n] undec_def)
qed

lemma dec_inject [simp]: "dec m = dec n \<longleftrightarrow> m = n"
  by (metis undec_dec)

section \<open>UTF-8\<close>

definition cont :: "nat \<Rightarrow> bool" where
  "cont x \<longleftrightarrow> 0x80 \<le> x \<and> x \<le> 0xBF"

text \<open>The admissible first two bytes of a character of two, three and four bytes.\<close>

definition lead2 :: "nat \<Rightarrow> nat \<Rightarrow> bool" where
  "lead2 x y \<longleftrightarrow> 0xC2 \<le> x \<and> x \<le> 0xDF \<and> cont y"

definition lead3 :: "nat \<Rightarrow> nat \<Rightarrow> bool" where
  "lead3 x y \<longleftrightarrow> 0xE0 \<le> x \<and> x \<le> 0xEF \<and> cont y \<and>
     (x = 0xE0 \<longrightarrow> 0xA0 \<le> y) \<and> (x = 0xED \<longrightarrow> y \<le> 0x9F)"

definition lead4 :: "nat \<Rightarrow> nat \<Rightarrow> bool" where
  "lead4 x y \<longleftrightarrow> 0xF0 \<le> x \<and> x \<le> 0xF4 \<and> cont y \<and>
     (x = 0xF0 \<longrightarrow> 0x90 \<le> y) \<and> (x = 0xF4 \<longrightarrow> y \<le> 0x8F)"

text \<open>The well-formed byte sequences of the Unicode standard, as \<open>core::str\<close> validates them.\<close>

fun utf8_codes :: "nat list \<Rightarrow> bool" where
  "utf8_codes [] = True"
| "utf8_codes (x # xs) =
     (x < 0x80 \<and> utf8_codes xs \<or>
      (case xs of [] \<Rightarrow> False | y # ys \<Rightarrow>
        lead2 x y \<and> utf8_codes ys \<or>
        (case ys of [] \<Rightarrow> False | z # zs \<Rightarrow>
          lead3 x y \<and> cont z \<and> utf8_codes zs \<or>
          (case zs of [] \<Rightarrow> False | w # ws \<Rightarrow>
            lead4 x y \<and> cont z \<and> cont w \<and> utf8_codes ws))))"

definition utf8 :: "bytes \<Rightarrow> bool" where
  "utf8 bs = utf8_codes (map of_char bs)"

text \<open>\<open>String::from_utf8\<close> and \<open>str::from_utf8\<close>.\<close>

definition from_utf8 :: "bytes \<Rightarrow> bytes option" where
  "from_utf8 bs = (if utf8 bs then Some bs else None)"

definition ascii :: "bytes \<Rightarrow> bool" where
  "ascii bs \<longleftrightarrow> list_all (\<lambda>c. (of_char c :: nat) < 0x80) bs"

lemma utf8_ascii: "ascii bs \<Longrightarrow> utf8 bs"
  by (induction bs) (simp_all add: ascii_def utf8_def)

text \<open>The same as an inductive predicate: one rule per length of a character.\<close>

inductive utf8_seq :: "nat list \<Rightarrow> bool" where
  seq_nil: "utf8_seq []"
| seq_1: "x < 0x80 \<Longrightarrow> utf8_seq xs \<Longrightarrow> utf8_seq (x # xs)"
| seq_2: "lead2 x y \<Longrightarrow> utf8_seq xs \<Longrightarrow> utf8_seq (x # y # xs)"
| seq_3: "lead3 x y \<Longrightarrow> cont z \<Longrightarrow> utf8_seq xs \<Longrightarrow> utf8_seq (x # y # z # xs)"
| seq_4: "lead4 x y \<Longrightarrow> cont z \<Longrightarrow> cont w \<Longrightarrow> utf8_seq xs \<Longrightarrow> utf8_seq (x # y # z # w # xs)"

lemma utf8_seq_codes: "utf8_seq xs \<Longrightarrow> utf8_codes xs"
  by (induction rule: utf8_seq.induct) simp_all

lemma utf8_codes_seq: "utf8_codes xs \<Longrightarrow> utf8_seq xs"
proof (induction "length xs" arbitrary: xs rule: less_induct)
  case less
  have IH: "utf8_seq ys" if "utf8_codes ys" "length ys < length xs" for ys
    using less.hyps that by blast
  show ?case
  proof (cases xs rule: utf8_codes.cases)
    case 1
    then show ?thesis by (simp add: seq_nil)
  next
    case (2 x ys)
    from less.prems have "x < 0x80 \<and> utf8_codes ys \<or>
        (\<exists>y zs. ys = y # zs \<and> lead2 x y \<and> utf8_codes zs) \<or>
        (\<exists>y z zs. ys = y # z # zs \<and> lead3 x y \<and> cont z \<and> utf8_codes zs) \<or>
        (\<exists>y z w zs. ys = y # z # w # zs \<and> lead4 x y \<and> cont z \<and> cont w \<and> utf8_codes zs)"
      unfolding 2 utf8_codes.simps(2) [of x ys]
      by (auto split: list.splits simp del: utf8_codes.simps)
    then show ?thesis
      by (elim disjE exE conjE) (simp_all add: 2 IH utf8_seq.intros del: utf8_codes.simps)
  qed
qed

lemma utf8_codes_iff: "utf8_codes xs \<longleftrightarrow> utf8_seq xs"
  using utf8_seq_codes utf8_codes_seq by blast

lemma utf8_seq_append: "utf8_seq xs \<Longrightarrow> utf8_seq ys \<Longrightarrow> utf8_seq (xs @ ys)"
  by (induction rule: utf8_seq.induct) (simp_all add: utf8_seq.intros)

lemma utf8_append [simp]: "utf8 xs \<Longrightarrow> utf8 ys \<Longrightarrow> utf8 (xs @ ys)"
  by (simp add: utf8_def utf8_codes_iff utf8_seq_append)

lemma ascii_dec: "ascii (dec n)"
  using dec_digits by (fastforce simp: ascii_def is_digit_def list_all_iff)

lemma from_utf8_Some_iff: "from_utf8 bs = Some s \<longleftrightarrow> utf8 bs \<and> s = bs"
  by (auto simp: from_utf8_def)

section \<open>ASCII case mapping\<close>

definition ascii_lower :: "char \<Rightarrow> char" where
  "ascii_lower c = (if 65 \<le> (of_char c :: nat) \<and> (of_char c :: nat) \<le> 90
                    then char_of (of_char c + 32 :: nat) else c)"

definition ascii_upper :: "char \<Rightarrow> char" where
  "ascii_upper c = (if 97 \<le> (of_char c :: nat) \<and> (of_char c :: nat) \<le> 122
                    then char_of (of_char c - 32 :: nat) else c)"

section \<open>Time\<close>

text \<open>
  \<open>Duration\<close> and \<open>Instant\<close> in nanoseconds. On the Unix targets of the standard library an
  instant is a signed 64-bit number of seconds and a sub-second part; \<open>Instant + Duration\<close>
  panics when the sum is not representable.
\<close>

type_synonym duration = nat
type_synonym instant = nat

definition from_secs :: "u64 \<Rightarrow> duration" where
  "from_secs s = unat s * 10 ^ 9"

definition from_millis :: "u64 \<Rightarrow> duration" where
  "from_millis ms = unat ms * 10 ^ 6"

definition as_millis :: "duration \<Rightarrow> nat" where
  "as_millis d = d div 10 ^ 6"

definition instant_limit :: nat where
  "instant_limit = 2 ^ 63 * 10 ^ 9"

definition instant_add :: "instant \<Rightarrow> duration \<Rightarrow> (instant, 'e) res" where
  "instant_add t d = (if t + d < instant_limit then Ok (t + d) else Panic InstantOverflow)"

lemma as_millis_from_millis [simp]: "as_millis (from_millis ms) = unat ms"
  by (simp add: as_millis_def from_millis_def)

section \<open>What is relied on outside the repository\<close>

text \<open>\<open>atoi\<close> reads back the decimal representation of every value its result type can hold.\<close>

definition atoi_reads_decimal :: "env \<Rightarrow> bool" where
  "atoi_reads_decimal E \<longleftrightarrow> (\<forall>n < 2 ^ 64. atoi E (dec n) = Some (of_nat n))"

text \<open>The Unicode case mappings restricted to ASCII strings are the ASCII ones.\<close>

definition ascii_case :: "env \<Rightarrow> bool" where
  "ascii_case E \<longleftrightarrow>
     (\<forall>s. ascii s \<longrightarrow> to_lowercase E s = map ascii_lower s \<and> to_uppercase E s = map ascii_upper s)"

text \<open>The concrete environment of the witnesses.\<close>

definition ref_atoi :: "bytes \<Rightarrow> u64 option" where
  "ref_atoi bs =
     (let ds = takeWhile is_digit bs
      in if ds = [] \<or> 2 ^ 64 \<le> undec ds then None else Some (of_nat (undec ds)))"

definition ref_env :: "bool \<Rightarrow> env" where
  "ref_env oc = \<lparr>overflow_checks = oc, atoi = ref_atoi, to_lowercase = map ascii_lower,
     to_uppercase = map ascii_upper, debug_bytes = (\<lambda>bs. ''b\"'' @ bs @ ''\"'')\<rparr>"

lemma ref_env_atoi: "atoi_reads_decimal (ref_env oc)"
proof -
  have "takeWhile is_digit (dec n) = dec n" for n
    by (simp add: takeWhile_eq_all_conv dec_digits)
  then show ?thesis
    unfolding atoi_reads_decimal_def ref_env_def ref_atoi_def
    by (simp add: Let_def del: takeWhile_eq_all_conv)
qed

lemma ref_env_case: "ascii_case (ref_env oc)"
  by (simp add: ascii_case_def ref_env_def)

end
