(* ===== verification/Frame.thy ===== *)
theory Frame
  imports Std_Lib
begin

text \<open>
  \<open>src/mini-redis/src/frame.rs\<close>: the frame type, the cursor primitives over the read buffer and
  the two passes over it, \<open>check\<close> (is a whole frame there?) and \<open>parse\<close> (build it). Both passes
  recurse through arrays; that they end is proved from the fact that a successful pass over one
  element moves the cursor forward. The lemmas: a pass never leaves the buffer, its answer does
  not change when more bytes arrive behind it, and the two passes stop at the same byte.
\<close>

section \<open>Frames and errors\<close>

datatype frame =
    Simple bytes
  | Error bytes
  | Integer u64
  | Bulk bytes
  | Null
  | Array "frame list"

datatype frame_error = Incomplete | Other bytes

text \<open>\<open>crate::Error\<close>, a boxed error: its text, a text that ends with the \<open>Debug\<close> of a frame, or an
  error of the operating system.\<close>

datatype crate_error = Text bytes | TextDebug bytes frame | IoError

definition invalid_frame_format :: bytes where
  "invalid_frame_format = ''protocol error; invalid frame format''"

definition invalid_type_byte :: "char \<Rightarrow> bytes" where
  "invalid_type_byte actual =
     ''protocol error; invalid frame type byte `'' @ dec (of_char actual) @ ''`''"

text \<open>\<open>impl Display for Error\<close>, through which a frame error becomes a crate error.\<close>

fun display_frame_error :: "frame_error \<Rightarrow> bytes" where
  "display_frame_error Incomplete = ''stream ended early''"
| "display_frame_error (Other err) = err"

section \<open>Building array frames\<close>

definition array :: frame where
  "array = Array []"

fun push_bulk :: "frame \<Rightarrow> bytes \<Rightarrow> (frame, 'e) res" where
  "push_bulk (Array vec) bs = Ok (Array (vec @ [Bulk bs]))"
| "push_bulk _ bs = Panic NotAnArrayFrame"

fun push_int :: "frame \<Rightarrow> u64 \<Rightarrow> (frame, 'e) res" where
  "push_int (Array vec) value = Ok (Array (vec @ [Integer value]))"
| "push_int _ value = Panic NotAnArrayFrame"

section \<open>Display and comparison\<close>

text \<open>\<open>impl Display for Frame\<close>; the loop over the parts of an array counts with \<open>i\<close>.\<close>

fun display_frame :: "env \<Rightarrow> frame \<Rightarrow> bytes"
  and display_parts :: "env \<Rightarrow> nat \<Rightarrow> frame list \<Rightarrow> bytes" where
  "display_frame E (Simple response) = response"
| "display_frame E (Error msg) = ''error: '' @ msg"
| "display_frame E (Integer num) = dec (unat num)"
| "display_frame E (Bulk msg) =
     (case from_utf8 msg of Some string \<Rightarrow> string | None \<Rightarrow> debug_bytes E msg)"
| "display_frame E Null = ''(nil)''"
| "display_frame E (Array parts) = display_parts E 0 parts"
| "display_parts E i [] = []"
| "display_parts E i (part # parts) =
     (if 0 < i then '' '' else []) @ display_frame E part @ display_parts E (i + 1) parts"

definition to_error :: "env \<Rightarrow> frame \<Rightarrow> crate_error" where
  "to_error E f = Text (''unexpected frame: '' @ display_frame E f)"

text \<open>\<open>impl PartialEq<&str> for Frame\<close>.\<close>

fun frame_eq_str :: "frame \<Rightarrow> bytes \<Rightarrow> bool" where
  "frame_eq_str (Simple s) other = (s = other)"
| "frame_eq_str (Bulk s) other = (s = other)"
| "frame_eq_str _ other = False"

section \<open>The cursor\<close>

text \<open>\<open>Cursor<&[u8]>\<close>: the buffer and the current position in it.\<close>

record cursor =
  get_ref :: bytes
  position :: nat

definition remaining :: "cursor \<Rightarrow> nat" where
  "remaining src = length (get_ref src) - position src"

definition chunk :: "cursor \<Rightarrow> bytes" where
  "chunk src = drop (position src) (get_ref src)"

definition advance :: "cursor \<Rightarrow> nat \<Rightarrow> cursor" where
  "advance src n = src\<lparr>position := position src + n\<rparr>"

definition peek_u8 :: "cursor \<Rightarrow> (char, frame_error) res" where
  "peek_u8 src = (if remaining src = 0 then Err Incomplete else Ok (chunk src ! 0))"

definition get_u8 :: "cursor \<Rightarrow> (char \<times> cursor, frame_error) res" where
  "get_u8 src =
     (if remaining src = 0 then Err Incomplete else Ok (chunk src ! 0, advance src 1))"

definition skip :: "cursor \<Rightarrow> usize \<Rightarrow> (cursor, frame_error) res" where
  "skip src n = (if remaining src < unat n then Err Incomplete else Ok (advance src (unat n)))"

definition crlf_at :: "bytes \<Rightarrow> nat \<Rightarrow> bool" where
  "crlf_at buf i \<longleftrightarrow> buf ! i = CHR 0x0D \<and> buf ! (i + 1) = CHR 0x0A"

text \<open>The loop \<open>for i in start..end\<close> of \<open>get_line\<close>: the first line break at or after \<open>i\<close>.\<close>

function scan_line :: "bytes \<Rightarrow> nat \<Rightarrow> nat \<Rightarrow> nat option" where
  "scan_line buf i e =
     (if i < e
      then if crlf_at buf i then Some i else scan_line buf (i + 1) e
      else None)"
  by pat_completeness auto
termination
  by (relation "measure (\<lambda>(buf, i, e). e - i)") auto

declare scan_line.simps [simp del]

text \<open>
  \<open>src.get_ref().len() - 1\<close> underflows on an empty buffer: a panic with overflow checks, and
  without them a wrapped bound whose first iteration indexes out of range.
\<close>

definition get_line :: "env \<Rightarrow> cursor \<Rightarrow> (bytes \<times> cursor, frame_error) res" where
  "get_line E src =
     (let start = position src; len = length (get_ref src) in
      if len = 0 then Panic (if overflow_checks E then ArithOverflow else IndexOutOfBounds)
      else case scan_line (get_ref src) start (len - 1) of
             Some i \<Rightarrow> Ok (subslice start i (get_ref src), src\<lparr>position := i + 2\<rparr>)
           | None \<Rightarrow> Err Incomplete)"

definition get_decimal :: "env \<Rightarrow> cursor \<Rightarrow> (u64 \<times> cursor, frame_error) res" where
  "get_decimal E src =
     and_then (get_line E src) (\<lambda>(line, src).
       and_then (ok_or (Other invalid_frame_format) (atoi E line)) (\<lambda>v. Ok (v, src)))"

subsection \<open>Where the primitives leave the cursor\<close>

lemma advance_simps [simp]:
  "get_ref (advance src n) = get_ref src"
  "position (advance src n) = position src + n"
  by (simp_all add: advance_def)

lemma get_u8_Ok [cursor_simps]:
  "get_u8 src = Ok (b, src') \<longleftrightarrow>
     position src < length (get_ref src) \<and> b = get_ref src ! position src \<and> src' = advance src 1"
  by (auto simp: get_u8_def remaining_def chunk_def)

lemma peek_u8_Ok [cursor_simps]:
  "peek_u8 src = Ok b \<longleftrightarrow>
     position src < length (get_ref src) \<and> b = get_ref src ! position src"
  by (auto simp: peek_u8_def remaining_def chunk_def)

lemma skip_Ok [cursor_simps]:
  "skip src n = Ok src' \<longleftrightarrow> unat n \<le> remaining src \<and> src' = advance src (unat n)"
  by (auto simp: skip_def)

lemma scan_line_SomeD:
  "scan_line buf i e = Some k \<Longrightarrow>
     i \<le> k \<and> k < e \<and> crlf_at buf k \<and> (\<forall>j. i \<le> j \<longrightarrow> j < k \<longrightarrow> \<not> crlf_at buf j)"
proof (induction buf i e rule: scan_line.induct)
  case (1 buf i e)
  show ?case
  proof (cases "i < e \<and> \<not> crlf_at buf i")
    case True
    with "1.prems" have "scan_line buf (i + 1) e = Some k"
      by (simp add: scan_line.simps [of buf i e])
    with True "1.IH" have "i + 1 \<le> k" "k < e" "crlf_at buf k"
      "\<And>j. i + 1 \<le> j \<Longrightarrow> j < k \<Longrightarrow> \<not> crlf_at buf j" by auto
    moreover have "\<not> crlf_at buf j" if "i \<le> j" "j < k" for j
      using True calculation(4) that by (cases "j = i") auto
    ultimately show ?thesis by auto
  next
    case False
    with "1.prems" show ?thesis
      by (auto simp: scan_line.simps [of buf i e] split: if_splits)
  qed
qed

lemma scan_line_SomeI:
  "i \<le> k \<Longrightarrow> k < e \<Longrightarrow> crlf_at buf k \<Longrightarrow> (\<And>j. i \<le> j \<Longrightarrow> j < k \<Longrightarrow> \<not> crlf_at buf j) \<Longrightarrow>
     scan_line buf i e = Some k"
proof (induction buf i e rule: scan_line.induct)
  case (1 buf i e)
  show ?case
  proof (cases "i = k")
    case True
    with "1.prems" show ?thesis by (simp add: scan_line.simps [of buf k e])
  next
    case False
    with "1.prems" have "i < e" "\<not> crlf_at buf i" "i + 1 \<le> k" by auto
    with 1 show ?thesis by (simp add: scan_line.simps [of buf i e])
  qed
qed

lemma get_line_Ok:
  "get_line E src = Ok (line, src') \<longleftrightarrow>
     (\<exists>i. get_ref src \<noteq> [] \<and> scan_line (get_ref src) (position src) (length (get_ref src) - 1) = Some i
        \<and> line = subslice (position src) i (get_ref src) \<and> src' = src\<lparr>position := i + 2\<rparr>)"
  by (auto simp: get_line_def Let_def split: option.splits)

lemma get_line_moves:
  "get_line E src = Ok (line, src') \<Longrightarrow>
     get_ref src' = get_ref src \<and> position src < position src' \<and>
     position src' \<le> length (get_ref src) \<and> position src' = position src + length line + 2"
  by (auto simp: get_line_Ok subslice_def dest!: scan_line_SomeD)

lemma get_line_advance:
  "get_line E src = Ok (line, src') \<Longrightarrow>
     src' = advance src (length line + 2) \<and> length line + 2 \<le> remaining src"
  by (auto simp: get_line_Ok subslice_def advance_def remaining_def dest!: scan_line_SomeD)

lemma get_decimal_Ok:
  "get_decimal E src = Ok (v, src') \<longleftrightarrow>
     (\<exists>line. get_line E src = Ok (line, src') \<and> atoi E line = Some v)"
  by (auto simp: get_decimal_def res_conv)

lemma get_decimal_moves:
  "get_decimal E src = Ok (v, src') \<Longrightarrow>
     get_ref src' = get_ref src \<and> position src < position src' \<and>
     position src' \<le> length (get_ref src)"
  using get_line_moves by (auto simp: get_decimal_Ok)

section \<open>The check pass\<close>

text \<open>\<open>Frame::check\<close>; \<open>check_loop\<close> is its loop \<open>for _ in 0..len\<close> over the elements of an array.\<close>

function check :: "env \<Rightarrow> cursor \<Rightarrow> (cursor, frame_error) res"
  and check_loop :: "env \<Rightarrow> nat \<Rightarrow> cursor \<Rightarrow> (cursor, frame_error) res" where
  "check E src =
     and_then (get_u8 src) (\<lambda>(b, src).
       if b = CHR ''+'' then and_then (get_line E src) (\<lambda>(_, src). Ok src)
       else if b = CHR ''-'' then and_then (get_line E src) (\<lambda>(_, src). Ok src)
       else if b = CHR '':'' then and_then (get_decimal E src) (\<lambda>(_, src). Ok src)
       else if b = CHR ''$'' then
         and_then (peek_u8 src) (\<lambda>p.
           if p = CHR ''-'' then skip src 4
           else
             and_then (get_decimal E src) (\<lambda>(len, src).
               and_then (add_usize E len 2) (\<lambda>n. skip src n)))
       else if b = CHR ''*'' then
         and_then (get_decimal E src) (\<lambda>(len, src). check_loop E (unat len) src)
       else Err (Other (invalid_type_byte b)))"
| "check_loop E 0 src = Ok src"
| "check_loop E (Suc n) src = and_then (check E src) (\<lambda>src. check_loop E n src)"
  by pat_completeness auto

lemma check_moves_dom:
  "check_check_loop_dom (Inl (E, src)) \<Longrightarrow>
     (\<forall>src'. check E src = Ok src' \<longrightarrow> get_ref src' = get_ref src \<and> position src < position src')"
  "check_check_loop_dom (Inr (E, n, src)) \<Longrightarrow>
     (\<forall>src'. check_loop E n src = Ok src' \<longrightarrow> get_ref src' = get_ref src \<and> position src \<le> position src')"
proof (induction rule: check_check_loop.pinduct)
  case dom: (1 E src)
  have loop: "get_ref t' = get_ref src \<and> position src < position t'"
    if "position src < length (get_ref src)" "get_ref src ! position src = CHR ''*''"
      "get_decimal E (advance src 1) = Ok (len, t)" "check_loop E (unat len) t = Ok t'" for len t t'
  proof -
    have "get_u8 src = Ok (CHR ''*'', advance src 1)"
      using that(1,2) by (simp add: get_u8_Ok)
    from dom(2) [OF this refl _ _ _ _ _ that(3) refl] that(4)
    have "get_ref t' = get_ref t \<and> position t \<le> position t'" by simp
    with get_decimal_moves [OF that(3)] show ?thesis by simp
  qed
  have "get_ref src' = get_ref src \<and> position src < position src'"
    if ok: "check E src = Ok src'" for src'
  proof -
    obtain b t where g: "get_u8 src = Ok (b, t)"
      using ok by (cases "get_u8 src") (auto simp: check.psimps [OF dom(1)])
    then have src: "position src < length (get_ref src)" "b = get_ref src ! position src"
      and t: "t = advance src 1" by (simp_all add: get_u8_Ok)
    consider "b = CHR ''+'' \<or> b = CHR ''-''" | "b = CHR '':''" | "b = CHR ''$''" | "b = CHR ''*''"
      using ok g by (auto simp: check.psimps [OF dom(1)] split: if_splits)
    then show ?thesis
    proof cases
      case 1
      with ok g t show ?thesis
        by (auto simp: check.psimps [OF dom(1)] res_conv
            dest!: get_line_moves)
    next
      case 2
      with ok g t show ?thesis
        by (auto simp: check.psimps [OF dom(1)] res_conv dest!: get_decimal_moves)
    next
      case 3
      with ok g t show ?thesis
        by (auto simp: check.psimps [OF dom(1)] res_conv skip_Ok split: if_splits
            dest!: get_decimal_moves)
    next
      case 4
      with ok g obtain len u where "get_decimal E t = Ok (len, u)" "check_loop E (unat len) u = Ok src'"
        by (auto simp: check.psimps [OF dom(1)] res_conv)
      with 4 src t show ?thesis using loop [of len u src'] by simp
    qed
  qed
  then show ?case by blast
next
  case (2 E src)
  then show ?case by (simp add: check_loop.psimps)
next
  case (3 E n src)
  show ?case
  proof (intro allI impI)
    fix src'
    assume "check_loop E (Suc n) src = Ok src'"
    then obtain t where c: "check E src = Ok t" and l: "check_loop E n t = Ok src'"
      by (auto simp: check_loop.psimps(2) [OF 3(1)] res_conv)
    from 3(2) c have "get_ref t = get_ref src \<and> position src < position t" by blast
    moreover from 3(3) [OF c] l have "get_ref src' = get_ref t \<and> position t \<le> position src'" by blast
    ultimately show "get_ref src' = get_ref src \<and> position src \<le> position src'" by simp
  qed
qed

termination check
proof (relation "measures
    [\<lambda>x. case x of Inl (E, src) \<Rightarrow> remaining src | Inr (E, n, src) \<Rightarrow> remaining src,
     \<lambda>x. case x of Inl (E, src) \<Rightarrow> 0 | Inr (E, n, src) \<Rightarrow> Suc n]", goal_cases)
  case 1
  then show ?case by simp
next
  case (2 E src p b src1 q len src2)
  then show ?case
    by (auto simp: cursor_simps remaining_def dest!: get_decimal_moves)
next
  case (3 E n src)
  then show ?case by simp
next
  case (4 E n src src')
  then show ?case
    using check_moves_dom(1) [of E src] by (fastforce simp: remaining_def)
qed

declare check.simps [simp del]

section \<open>The parse pass\<close>

text \<open>\<open>Frame::parse\<close>; \<open>parse_loop\<close> is its loop, which pushes the elements onto \<open>out\<close>.\<close>

function parse :: "env \<Rightarrow> cursor \<Rightarrow> (frame \<times> cursor, frame_error) res"
  and parse_loop ::
    "env \<Rightarrow> nat \<Rightarrow> frame list \<Rightarrow> cursor \<Rightarrow> (frame list \<times> cursor, frame_error) res" where
  "parse E src =
     and_then (get_u8 src) (\<lambda>(b, src).
       if b = CHR ''+'' then
         and_then (get_line E src) (\<lambda>(line, src).
           and_then (ok_or (Other invalid_frame_format) (from_utf8 line)) (\<lambda>string.
             Ok (Simple string, src)))
       else if b = CHR ''-'' then
         and_then (get_line E src) (\<lambda>(line, src).
           and_then (ok_or (Other invalid_frame_format) (from_utf8 line)) (\<lambda>string.
             Ok (Error string, src)))
       else if b = CHR '':'' then
         and_then (get_decimal E src) (\<lambda>(len, src). Ok (Integer len, src))
       else if b = CHR ''$'' then
         and_then (peek_u8 src) (\<lambda>p.
           if p = CHR ''-'' then
             and_then (get_line E src) (\<lambda>(line, src).
               if line \<noteq> ''-1'' then Err (Other invalid_frame_format) else Ok (Null, src))
           else
             and_then (get_decimal E src) (\<lambda>(len, src).
               and_then (add_usize E len 2) (\<lambda>n.
                 if remaining src < unat n then Err Incomplete
                 else if length (chunk src) < unat len then Panic IndexOutOfBounds
                 else
                   let data = take (unat len) (chunk src)
                   in and_then (skip src n) (\<lambda>src. Ok (Bulk data, src)))))
       else if b = CHR ''*'' then
         and_then (get_decimal E src) (\<lambda>(len, src).
           and_then (parse_loop E (unat len) [] src) (\<lambda>(out, src). Ok (Array out, src)))
       else Panic Unimplemented)"
| "parse_loop E 0 out src = Ok (out, src)"
| "parse_loop E (Suc n) out src =
     and_then (parse E src) (\<lambda>(f, src). parse_loop E n (out @ [f]) src)"
  by pat_completeness auto

lemma parse_moves_dom:
  "parse_parse_loop_dom (Inl (E, src)) \<Longrightarrow>
     (\<forall>f src'. parse E src = Ok (f, src') \<longrightarrow> get_ref src' = get_ref src \<and> position src < position src')"
  "parse_parse_loop_dom (Inr (E, n, out, src)) \<Longrightarrow>
     (\<forall>fs src'. parse_loop E n out src = Ok (fs, src') \<longrightarrow>
        get_ref src' = get_ref src \<and> position src \<le> position src')"
proof (induction rule: parse_parse_loop.pinduct)
  case dom: (1 E src)
  note unf = parse.psimps [OF dom(1)]
  have loop: "get_ref t' = get_ref src \<and> position src < position t'"
    if "get_u8 src = Ok (CHR ''*'', advance src 1)"
      "get_decimal E (advance src 1) = Ok (len, t)" "parse_loop E (unat len) [] t = Ok (fs, t')"
    for len t fs t'
    using dom(2) [OF that(1) refl _ _ _ _ _ that(2) refl] that(3) get_decimal_moves [OF that(2)]
    by simp
  have "get_ref src' = get_ref src \<and> position src < position src'"
    if ok: "parse E src = Ok (f, src')" for f src'
  proof -
    obtain b t where g: "get_u8 src = Ok (b, t)"
      using ok by (cases "get_u8 src") (auto simp: unf)
    then have t: "t = advance src 1" by (simp_all add: get_u8_Ok)
    consider "b = CHR ''+'' \<or> b = CHR ''-''" | "b = CHR '':''" | "b = CHR ''$''" | "b = CHR ''*''"
      using ok g by (auto simp: unf split: if_splits)
    then show ?thesis
    proof cases
      case 1
      with ok g t show ?thesis by (auto simp: unf res_conv dest!: get_line_moves)
    next
      case 2
      with ok g t show ?thesis by (auto simp: unf res_conv dest!: get_decimal_moves)
    next
      case 3
      with ok g t show ?thesis
        by (auto simp: unf res_conv skip_Ok Let_def split: if_splits
            dest!: get_decimal_moves get_line_moves)
    next
      case 4
      with ok g t obtain len u fs where
        "get_decimal E t = Ok (len, u)" "parse_loop E (unat len) [] u = Ok (fs, src')"
        by (auto simp: unf res_conv)
      with 4 g t show ?thesis using loop [of len u fs src'] by simp
    qed
  qed
  then show ?case by blast
next
  case (2 E out src)
  then show ?case by (simp add: parse_loop.psimps)
next
  case (3 E n out src)
  show ?case
  proof (intro allI impI)
    fix fs src'
    assume "parse_loop E (Suc n) out src = Ok (fs, src')"
    then obtain f t where c: "parse E src = Ok (f, t)"
      and l: "parse_loop E n (out @ [f]) t = Ok (fs, src')"
      by (auto simp: parse_loop.psimps(2) [OF 3(1)] res_conv)
    from 3(2) c have "get_ref t = get_ref src \<and> position src < position t" by blast
    moreover from 3(3) [OF c refl] l have "get_ref src' = get_ref t \<and> position t \<le> position src'"
      by blast
    ultimately show "get_ref src' = get_ref src \<and> position src \<le> position src'" by simp
  qed
qed

termination parse
proof (relation "measures
    [\<lambda>x. case x of Inl (E, src) \<Rightarrow> remaining src | Inr (E, n, out, src) \<Rightarrow> remaining src,
     \<lambda>x. case x of Inl (E, src) \<Rightarrow> 0 | Inr (E, n, out, src) \<Rightarrow> Suc n]", goal_cases)
  case 1
  then show ?case by simp
next
  case (2 E src p b src1 q len src2)
  then show ?case
    by (auto simp: cursor_simps remaining_def dest!: get_decimal_moves)
next
  case (3 E n out src)
  then show ?case by simp
next
  case (4 E n out src p f src')
  then show ?case
    using parse_moves_dom(1) [of E src] by (fastforce simp: remaining_def)
qed

declare parse.simps [simp del]

section \<open>Reasoning by the type byte\<close>

lemma type_byte_cases [case_names eof simple error integer bulk array other]:
  fixes src :: cursor
  obtains "get_u8 src = Err Incomplete"
  | t where "get_u8 src = Ok (CHR ''+'', t)"
  | t where "get_u8 src = Ok (CHR ''-'', t)"
  | t where "get_u8 src = Ok (CHR '':'', t)"
  | t where "get_u8 src = Ok (CHR ''$'', t)"
  | t where "get_u8 src = Ok (CHR ''*'', t)"
  | b t where "get_u8 src = Ok (b, t)" "b \<notin> set ''+-:$*''"
proof (cases "get_u8 src")
  case (Ok a)
  then show ?thesis using that by (cases a) auto
qed (use that in \<open>auto simp: get_u8_def split: if_splits\<close>)

lemma check_at:
  "get_u8 src = Err e \<Longrightarrow> check E src = Err e"
  "get_u8 src = Ok (CHR ''+'', t) \<Longrightarrow> check E src = and_then (get_line E t) (\<lambda>(_, s). Ok s)"
  "get_u8 src = Ok (CHR ''-'', t) \<Longrightarrow> check E src = and_then (get_line E t) (\<lambda>(_, s). Ok s)"
  "get_u8 src = Ok (CHR '':'', t) \<Longrightarrow> check E src = and_then (get_decimal E t) (\<lambda>(_, s). Ok s)"
  "get_u8 src = Ok (CHR ''$'', t) \<Longrightarrow> check E src =
     and_then (peek_u8 t) (\<lambda>p. if p = CHR ''-'' then skip t 4
       else and_then (get_decimal E t) (\<lambda>(len, s).
         and_then (add_usize E len 2) (\<lambda>n. skip s n)))"
  "get_u8 src = Ok (CHR ''*'', t) \<Longrightarrow> check E src =
     and_then (get_decimal E t) (\<lambda>(len, s). check_loop E (unat len) s)"
  "get_u8 src = Ok (b, t) \<Longrightarrow> b \<notin> set ''+-:$*'' \<Longrightarrow>
     check E src = Err (Other (invalid_type_byte b))"
  by (simp_all add: check.simps [of E src])

lemma parse_at:
  "get_u8 src = Err e \<Longrightarrow> parse E src = Err e"
  "get_u8 src = Ok (CHR ''+'', t) \<Longrightarrow> parse E src =
     and_then (get_line E t) (\<lambda>(line, s).
       and_then (ok_or (Other invalid_frame_format) (from_utf8 line)) (\<lambda>str. Ok (Simple str, s)))"
  "get_u8 src = Ok (CHR ''-'', t) \<Longrightarrow> parse E src =
     and_then (get_line E t) (\<lambda>(line, s).
       and_then (ok_or (Other invalid_frame_format) (from_utf8 line)) (\<lambda>str. Ok (Error str, s)))"
  "get_u8 src = Ok (CHR '':'', t) \<Longrightarrow> parse E src =
     and_then (get_decimal E t) (\<lambda>(v, s). Ok (Integer v, s))"
  "get_u8 src = Ok (CHR ''$'', t) \<Longrightarrow> parse E src =
     and_then (peek_u8 t) (\<lambda>p. if p = CHR ''-'' then
         and_then (get_line E t) (\<lambda>(line, s).
           if line \<noteq> ''-1'' then Err (Other invalid_frame_format) else Ok (Null, s))
       else and_then (get_decimal E t) (\<lambda>(len, s).
         and_then (add_usize E len 2) (\<lambda>n.
           if remaining s < unat n then Err Incomplete
           else if length (chunk s) < unat len then Panic IndexOutOfBounds
           else and_then (skip s n) (\<lambda>s'. Ok (Bulk (take (unat len) (chunk s)), s')))))"
  "get_u8 src = Ok (CHR ''*'', t) \<Longrightarrow> parse E src =
     and_then (get_decimal E t) (\<lambda>(len, s).
       and_then (parse_loop E (unat len) [] s) (\<lambda>(out, s). Ok (Array out, s)))"
  "get_u8 src = Ok (b, t) \<Longrightarrow> b \<notin> set ''+-:$*'' \<Longrightarrow> parse E src = Panic Unimplemented"
  by (simp_all add: parse.simps [of E src, unfolded Let_def])

text \<open>Induction along the two passes, with the recursive call of the array case only.\<close>

lemma check_induct [case_names frame nil cons]:
  assumes "\<And>E src. (\<And>t len u. get_u8 src = Ok (CHR ''*'', t) \<Longrightarrow> get_decimal E t = Ok (len, u) \<Longrightarrow>
      Q E (unat len) u) \<Longrightarrow> P E src"
    and "\<And>E src. Q E 0 src"
    and "\<And>E n src. P E src \<Longrightarrow> (\<And>t. check E src = Ok t \<Longrightarrow> Q E n t) \<Longrightarrow> Q E (Suc n) src"
  shows "P E src" and "Q E n src"
proof (induction E src and E n src rule: check_check_loop.induct)
  case (1 E src)
  show ?case by (rule assms(1)) (rule 1 [OF _ refl _ _ _ _ refl _ refl]; simp)
qed (use assms in blast)+

lemma parse_induct [case_names frame nil cons]:
  assumes "\<And>E src. (\<And>t len u. get_u8 src = Ok (CHR ''*'', t) \<Longrightarrow> get_decimal E t = Ok (len, u) \<Longrightarrow>
      Q E (unat len) [] u) \<Longrightarrow> P E src"
    and "\<And>E out src. Q E 0 out src"
    and "\<And>E n out src. P E src \<Longrightarrow> (\<And>f t. parse E src = Ok (f, t) \<Longrightarrow> Q E n (out @ [f]) t) \<Longrightarrow>
      Q E (Suc n) out src"
  shows "P E src" and "Q E n out src"
proof (induction E src and E n out src rule: parse_parse_loop.induct)
  case (1 E src)
  show ?case by (rule assms(1)) (rule 1 [OF _ refl _ _ _ _ refl _ refl]; simp)
qed (use assms in blast)+

section \<open>The passes stay inside the buffer\<close>

lemma check_bounds:
  "check E src = Ok src' \<Longrightarrow> get_ref src' = get_ref src \<and> position src < position src' \<and>
     position src' \<le> length (get_ref src)"
  "position src \<le> length (get_ref src) \<Longrightarrow> check_loop E n src = Ok src' \<Longrightarrow>
     get_ref src' = get_ref src \<and> position src \<le> position src' \<and> position src' \<le> length (get_ref src)"
proof (induction E src and E n src arbitrary: src' and src' rule: check_induct)
  case (frame E src)
  have t: "t = advance src 1" "position src < length (get_ref src)"
    if "get_u8 src = Ok (b, t)" for b t
    using that by (simp_all add: get_u8_Ok)
  show ?case
  proof (cases src rule: type_byte_cases)
    case (array t)
    with frame.prems obtain len u where u: "get_decimal E t = Ok (len, u)"
      "check_loop E (unat len) u = Ok src'"
      by (auto simp: check_at res_conv)
    note moved = get_decimal_moves [OF u(1)] t [OF array]
    with frame.IH [OF array u(1) _ u(2)] show ?thesis by simp
  qed (use frame.prems t in \<open>auto simp: check_at res_conv skip_Ok remaining_def split: if_splits
        dest!: get_line_moves get_decimal_moves\<close>)
next
  case (nil E src)
  then show ?case by simp
next
  case (cons E n src)
  from cons.prems(2) obtain t where "check E src = Ok t" "check_loop E n t = Ok src'"
    by (auto simp: res_conv)
  with cons.prems(1) cons.IH(1) [of t] cons.IH(2) [of t src'] show ?case by simp
qed

lemma parse_check:
  "parse E src = Ok (f, src') \<Longrightarrow> check E src = Ok src'"
  "parse_loop E n out src = Ok (fs, src') \<Longrightarrow> check_loop E n src = Ok src'"
proof (induction E src and E n out src arbitrary: f src' and fs src' rule: parse_induct)
  case (frame E src)
  show ?case
  proof (cases src rule: type_byte_cases)
    case (bulk t)
    then show ?thesis
    proof (cases "peek_u8 t = Ok (CHR ''-'')")
      case True
      with frame.prems bulk have "get_line E t = Ok (''-1'', src')" 
        by (auto simp: parse_at res_conv split: if_splits)
      then have "src' = advance t 4" "4 \<le> remaining t"
        using get_line_advance by fastforce+
      with True bulk show ?thesis by (simp add: check_at skip_def)
    qed (use bulk frame.prems in \<open>auto simp: parse_at check_at res_conv split: if_splits\<close>)
  next
    case (array t)
    with frame.prems obtain len u fs where u: "get_decimal E t = Ok (len, u)"
      "parse_loop E (unat len) [] u = Ok (fs, src')"
      by (auto simp: parse_at res_conv)
    with array frame.IH [OF array u(1) u(2)] show ?thesis by (simp add: check_at)
  qed (use frame.prems in \<open>auto simp: parse_at check_at res_conv\<close>)
next
  case (nil E out src)
  then show ?case by simp
next
  case (cons E n out src)
  from cons.prems obtain f t where "parse E src = Ok (f, t)" "parse_loop E n (out @ [f]) t = Ok (fs, src')"
    by (auto simp: res_conv)
  with cons.IH(1) [of f t] cons.IH(2) [of f t fs src'] show ?case by simp
qed

section \<open>More bytes do not change the answer\<close>

text \<open>The cursor over the same buffer with \<open>xs\<close> received behind it.\<close>

definition feed :: "bytes \<Rightarrow> cursor \<Rightarrow> cursor" where
  "feed xs src = src\<lparr>get_ref := get_ref src @ xs\<rparr>"

lemma feed_simps [simp]:
  "get_ref (feed xs src) = get_ref src @ xs"
  "position (feed xs src) = position src"
  "advance (feed xs src) n = feed xs (advance src n)"
  by (simp_all add: feed_def advance_def)

lemma get_u8_feed: "get_u8 src = Ok (b, t) \<Longrightarrow> get_u8 (feed xs src) = Ok (b, feed xs t)"
  by (auto simp: get_u8_Ok nth_append)

lemma peek_u8_feed: "peek_u8 src = Ok b \<Longrightarrow> peek_u8 (feed xs src) = Ok b"
  by (auto simp: peek_u8_Ok nth_append)

lemma skip_feed: "skip src n = Ok t \<Longrightarrow> skip (feed xs src) n = Ok (feed xs t)"
  by (auto simp: skip_Ok remaining_def)

lemma scan_line_feed:
  assumes "scan_line buf i (length buf - 1) = Some k"
  shows "scan_line (buf @ xs) i (length (buf @ xs) - 1) = Some k"
proof -
  have same: "crlf_at (buf @ xs) j = crlf_at buf j" if "j < length buf - 1" for j
    using that by (auto simp: crlf_at_def nth_append)
  from scan_line_SomeD [OF assms] same show ?thesis
    by (intro scan_line_SomeI) auto
qed

lemma get_line_feed:
  "get_line E src = Ok (line, t) \<Longrightarrow> get_line E (feed xs src) = Ok (line, feed xs t)"
proof -
  assume "get_line E src = Ok (line, t)"
  then obtain i where i: "get_ref src \<noteq> []" "t = src\<lparr>position := i + 2\<rparr>"
    "line = subslice (position src) i (get_ref src)"
    "scan_line (get_ref src) (position src) (length (get_ref src) - 1) = Some i"
    by (auto simp: get_line_Ok)
  have "i \<le> length (get_ref src)"
    using scan_line_SomeD [OF i(4)] by linarith
  then have "line = subslice (position src) i (get_ref src @ xs)"
    using i(3) by (simp add: subslice_append1)
  with i scan_line_feed [OF i(4), of xs] show ?thesis
    by (simp add: get_line_Ok feed_def)
qed

lemma get_line_outcomes:
  "get_ref src \<noteq> [] \<Longrightarrow>
     (\<exists>line t. get_line E src = Ok (line, t)) \<or> get_line E src = Err Incomplete"
  by (auto simp: get_line_def Let_def split: option.splits)

lemma get_decimal_feed:
  assumes "get_ref src \<noteq> []" "get_decimal E src \<noteq> Err Incomplete"
  shows "get_decimal E (feed xs src) = map_res (apsnd (feed xs)) id (get_decimal E src)"
proof -
  obtain line t where l: "get_line E src = Ok (line, t)"
    using assms get_line_outcomes [of src E] by (auto simp: get_decimal_def)
  then show ?thesis
    by (cases "atoi E line") (simp_all add: get_decimal_def get_line_feed [OF l])
qed

lemma get_line_feed_map:
  assumes "get_ref src \<noteq> []" "get_line E src \<noteq> Err Incomplete"
  shows "get_line E (feed xs src) = map_res (apsnd (feed xs)) id (get_line E src)"
  using get_line_outcomes [OF assms(1), of E] assms(2) get_line_feed by fastforce

lemma skip_feed_map:
  "skip src n \<noteq> Err Incomplete \<Longrightarrow> skip (feed xs src) n = map_res (feed xs) id (skip src n)"
  by (auto simp: skip_def remaining_def)

lemma peek_u8_feed_map:
  "peek_u8 src \<noteq> Err Incomplete \<Longrightarrow> peek_u8 (feed xs src) = map_res id id (peek_u8 src)"
  by (auto simp: peek_u8_def remaining_def chunk_def nth_append)

lemmas feed_maps = get_line_feed_map get_decimal_feed skip_feed_map peek_u8_feed_map

lemma check_feed:
  "check E src \<noteq> Err Incomplete \<Longrightarrow> check E (feed xs src) = map_res (feed xs) id (check E src)"
  "check_loop E n src \<noteq> Err Incomplete \<Longrightarrow>
     check_loop E n (feed xs src) = map_res (feed xs) id (check_loop E n src)"
proof (induction E src and E n src rule: check_induct)
  case (frame E src)
  note here = frame.prems
  have nonempty: "get_ref t \<noteq> []" if "get_u8 src = Ok (b, t)" for b t
    using that by (auto simp: get_u8_Ok)
  show ?case
  proof (cases src rule: type_byte_cases)
    case eof
    with here show ?thesis by (simp add: check_at)
  next
    case (simple t)
    with here nonempty show ?thesis unfolding check_at(2) [OF simple] check_at(2) [OF get_u8_feed [OF simple]]
      by (intro and_then_map [OF get_line_feed_map]) auto
  next
    case (error t)
    with here nonempty show ?thesis unfolding check_at(3) [OF error] check_at(3) [OF get_u8_feed [OF error]]
      by (intro and_then_map [OF get_line_feed_map]) auto
  next
    case (integer t)
    with here nonempty show ?thesis unfolding check_at(4) [OF integer] check_at(4) [OF get_u8_feed [OF integer]]
      by (intro and_then_map [OF get_decimal_feed]) auto
  next
    case (bulk t)
    have num: "get_decimal E t \<noteq> Err Incomplete \<and> (\<forall>len s n. get_decimal E t = Ok (len, s) \<longrightarrow>
        (add_usize E len 2 :: (usize, frame_error) res) = Ok n \<longrightarrow> skip s n \<noteq> Err Incomplete)"
      if "peek_u8 t = Ok p" "p \<noteq> CHR ''-''" for p
      using here bulk that by (auto simp: check_at)
    show ?thesis unfolding check_at(5) [OF bulk] check_at(5) [OF get_u8_feed [OF bulk]]
    proof (rule and_then_map [OF peek_u8_feed_map])
      show "peek_u8 t \<noteq> Err Incomplete" using here bulk by (auto simp: check_at)
    next
      fix p
      assume p: "peek_u8 t = Ok p"
      show "(if id p = CHR ''-'' then skip (feed xs t) 4
          else and_then (get_decimal E (feed xs t)) (\<lambda>(len, s). and_then (add_usize E len 2) (skip s))) =
        map_res (feed xs) id (if p = CHR ''-'' then skip t 4
          else and_then (get_decimal E t) (\<lambda>(len, s). and_then (add_usize E len 2) (skip s)))"
      proof (cases "p = CHR ''-''")
        case True
        with here bulk p show ?thesis by (auto simp: check_at skip_feed_map)
      next
        case False
        with num [OF p] nonempty [OF bulk] show ?thesis
          by (simp, intro and_then_map [OF get_decimal_feed])
            (auto simp: res.map_id intro!: and_then_map [where g = id] skip_feed_map)
      qed
    qed
  next
    case (array t)
    with here nonempty frame.IH [OF array] show ?thesis
      unfolding check_at(6) [OF array] check_at(6) [OF get_u8_feed [OF array]]
      by (intro and_then_map [OF get_decimal_feed]) (auto simp: id_def)
  next
    case (other b t)
    then show ?thesis by (simp add: check_at(7) get_u8_feed)
  qed
next
  case (nil E src)
  then show ?case by simp
next
  case (cons E n src)
  show ?case unfolding check_loop.simps(2)
  proof (rule and_then_map [OF cons.IH(1)])
    show "check E src \<noteq> Err Incomplete" using cons.prems by auto
    show "check_loop E n (feed xs t) = map_res (feed xs) id (check_loop E n t)"
      if "check E src = Ok t" for t
      using cons.IH(2) [OF that] cons.prems that by (simp add: id_def)
  qed
qed

lemma remaining_feed: "n \<le> remaining src \<Longrightarrow> n \<le> remaining (feed xs src)"
  by (simp add: remaining_def)

lemma length_chunk: "length (chunk src) = remaining src"
  by (simp add: chunk_def remaining_def)

lemma take_chunk_feed: "n \<le> remaining src \<Longrightarrow> take n (chunk (feed xs src)) = take n (chunk src)"
  by (simp add: chunk_def remaining_def)

text \<open>A parsed frame is unaffected by the bytes behind it.\<close>

lemma parse_feed:
  "parse E src = Ok (f, src') \<Longrightarrow> parse E (feed xs src) = Ok (f, feed xs src')"
  "parse_loop E n out src = Ok (fs, src') \<Longrightarrow> parse_loop E n out (feed xs src) = Ok (fs, feed xs src')"
proof (induction E src and E n out src arbitrary: f src' and fs src' rule: parse_induct)
  case (frame E src)
  have nonempty: "get_ref t \<noteq> []" if "get_u8 src = Ok (b, t)" for b t
    using that by (auto simp: get_u8_Ok)
  have dec_fed: "get_decimal E (feed xs t) = Ok (v, feed xs u)"
    if "get_u8 src = Ok (b, t)" "get_decimal E t = Ok (v, u)" for b t v u
    using get_decimal_feed [OF nonempty [OF that(1)], of E xs] that(2) by simp
  show ?case
  proof (cases src rule: type_byte_cases)
    case (bulk t)
    obtain p where p: "peek_u8 t = Ok p"
      using frame.prems bulk by (auto simp: parse_at res_conv)
    show ?thesis
    proof (cases "p = CHR ''-''")
      case True
      with frame.prems bulk p have "get_line E t = Ok (''-1'', src')" "f = Null"
        by (auto simp: parse_at res_conv split: if_splits)
      with True p bulk get_u8_feed [OF bulk, of xs] peek_u8_feed [OF p, of xs] show ?thesis
        by (simp add: parse_at get_line_feed)
    next
      case False
      with frame.prems bulk p obtain len u n where u: "get_decimal E t = Ok (len, u)"
        "(add_usize E len 2 :: (usize, frame_error) res) = Ok n" "unat n \<le> remaining u"
        "unat len \<le> remaining u" "skip u n = Ok src'" "f = Bulk (take (unat len) (chunk u))"
        by (auto simp: parse_at res_conv length_chunk split: if_splits)
      then have "\<not> remaining (feed xs u) < unat n" "\<not> remaining (feed xs u) < unat len"
        using remaining_feed not_less by blast+
      with u False p get_u8_feed [OF bulk, of xs] peek_u8_feed [OF p, of xs] dec_fed [OF bulk u(1)]
      show ?thesis by (simp add: parse_at skip_feed take_chunk_feed length_chunk)
    qed
  next
    case (array t)
    with frame.prems obtain len u fs where u: "get_decimal E t = Ok (len, u)"
      "parse_loop E (unat len) [] u = Ok (fs, src')" "f = Array fs"
      by (auto simp: parse_at res_conv)
    with get_u8_feed [OF array, of xs] dec_fed [OF array u(1)] frame.IH [OF array u(1,2)]
    show ?thesis by (simp add: parse_at)
  qed (use frame.prems get_u8_feed get_line_feed dec_fed in \<open>fastforce simp: parse_at res_conv\<close>)+
next
  case (nil E out src)
  then show ?case by simp
next
  case (cons E n out src)
  from cons.prems obtain f t where "parse E src = Ok (f, t)"
    "parse_loop E n (out @ [f]) t = Ok (fs, src')"
    by (auto simp: res_conv)
  with cons.IH(1) [of f t] cons.IH(2) [of f t fs src'] show ?case by simp
qed

section \<open>What parse can do after a successful check\<close>

lemma parse_after_check:
  "check E src = Ok src' \<Longrightarrow> parse E src = Panic p \<Longrightarrow> p = IndexOutOfBounds \<and> \<not> overflow_checks E"
  "check_loop E n src = Ok src' \<Longrightarrow> parse_loop E n out src = Panic p \<Longrightarrow>
     p = IndexOutOfBounds \<and> \<not> overflow_checks E"
proof (induction E src and E n out src arbitrary: src' and src' rule: parse_induct)
  case (frame E src)
  show ?case
  proof (cases src rule: type_byte_cases)
    case (bulk t)
    then have "get_ref t \<noteq> []" by (auto simp: get_u8_Ok)
    then have no_line: "get_line E t \<noteq> Panic q" for q
      using get_line_outcomes [of t E] by auto
    obtain q where q: "peek_u8 t = Ok q"
      using frame.prems(1) bulk by (auto simp: check_at res_conv)
    show ?thesis
    proof (cases "q = CHR ''-''")
      case True
      with frame.prems(2) bulk q no_line show ?thesis
        by (auto simp: parse_at res_conv split: if_splits)
    next
      case False
      with frame.prems(1) bulk q obtain len u n where u: "get_decimal E t = Ok (len, u)"
        "(add_usize E len 2 :: (usize, frame_error) res) = Ok n" "unat n \<le> remaining u"
        by (auto simp: check_at res_conv skip_Ok)
      with frame.prems(2) bulk q False have "p = IndexOutOfBounds" "unat n < unat len"
        by (auto simp: parse_at res_conv length_chunk skip_def split: if_splits)
      moreover have "unat len < 2 ^ 64" using unsigned_less [of len, where 'a = nat] by simp
      ultimately show ?thesis
        using u(2) unat_add_usize_fits [of len 2]
        by (auto simp: add_usize_def split: if_splits)
    qed
  next
    case (array t)
    then obtain len u where u: "get_decimal E t = Ok (len, u)" "check_loop E (unat len) u = Ok src'"
      using frame.prems(1) by (auto simp: check_at res_conv)
    with frame.prems(2) array have "parse_loop E (unat len) [] u = Panic p"
      by (auto simp: parse_at res_conv)
    with frame.IH [OF array u(1) u(2)] show ?thesis by blast
  qed (use frame.prems in \<open>auto simp: parse_at check_at res_conv\<close>)
next
  case (nil E out src)
  then show ?case by simp
next
  case (cons E n out src)
  from cons.prems(1) obtain t where t: "check E src = Ok t" "check_loop E n t = Ok src'"
    by (auto simp: res_conv)
  show ?case
  proof (cases "parse E src")
    case (Ok a)
    then obtain f where f: "parse E src = Ok (f, t)"
      using parse_check(1) [of E src "fst a" "snd a"] t(1) by (cases a) auto
    with cons.prems(2) cons.IH(2) [OF f t(2)] show ?thesis by simp
  next
    case (Panic q)
    with cons.prems(2) cons.IH(1) [OF t(1)] show ?thesis by simp
  qed (use cons.prems(2) in simp)
qed

text \<open>A frame found in the longer buffer was already there when the check passed.\<close>

lemma get_line_null_unfeed:
  assumes "4 \<le> remaining src" "get_line E (feed xs src) = Ok (''-1'', t)"
  shows "get_line E src = Ok (''-1'', advance src 4)"
proof -
  obtain i where i: "''-1'' = subslice (position src) i (get_ref src @ xs)"
    "scan_line (get_ref src @ xs) (position src) (length (get_ref src @ xs) - 1) = Some i"
    using assms(2) by (auto simp: get_line_Ok)
  note d = scan_line_SomeD [OF i(2)]
  have "length (subslice (position src) i (get_ref src @ xs)) = i - position src"
    using d by (auto simp: subslice_def)
  then have "i - position src = 2" unfolding i(1) [symmetric] by simp
  with d have pos: "i = position src + 2" by linarith
  with assms(1) have len: "i + 1 < length (get_ref src)" by (simp add: remaining_def)
  have same: "crlf_at (get_ref src @ xs) j = crlf_at (get_ref src) j" if "j \<le> i" for j
    using that len by (auto simp: crlf_at_def nth_append)
  have "scan_line (get_ref src) (position src) (length (get_ref src) - 1) = Some i"
    using d len same by (intro scan_line_SomeI) auto
  moreover have "''-1'' = subslice (position src) i (get_ref src)"
    using i(1) len by (simp add: subslice_append1)
  ultimately show ?thesis
    using len pos by (auto simp: get_line_Ok advance_def)
qed

lemma parse_unfeed:
  "length (get_ref src @ xs) \<le> isize_max \<Longrightarrow> check E src = Ok s \<Longrightarrow>
     parse E (feed xs src) = Ok (f, t) \<Longrightarrow> parse E src = Ok (f, s)"
  "length (get_ref src @ xs) \<le> isize_max \<Longrightarrow> check_loop E n src = Ok s \<Longrightarrow>
     parse_loop E n out (feed xs src) = Ok (fs, t) \<Longrightarrow> parse_loop E n out src = Ok (fs, s)"
proof (induction E src and E n out src arbitrary: s f t and s fs t rule: parse_induct)
  case (frame E src)
  have nonempty: "get_ref t \<noteq> []" if "get_u8 src = Ok (b, t)" for b t
    using that by (auto simp: get_u8_Ok)
  have dec_fed: "get_decimal E (feed xs t) = Ok (v, feed xs u)"
    if "get_u8 src = Ok (b, t)" "get_decimal E t = Ok (v, u)" for b t v u
    using get_decimal_feed [OF nonempty [OF that(1)], of E xs] that(2) by simp
  show ?case
  proof (cases src rule: type_byte_cases)
    case (bulk t')
    obtain p where p: "peek_u8 t' = Ok p"
      using frame.prems bulk by (auto simp: check_at res_conv)
    note fed = get_u8_feed [OF bulk, of xs] peek_u8_feed [OF p, of xs]
    show ?thesis
    proof (cases "p = CHR ''-''")
      case True
      then have sk: "4 \<le> remaining t'" "s = advance t' 4"
        using frame.prems(2) bulk p by (auto simp: check_at skip_Ok)
      from True frame.prems(3) fed obtain u where "get_line E (feed xs t') = Ok (''-1'', u)" "f = Null"
        by (auto simp: parse_at res_conv split: if_splits)
      with sk True bulk p get_line_null_unfeed show ?thesis by (simp add: parse_at)
    next
      case False
      with frame.prems(2) bulk p obtain len u n where u: "get_decimal E t' = Ok (len, u)"
        "(add_usize E len 2 :: (usize, frame_error) res) = Ok n" "skip u n = Ok s"
        by (auto simp: check_at res_conv)
      with frame.prems(3) fed False dec_fed [OF bulk u(1)] have
        "unat len \<le> remaining (feed xs u)" "f = Bulk (take (unat len) (chunk (feed xs u)))"
        by (auto simp: parse_at res_conv length_chunk split: if_splits)
      moreover have "unat len + 2 < 2 ^ 64"
        using calculation(1) get_decimal_moves [OF u(1)] bulk frame.prems(1)
        by (auto simp: get_u8_Ok remaining_def isize_max_def)
      then have "unat n = unat len + 2"
        using u(2) unat_add_usize_fits [of len 2] by (simp add: add_usize_fits)
      then have "unat len \<le> remaining u" "unat n \<le> remaining u" using u(3) by (simp_all add: skip_Ok)
      ultimately show ?thesis using u bulk p False
        by (simp add: parse_at length_chunk take_chunk_feed)
    qed
  next
    case (array t')
    then obtain len u where u: "get_decimal E t' = Ok (len, u)" "check_loop E (unat len) u = Ok s"
      using frame.prems(2) by (auto simp: check_at res_conv)
    with frame.prems(3) get_u8_feed [OF array, of xs] dec_fed [OF array u(1)] obtain fs where
      "parse_loop E (unat len) [] (feed xs u) = Ok (fs, t)" "f = Array fs"
      by (auto simp: parse_at res_conv)
    moreover have "get_ref u = get_ref src"
      using get_decimal_moves [OF u(1)] array by (simp add: get_u8_Ok)
    ultimately show ?thesis
      using frame.IH [OF array u(1) _ u(2)] frame.prems(1) array u(1) by (simp add: parse_at)
  qed (use frame.prems get_u8_feed get_line_feed dec_fed in \<open>fastforce simp: parse_at check_at res_conv\<close>)+
next
  case (nil E out src)
  then show ?case by simp
next
  case (cons E n out src)
  from cons.prems(2,3) obtain u f v where "check E src = Ok u" "check_loop E n u = Ok s"
    "parse E (feed xs src) = Ok (f, v)" "parse_loop E n (out @ [f]) v = Ok (fs, t)"
    by (auto simp: res_conv)
  moreover from this have "parse E src = Ok (f, u)" by (blast intro: cons.IH(1) cons.prems(1))
  moreover from this parse_feed(1) [OF this, of xs] calculation have "v = feed xs u" by simp
  moreover have "get_ref u = get_ref src" using check_bounds(1) calculation(1) by blast
  ultimately show ?case using cons.IH(2) [of f u s fs t] cons.prems(1) by simp
qed


section \<open>A frame is found as soon as its last byte is there\<close>

lemma get_u8_unfeed:
  "get_u8 (feed xs src) = Ok (b, t) \<Longrightarrow> position t \<le> length (get_ref src) \<Longrightarrow>
     get_u8 src = Ok (b, advance src 1) \<and> t = feed xs (advance src 1)"
  by (auto simp: get_u8_Ok nth_append)

lemma get_line_unfeed:
  assumes "get_line E (feed xs src) = Ok (line, t)" "position t \<le> length (get_ref src)"
  shows "\<exists>s. get_line E src = Ok (line, s) \<and> t = feed xs s"
proof -
  let ?b = "get_ref src"
  obtain i where i: "scan_line (?b @ xs) (position src) (length (?b @ xs) - 1) = Some i"
    and line: "line = subslice (position src) i (?b @ xs)" and t: "t = (feed xs src)\<lparr>position := i + 2\<rparr>"
    using assms(1) by (auto simp: get_line_Ok)
  have len: "i + 2 \<le> length ?b" using assms(2) t by simp
  have same: "crlf_at (?b @ xs) j = crlf_at ?b j" if "j \<le> i" for j
    using that len by (simp add: crlf_at_def nth_append)
  have "scan_line ?b (position src) (length ?b - 1) = Some i"
    using scan_line_SomeD [OF i] len same by (intro scan_line_SomeI) auto
  moreover have "line = subslice (position src) i ?b" "?b \<noteq> []"
    using line len subslice_append1 [of i ?b] by auto
  ultimately show ?thesis using t by (simp add: get_line_Ok feed_def)
qed

lemma get_decimal_unfeed:
  "get_decimal E (feed xs src) = Ok (v, t) \<Longrightarrow> position t \<le> length (get_ref src) \<Longrightarrow>
     \<exists>s. get_decimal E src = Ok (v, s) \<and> t = feed xs s"
  using get_line_unfeed by (fastforce simp: get_decimal_Ok)

lemma skip_unfeed:
  "skip (feed xs src) n = Ok t \<Longrightarrow> position t \<le> length (get_ref src) \<Longrightarrow>
     \<exists>s. skip src n = Ok s \<and> t = feed xs s"
  by (auto simp: skip_Ok remaining_def)

lemma check_unfeed:
  "check E (feed xs src) = Ok t \<Longrightarrow> position t \<le> length (get_ref src) \<Longrightarrow>
     \<exists>s. check E src = Ok s \<and> t = feed xs s"
  "check_loop E n (feed xs src) = Ok t \<Longrightarrow> position src \<le> length (get_ref src) \<Longrightarrow>
     position t \<le> length (get_ref src) \<Longrightarrow> \<exists>s. check_loop E n src = Ok s \<and> t = feed xs s"
proof (induction E src and E n src arbitrary: t and t rule: check_induct)
  case (frame E src)
  have "position src < position t" using check_bounds(1) [OF frame.prems(1)] by simp
  then have lt: "position src < length (get_ref src)" using frame.prems(2) by simp
  have ref: "get_ref u = get_ref src" if "get_u8 src = Ok (b, u)" for b u
    using that by (simp add: get_u8_Ok)
  show ?case
  proof (cases src rule: type_byte_cases)
    case eof
    with lt show ?thesis by (simp add: get_u8_def remaining_def)
  next
    case (simple u)
    with frame.prems(1) obtain line where "get_line E (feed xs u) = Ok (line, t)"
      by (auto simp: check_at(2) [OF get_u8_feed [OF simple]] res_conv)
    with get_line_unfeed [of E xs u line t] frame.prems(2) ref [OF simple] show ?thesis
      by (auto simp: check_at(2) [OF simple])
  next
    case (error u)
    with frame.prems(1) obtain line where "get_line E (feed xs u) = Ok (line, t)"
      by (auto simp: check_at(3) [OF get_u8_feed [OF error]] res_conv)
    with get_line_unfeed [of E xs u line t] frame.prems(2) ref [OF error] show ?thesis
      by (auto simp: check_at(3) [OF error])
  next
    case (integer u)
    with frame.prems(1) obtain v where "get_decimal E (feed xs u) = Ok (v, t)"
      by (auto simp: check_at(4) [OF get_u8_feed [OF integer]] res_conv)
    with get_decimal_unfeed [of E xs u v t] frame.prems(2) ref [OF integer] show ?thesis
      by (auto simp: check_at(4) [OF integer])
  next
    case (bulk u)
    from frame.prems(1) obtain p where p: "peek_u8 (feed xs u) = Ok p"
      and rest: "(if p = CHR ''-'' then skip (feed xs u) 4 else
        and_then (get_decimal E (feed xs u)) (\<lambda>(len, s). and_then (add_usize E len 2) (skip s))) = Ok t"
      by (auto simp: check_at(5) [OF get_u8_feed [OF bulk]] res_conv)
    have "position u < position t"
      using rest by (auto simp: skip_Ok res_conv split: if_splits dest!: get_decimal_moves)
    then have peek: "peek_u8 u = Ok p"
      using p frame.prems(2) ref [OF bulk] by (auto simp: peek_u8_Ok nth_append)
    show ?thesis
    proof (cases "p = CHR ''-''")
      case True
      with rest frame.prems(2) skip_unfeed [of xs u 4 t] ref [OF bulk] peek show ?thesis
        by (simp add: check_at(5) [OF bulk])
    next
      case False
      with rest obtain len w n where w: "get_decimal E (feed xs u) = Ok (len, w)"
        "(add_usize E len 2 :: (usize, frame_error) res) = Ok n" "skip w n = Ok t"
        by (auto simp: res_conv)
      then have "position w \<le> position t" by (auto simp: skip_Ok)
      with w(1) frame.prems(2) ref [OF bulk] obtain v where v: "get_decimal E u = Ok (len, v)" "w = feed xs v"
        using get_decimal_unfeed [of E xs u len w] by auto
      with w(3) frame.prems(2) ref [OF bulk] get_decimal_moves [OF v(1)]
      obtain s where "skip v n = Ok s" "t = feed xs s"
        using skip_unfeed [of xs v n t] by auto
      with False v w peek show ?thesis by (simp add: check_at(5) [OF bulk])
    qed
  next
    case (array u)
    from frame.prems(1) obtain len w where w: "get_decimal E (feed xs u) = Ok (len, w)"
      "check_loop E (unat len) w = Ok t"
      by (auto simp: check_at(6) [OF get_u8_feed [OF array]] res_conv)
    have "position w \<le> length (get_ref w)" using get_decimal_moves [OF w(1)] by simp
    from check_bounds(2) [OF this w(2)] have "position w \<le> position t" by simp
    with w(1) frame.prems(2) ref [OF array] obtain v where v: "get_decimal E u = Ok (len, v)" "w = feed xs v"
      using get_decimal_unfeed [of E xs u len w] by auto
    from frame.IH [OF array v(1)] w(2) v frame.prems(2) ref [OF array] get_decimal_moves [OF v(1)]
    show ?thesis by (simp add: check_at(6) [OF array])
  next
    case (other b u)
    with frame.prems(1) show ?thesis by (simp add: check_at(7) [OF get_u8_feed [OF other(1)]])
  qed
next
  case (nil E src)
  then show ?case by simp
next
  case (cons E n src)
  from cons.prems(1) obtain u where u: "check E (feed xs src) = Ok u" "check_loop E n u = Ok t"
    by (auto simp: res_conv)
  from check_bounds(1) [OF u(1)] have "position u \<le> length (get_ref u)" by simp
  from check_bounds(2) [OF this u(2)] cons.prems(3) have pu: "position u \<le> length (get_ref src)" by simp
  from cons.IH(1) [OF u(1) pu] obtain v where v: "check E src = Ok v" "u = feed xs v" by blast
  from check_bounds(1) [OF v(1)] cons.prems(3) u(2) v cons.IH(2) [OF v(1), of t] show ?case by simp
qed


section \<open>Properties\<close>

lemma get_line_value:
  "get_line E \<lparr>get_ref = CHR ''+'' # s @ [CHR 0x0D, CHR 0x0A], position = 1\<rparr> =
     Ok (s, \<lparr>get_ref = CHR ''+'' # s @ [CHR 0x0D, CHR 0x0A], position = length s + 3\<rparr>)"
  if "CHR 0x0D \<notin> set s" for s
proof -
  let ?b = "CHR ''+'' # s @ [CHR 0x0D, CHR 0x0A]"
  have "\<not> crlf_at ?b j" if "1 \<le> j" "j < length s + 1" for j
  proof -
    have "?b ! j = s ! (j - 1)" "j - 1 < length s" using that by (auto simp: nth_Cons' nth_append)
    with \<open>CHR 0x0D \<notin> set s\<close> show ?thesis by (auto simp: crlf_at_def dest: nth_mem)
  qed
  moreover have "crlf_at ?b (length s + 1)" by (simp add: crlf_at_def nth_append)
  ultimately have "scan_line ?b 1 (length ?b - 1) = Some (length s + 1)"
    by (intro scan_line_SomeI) auto
  then show ?thesis by (simp add: get_line_Ok subslice_def)
qed

text \<open>
  C36: the two passes agree: whenever \<open>parse\<close> builds a frame, \<open>check\<close> on the same buffer succeeds and
  stops at the same byte, beyond the start and inside the buffer. So \<open>parse_frame\<close> advances the
  buffer by exactly the bytes of the frame it returns.
\<close>

theorem passes_agree:
  assumes "parse E src = Ok (f, src')"
  shows "check E src = Ok src' \<and> get_ref src' = get_ref src \<and> position src < position src' \<and>
    position src' \<le> length (get_ref src)"
  using parse_check(1) [OF assms] check_bounds(1) [OF parse_check(1) [OF assms]] by simp

theorem passes_agree_witness:
  "check (ref_env True) \<lparr>get_ref = ''+OK'' @ [CHR 0x0D, CHR 0x0A], position = 0\<rparr> =
     Ok \<lparr>get_ref = ''+OK'' @ [CHR 0x0D, CHR 0x0A], position = 5\<rparr>"
proof -
  let ?b = "''+OK'' @ [CHR 0x0D, CHR 0x0A]"
  have "get_u8 \<lparr>get_ref = ?b, position = 0\<rparr> = Ok (CHR ''+'', \<lparr>get_ref = ?b, position = 1\<rparr>)"
    by (simp add: get_u8_Ok advance_def)
  moreover have "get_line (ref_env True) \<lparr>get_ref = ?b, position = 1\<rparr> =
      Ok (''OK'', \<lparr>get_ref = ?b, position = 5\<rparr>)"
    using get_line_value [of "''OK''" "ref_env True"] by simp
  ultimately have "parse (ref_env True) \<lparr>get_ref = ?b, position = 0\<rparr> =
      Ok (Simple ''OK'', \<lparr>get_ref = ?b, position = 5\<rparr>)"
    by (simp add: parse_at(2) from_utf8_def utf8_def)
  from passes_agree [OF this] show ?thesis by simp
qed

text \<open>
  More bytes behind the cursor never change a decided answer: unless the check is incomplete, it
  gives the same result (success at the same position, the same error, the same panic) on the
  longer buffer.
\<close>

theorem check_decided:
  assumes "check E src \<noteq> Err Incomplete"
  shows "check E (feed xs src) = map_res (feed xs) id (check E src)"
  using assms by (rule check_feed(1))

theorem check_decided_witness:
  "check (ref_env True) (feed ''more'' \<lparr>get_ref = ''?'', position = 0\<rparr>) = Err (Other (invalid_type_byte (CHR ''?'')))"
proof -
  have "get_u8 \<lparr>get_ref = ''?'', position = 0\<rparr> = Ok (CHR ''?'', \<lparr>get_ref = ''?'', position = 1\<rparr>)"
    by (simp add: get_u8_Ok advance_def)
  then have "check (ref_env True) \<lparr>get_ref = ''?'', position = 0\<rparr> = Err (Other (invalid_type_byte (CHR ''?'')))"
    by (rule check_at(7)) simp
  with check_decided [of "ref_env True" "\<lparr>get_ref = ''?'', position = 0\<rparr>" "''more''"] show ?thesis by simp
qed

text \<open>
  A frame is recognised as soon as its last byte is there, never earlier: a check that succeeds
  on the longer buffer within the bytes already received succeeds without the rest.
\<close>

theorem check_prompt:
  assumes "check E (feed xs src) = Ok t" "position t \<le> length (get_ref src)"
  shows "\<exists>s. check E src = Ok s \<and> t = feed xs s"
  using assms by (rule check_unfeed(1))

theorem check_prompt_witness:
  "\<exists>s. check (ref_env True) \<lparr>get_ref = ''$-1'' @ [CHR 0x0D, CHR 0x0A], position = 0\<rparr> = Ok s"
proof -
  let ?b = "''$-1'' @ [CHR 0x0D, CHR 0x0A]"
  let ?c = "feed ''+'' \<lparr>get_ref = ?b, position = 0\<rparr>"
  have "get_u8 ?c = Ok (CHR ''$'', advance ?c 1)" by (simp add: get_u8_Ok feed_def)
  then have "check (ref_env True) ?c = Ok (advance ?c 5)"
    by (simp add: check_at(5) peek_u8_def skip_def remaining_def chunk_def feed_def advance_def)
  from check_prompt [OF this] show ?thesis by auto
qed

text \<open>
  With overflow checks on, a buffer that passed \<open>check\<close> never makes \<open>parse\<close> panic: its slices
  are in range and its \<open>unimplemented!\<close> arm is unreachable.
\<close>

theorem checked_parse_safe:
  assumes "overflow_checks E" "check E src = Ok src'"
  shows "parse E src \<noteq> Panic p"
  using parse_after_check(1) [OF assms(2)] assms(1) by blast

theorem checked_parse_safe_witness:
  "parse (ref_env True) \<lparr>get_ref = ''$-1'' @ [CHR 0x0D, CHR 0x0A], position = 0\<rparr> \<noteq> Panic Unimplemented"
proof -
  let ?c = "\<lparr>get_ref = ''$-1'' @ [CHR 0x0D, CHR 0x0A], position = 0\<rparr>"
  have "get_u8 ?c = Ok (CHR ''$'', advance ?c 1)" by (simp add: get_u8_Ok)
  then have "check (ref_env True) ?c = Ok (advance ?c 5)"
    by (simp add: check_at(5) peek_u8_def skip_def remaining_def chunk_def advance_def)
  with checked_parse_safe [of "ref_env True" ?c] show ?thesis by (simp add: ref_env_def)
qed

end
