(* ===== verification/Connection.thy ===== *)
theory Connection
  imports Frame
begin

text \<open>
  \<open>src/mini-redis/src/connection.rs\<close>: a connection is a read buffer in front of the bytes that
  arrive from the peer and a write buffer in front of the bytes that leave. What the operating
  system does is part of the state: \<open>inbound\<close> lists the completions of the coming reads and
  \<open>write_fault\<close> says that the socket refuses writes. The lemmas relate the writer to a plain
  encoder, show that reading inverts it, and that the frames read do not depend on how the byte
  stream was cut into packets.
\<close>

section \<open>State\<close>

text \<open>
  One completion of \<open>stream.read_buf\<close>: the bytes appended to the buffer (none at the end of the
  stream), or an error.
\<close>

datatype read_event = Recv bytes | RecvErr

record connection =
  buffer :: bytes
  inbound :: "read_event list"
  pending_out :: bytes
  sent :: bytes
  write_fault :: bool

definition new_connection :: "read_event list \<Rightarrow> connection" where
  "new_connection evs = \<lparr>buffer = [], inbound = evs, pending_out = [], sent = [], write_fault = False\<rparr>"

section \<open>Reading\<close>

text \<open>The boxed form of a frame error.\<close>

definition box_frame_error :: "frame_error \<Rightarrow> crate_error" where
  "box_frame_error e = Text (display_frame_error e)"

definition parse_frame :: "env \<Rightarrow> connection \<Rightarrow> (frame option \<times> connection, crate_error) res" where
  "parse_frame E self =
     (let buf = \<lparr>get_ref = buffer self, position = 0\<rparr> in
      case check E buf of
        Ok buf \<Rightarrow>
          (let len = position buf; buf = buf\<lparr>position := 0\<rparr> in
           and_then (map_err box_frame_error (parse E buf)) (\<lambda>(frame, _).
             Ok (Some frame, self\<lparr>buffer := drop len (buffer self)\<rparr>)))
      | Err e \<Rightarrow> (case e of Incomplete \<Rightarrow> Ok (None, self) | Other _ \<Rightarrow> Err (box_frame_error e))
      | Panic p \<Rightarrow> Panic p)"

text \<open>
  The future returned by \<open>read_frame\<close>: finished with a result, or still waiting for the peer
  with what it has buffered so far.
\<close>

datatype read_poll = Ready "(frame option \<times> connection, crate_error) res" | Pending connection

lemma parse_frame_None: "parse_frame E c = Ok (None, c') \<Longrightarrow> c' = c"
  by (auto simp: parse_frame_def Let_def res_conv split: res.splits frame_error.splits)

function read_frame :: "env \<Rightarrow> connection \<Rightarrow> read_poll" where
  "read_frame E self =
     (case parse_frame E self of
        Err e \<Rightarrow> Ready (Err e)
      | Panic p \<Rightarrow> Ready (Panic p)
      | Ok (Some frame, self') \<Rightarrow> Ready (Ok (Some frame, self'))
      | Ok (None, self') \<Rightarrow>
          (case inbound self' of
             [] \<Rightarrow> Pending self'
           | RecvErr # evs \<Rightarrow> Ready (Err IoError)
           | Recv bs # evs \<Rightarrow>
               if bs = [] then
                 (if buffer self' = [] then Ready (Ok (None, self'\<lparr>inbound := evs\<rparr>))
                  else Ready (Err (Text ''connection reset by peer'')))
               else read_frame E (self'\<lparr>buffer := buffer self' @ bs, inbound := evs\<rparr>)))"
  by pat_completeness auto
termination
  by (relation "measure (\<lambda>(E, c). length (inbound c))") (auto dest: parse_frame_None)

declare read_frame.simps [simp del]

text \<open>The bytes a connection has still to read, up to the end of the stream.\<close>

fun arriving :: "read_event list \<Rightarrow> bytes" where
  "arriving [] = []"
| "arriving (RecvErr # evs) = []"
| "arriving (Recv bs # evs) = (if bs = [] then [] else bs @ arriving evs)"

definition unread :: "connection \<Rightarrow> bytes" where
  "unread c = buffer c @ arriving (inbound c)"

lemma arriving_append: "\<exists>bs. arriving (evs @ [ev]) = arriving evs @ bs"
  by (induction evs rule: arriving.induct) auto

section \<open>Writing\<close>

text \<open>
  The buffered stream: \<open>write_all\<close> hands bytes to the write buffer, \<open>flush\<close> pushes the write
  buffer to the socket. How long a write waits for the peer to make room does not show in its result;
  where it matters, in the server, the state says which writes are waiting (\<open>stalled\<close> in theory Server).
\<close>

definition write_all :: "connection \<Rightarrow> bytes \<Rightarrow> (connection, crate_error) res" where
  "write_all self bs =
     (if write_fault self then Err IoError
      else Ok (self\<lparr>pending_out := pending_out self @ bs\<rparr>))"

definition flush :: "connection \<Rightarrow> (connection, crate_error) res" where
  "flush self =
     (if write_fault self then Err IoError
      else Ok (self\<lparr>sent := sent self @ pending_out self, pending_out := []\<rparr>))"

definition CRLF :: bytes where
  "CRLF = [CHR 0x0D, CHR 0x0A]"

text \<open>The number is first formatted into an array of twenty bytes; a longer one is an error.\<close>

definition write_decimal :: "connection \<Rightarrow> u64 \<Rightarrow> (connection, crate_error) res" where
  "write_decimal self val =
     (let buf = dec (unat val) in
      if 20 < length buf then Err IoError
      else and_then (write_all self buf) (\<lambda>self. write_all self CRLF))"

fun write_value :: "connection \<Rightarrow> frame \<Rightarrow> (connection, crate_error) res" where
  "write_value self (Simple val) =
     and_then (write_all self ''+'') (\<lambda>self.
     and_then (write_all self val) (\<lambda>self. write_all self CRLF))"
| "write_value self (Error val) =
     and_then (write_all self ''-'') (\<lambda>self.
     and_then (write_all self val) (\<lambda>self. write_all self CRLF))"
| "write_value self (Integer val) =
     and_then (write_all self '':'') (\<lambda>self. write_decimal self val)"
| "write_value self Null = write_all self (''$-1'' @ CRLF)"
| "write_value self (Bulk val) =
     and_then (write_all self ''$'') (\<lambda>self.
     and_then (write_decimal self (of_nat (length val))) (\<lambda>self.
     and_then (write_all self val) (\<lambda>self. write_all self CRLF)))"
| "write_value self (Array val) = Panic Unreachable"

text \<open>The loop \<open>for entry in val\<close>.\<close>

fun write_entries :: "connection \<Rightarrow> frame list \<Rightarrow> (connection, crate_error) res" where
  "write_entries self [] = Ok self"
| "write_entries self (entry # rest) =
     and_then (write_value self entry) (\<lambda>self. write_entries self rest)"

fun write_frame :: "connection \<Rightarrow> frame \<Rightarrow> (connection, crate_error) res" where
  "write_frame self (Array val) =
     and_then (and_then (write_all self ''*'') (\<lambda>self.
       and_then (write_decimal self (of_nat (length val))) (\<lambda>self.
         write_entries self val))) flush"
| "write_frame self frame = and_then (write_value self frame) flush"

section \<open>The encoder\<close>

text \<open>The wire form of a frame, as a function.\<close>

fun encode_value :: "frame \<Rightarrow> bytes" where
  "encode_value (Simple val) = ''+'' @ val @ CRLF"
| "encode_value (Error val) = ''-'' @ val @ CRLF"
| "encode_value (Integer val) = '':'' @ dec (unat val) @ CRLF"
| "encode_value Null = ''$-1'' @ CRLF"
| "encode_value (Bulk val) = ''$'' @ dec (length val) @ CRLF @ val @ CRLF"
| "encode_value (Array val) = []"

fun encode :: "frame \<Rightarrow> bytes" where
  "encode (Array val) = ''*'' @ dec (length val) @ CRLF @ concat (map encode_value val)"
| "encode f = encode_value f"

fun is_array :: "frame \<Rightarrow> bool" where
  "is_array (Array _) = True"
| "is_array _ = False"

text \<open>
  The frames the writer can write: no array inside an array, and nothing longer than a Rust
  allocation.
\<close>

fun value_fits :: "frame \<Rightarrow> bool" where
  "value_fits (Bulk val) = (length val \<le> isize_max)"
| "value_fits (Array _) = False"
| "value_fits _ = True"

fun flat :: "frame \<Rightarrow> bool" where
  "flat (Array val) = (length val \<le> isize_max \<and> list_all value_fits val)"
| "flat f = value_fits f"

definition put :: "bytes \<Rightarrow> connection \<Rightarrow> connection" where
  "put bs c = c\<lparr>pending_out := pending_out c @ bs\<rparr>"

lemma put_simps [simp]:
  "put [] c = c" "put bs (put as c) = put (as @ bs) c" "write_fault (put bs c) = write_fault c"
  "buffer (put bs c) = buffer c" "inbound (put bs c) = inbound c"
  by (simp_all add: put_def)

lemma write_all_put: "\<not> write_fault c \<Longrightarrow> write_all c bs = Ok (put bs c)"
  by (simp add: write_all_def put_def)

lemma write_decimal_put:
  "\<not> write_fault c \<Longrightarrow> write_decimal c v = Ok (put (dec (unat v) @ CRLF) c)"
  using dec_u64_length [of v] by (simp add: write_decimal_def write_all_put Let_def not_less)

lemma unat_length_fits: "n \<le> isize_max \<Longrightarrow> unat (of_nat n :: u64) = n"
  by (simp add: unat_of_nat_u64 isize_max_def)

lemma write_value_put:
  "\<not> write_fault c \<Longrightarrow> value_fits f \<Longrightarrow> write_value c f = Ok (put (encode_value f) c)"
  by (cases f) (simp_all add: write_all_put write_decimal_put unat_length_fits)

lemma write_entries_put:
  "\<not> write_fault c \<Longrightarrow> list_all value_fits fs \<Longrightarrow>
     write_entries c fs = Ok (put (concat (map encode_value fs)) c)"
  by (induction fs arbitrary: c) (simp_all add: write_value_put)

lemma write_frame_encode:
  assumes "\<not> write_fault c" "flat f"
  shows "write_frame c f = Ok (c\<lparr>sent := sent c @ pending_out c @ encode f, pending_out := []\<rparr>)"
proof -
  have "write_frame c f = flush (put (encode f) c)"
    using assms
    by (cases f) (simp_all add: write_all_put write_decimal_put write_entries_put
        write_value_put unat_length_fits)
  with assms(1) show ?thesis by (simp add: flush_def put_def)
qed

section \<open>Reading inverts writing\<close>

fun has_crlf :: "bytes \<Rightarrow> bool" where
  "has_crlf (a # b # r) = (a = CHR 0x0D \<and> b = CHR 0x0A \<or> has_crlf (b # r))"
| "has_crlf _ = False"

lemma crlf_at_Suc: "crlf_at (a # s) (Suc i) = crlf_at s i"
  by (simp add: crlf_at_def)

lemma has_crlf_nth: "\<not> has_crlf s \<Longrightarrow> i + 1 < length s \<Longrightarrow> \<not> crlf_at s i"
proof (induction s arbitrary: i rule: has_crlf.induct)
  case (1 a b r)
  show ?case
  proof (cases i)
    case 0
    with "1.prems" show ?thesis by (simp add: crlf_at_def)
  next
    case (Suc j)
    with 1 show ?thesis by (simp add: crlf_at_Suc)
  qed
qed simp_all

lemma has_crlf_no_CR: "CHR 0x0D \<notin> set s \<Longrightarrow> \<not> has_crlf s"
  by (induction s rule: has_crlf.induct) auto

text \<open>The frames a reader gets back: text lines hold no line break and are valid UTF-8.\<close>

fun line_safe :: "frame \<Rightarrow> bool" where
  "line_safe (Simple s) = (utf8 s \<and> \<not> has_crlf s)"
| "line_safe (Error s) = (utf8 s \<and> \<not> has_crlf s)"
| "line_safe (Array fs) = list_all line_safe fs"
| "line_safe _ = True"

abbreviation cur :: "bytes \<Rightarrow> nat \<Rightarrow> cursor" where
  "cur bs n \<equiv> \<lparr>get_ref = bs, position = n\<rparr>"

lemma drop_length_append: "drop (length xs) (xs @ ys) = ys"
  by simp

lemma get_u8_cur: "get_u8 (cur (pre @ b # post) (length pre)) = Ok (b, cur (pre @ b # post) (length pre + 1))"
  by (simp add: get_u8_Ok advance_def)

lemma peek_u8_cur: "peek_u8 (cur (pre @ b # post) (length pre)) = Ok b"
  by (simp add: peek_u8_Ok)

lemma get_line_cur:
  assumes "\<not> has_crlf line"
  shows "get_line E (cur (pre @ line @ CRLF @ post) (length pre)) =
    Ok (line, cur (pre @ line @ CRLF @ post) (length pre + length line + 2))"
proof -
  let ?buf = "pre @ line @ CRLF @ post" and ?k = "length pre + length line"
  have "\<not> crlf_at ?buf j" if "length pre \<le> j" "j < ?k" for j
  proof -
    define i where "i = j - length pre"
    with that have j: "j = length pre + i" "i < length line" by simp_all
    show ?thesis
    proof (cases "i + 1 < length line")
      case True
      with j has_crlf_nth [OF assms True] show ?thesis by (simp add: crlf_at_def nth_append)
    next
      case False
      with j have "?buf ! (j + 1) = CHR 0x0D" by (simp add: nth_append CRLF_def)
      then show ?thesis by (simp add: crlf_at_def)
    qed
  qed
  moreover have "crlf_at ?buf ?k" by (simp add: crlf_at_def CRLF_def nth_append)
  ultimately have "scan_line ?buf (length pre) (length ?buf - 1) = Some ?k"
    by (intro scan_line_SomeI) (auto simp: CRLF_def)
  then show ?thesis
    by (simp add: get_line_Ok subslice_middle CRLF_def)
qed

lemma get_decimal_cur:
  assumes "atoi_reads_decimal E" "n < 2 ^ 64"
  shows "get_decimal E (cur (pre @ dec n @ CRLF @ post) (length pre)) =
    Ok (of_nat n, cur (pre @ dec n @ CRLF @ post) (length pre + length (dec n) + 2))"
proof -
  have "\<not> has_crlf (dec n)" by (rule has_crlf_no_CR) (rule dec_no_control)
  with assms show ?thesis
    by (simp add: get_decimal_Ok get_line_cur atoi_reads_decimal_def)
qed


text \<open>One value of the wire format, anywhere in a buffer.\<close>

lemma parse_value_cur:
  assumes "atoi_reads_decimal E" "value_fits f" "line_safe f"
  shows "parse E (cur (pre @ encode_value f @ post) (length pre)) =
    Ok (f, cur (pre @ encode_value f @ post) (length pre + length (encode_value f)))"
proof (cases f)
  case (Simple s)
  let ?b = "pre @ CHR ''+'' # s @ CRLF @ post"
  have "get_u8 (cur ?b (length pre)) = Ok (CHR ''+'', cur ?b (length pre + 1))"
    by (rule get_u8_cur)
  moreover have "get_line E (cur ?b (length pre + 1)) = Ok (s, cur ?b (length pre + length s + 3))"
    using get_line_cur [of s E "pre @ ''+''" post] assms Simple by simp
  ultimately show ?thesis
    using assms Simple by (simp add: parse_at(2) from_utf8_def CRLF_def)
next
  case (Error s)
  let ?b = "pre @ CHR ''-'' # s @ CRLF @ post"
  have "get_u8 (cur ?b (length pre)) = Ok (CHR ''-'', cur ?b (length pre + 1))"
    by (rule get_u8_cur)
  moreover have "get_line E (cur ?b (length pre + 1)) = Ok (s, cur ?b (length pre + length s + 3))"
    using get_line_cur [of s E "pre @ ''-''" post] assms Error by simp
  ultimately show ?thesis
    using assms Error by (simp add: parse_at(3) from_utf8_def CRLF_def)
next
  case (Integer v)
  let ?b = "pre @ CHR '':'' # dec (unat v) @ CRLF @ post"
  have "get_u8 (cur ?b (length pre)) = Ok (CHR '':'', cur ?b (length pre + 1))"
    by (rule get_u8_cur)
  moreover have "get_decimal E (cur ?b (length pre + 1)) =
      Ok (v, cur ?b (length pre + length (dec (unat v)) + 3))"
    using get_decimal_cur [of E "unat v" "pre @ '':''" post] assms unsigned_less [of v, where 'a=nat]
    by simp
  ultimately show ?thesis
    using Integer by (simp add: parse_at(4) CRLF_def)
next
  case Null
  let ?b = "pre @ CHR ''$'' # ''-1'' @ CRLF @ post"
  have "get_u8 (cur ?b (length pre)) = Ok (CHR ''$'', cur ?b (length pre + 1))"
    by (rule get_u8_cur)
  moreover have "get_line E (cur ?b (length pre + 1)) = Ok (''-1'', cur ?b (length pre + 5))"
    using get_line_cur [of "''-1''" E "pre @ ''$''" post] by simp
  moreover have "peek_u8 (cur ?b (length pre + 1)) = Ok (CHR ''-'')"
    using peek_u8_cur [of "pre @ ''$''" "CHR ''-''" "''1'' @ CRLF @ post"] by simp
  ultimately show ?thesis
    using Null by (simp add: parse_at(5) CRLF_def)
next
  case (Bulk v)
  let ?d = "dec (length v)"
  let ?b = "pre @ CHR ''$'' # ?d @ CRLF @ v @ CRLF @ post"
  let ?k = "length pre + length ?d + 3"
  have v: "length v + 2 < 2 ^ 64" using assms Bulk by (simp add: isize_max_def)
  then have u: "unat (of_nat (length v) :: usize) = length v" by (simp add: unat_of_nat_u64)
  have "get_u8 (cur ?b (length pre)) = Ok (CHR ''$'', cur ?b (length pre + 1))"
    by (rule get_u8_cur)
  moreover obtain d0 ds where d: "?d = d0 # ds" "d0 \<noteq> CHR ''-''"
    using dec_hd_not_minus [of "length v"] by (cases ?d) auto
  then have "peek_u8 (cur ?b (length pre + 1)) = Ok d0"
    using peek_u8_cur [of "pre @ ''$''" d0 "ds @ CRLF @ v @ CRLF @ post"] by simp
  moreover have "get_decimal E (cur ?b (length pre + 1)) = Ok (of_nat (length v), cur ?b ?k)"
    using get_decimal_cur [of E "length v" "pre @ ''$''" "v @ CRLF @ post"] assms v by simp
  moreover have "add_usize E (of_nat (length v)) 2 = (Ok (of_nat (length v) + 2) :: (usize, frame_error) res)"
    using v u by (intro add_usize_fits) simp
  moreover have n: "unat (of_nat (length v) + 2 :: usize) = length v + 2"
    using v u by (subst unat_add_usize_fits) simp_all
  moreover have "chunk (cur ?b ?k) = v @ CRLF @ post"
    using drop_length_append [of "pre @ ''$'' @ ?d @ CRLF" "v @ CRLF @ post"]
    by (simp add: chunk_def CRLF_def eval_nat_numeral del: drop_append)
  moreover have "remaining (cur ?b ?k) = length v + 2 + length post"
    by (simp add: remaining_def CRLF_def)
  ultimately show ?thesis
    using Bulk d u by (simp add: parse_at(5) skip_def advance_def CRLF_def)
qed (use assms in simp)


lemma parse_loop_cur:
  assumes "atoi_reads_decimal E"
  shows "list_all value_fits fs \<Longrightarrow> list_all line_safe fs \<Longrightarrow>
    parse_loop E (length fs) out (cur (pre @ concat (map encode_value fs) @ post) (length pre)) =
    Ok (out @ fs, cur (pre @ concat (map encode_value fs) @ post)
      (length pre + length (concat (map encode_value fs))))"
proof (induction fs arbitrary: out pre)
  case (Cons f fs)
  let ?rest = "concat (map encode_value fs) @ post"
  let ?b = "pre @ encode_value f @ ?rest"
  have "parse E (cur ?b (length pre)) = Ok (f, cur ?b (length pre + length (encode_value f)))"
    using Cons.prems assms by (intro parse_value_cur) simp_all
  with Cons.IH [of "out @ [f]" "pre @ encode_value f"] Cons.prems show ?case
    by (simp add: add.assoc)
qed simp

text \<open>Parsing inverts encoding, whatever follows in the buffer.\<close>

lemma parse_encode:
  assumes "atoi_reads_decimal E" "flat f" "line_safe f"
  shows "parse E (cur (encode f @ post) 0) = Ok (f, cur (encode f @ post) (length (encode f)))"
proof (cases "is_array f")
  case False
  then have "encode f = encode_value f" "value_fits f" using assms(2) by (cases f; simp)+
  with parse_value_cur [of E f "[]" post] assms show ?thesis by simp
next
  case True
  then obtain fs where f: "f = Array fs" by (cases f) simp_all
  let ?d = "dec (length fs)" and ?body = "concat (map encode_value fs)"
  let ?b = "CHR ''*'' # ?d @ CRLF @ ?body @ post"
  have n: "length fs < 2 ^ 64" using assms f by (simp add: isize_max_def)
  have "get_u8 (cur ?b 0) = Ok (CHR ''*'', cur ?b 1)"
    using get_u8_cur [of "[]"] by simp
  moreover have "get_decimal E (cur ?b 1) = Ok (of_nat (length fs), cur ?b (length ?d + 3))"
    using get_decimal_cur [of E "length fs" "''*''" "?body @ post"] assms n by simp
  moreover have "parse_loop E (length fs) [] (cur ?b (length ?d + 3)) =
      Ok (fs, cur ?b (length ?d + 3 + length ?body))"
    using parse_loop_cur [of E fs "[]" "''*'' @ ?d @ CRLF" post] assms f
    by (simp add: CRLF_def eval_nat_numeral)
  ultimately show ?thesis
    using f n by (simp add: parse_at(6) unat_of_nat_u64 CRLF_def)
qed

section \<open>Frames do not depend on how the stream is cut\<close>

lemma parse_frame_parse:
  "parse E (cur (buffer c) 0) = Ok (f, t) \<Longrightarrow>
     parse_frame E c = Ok (Some f, c\<lparr>buffer := drop (position t) (buffer c)\<rparr>)"
proof -
  assume p: "parse E (cur (buffer c) 0) = Ok (f, t)"
  note k = parse_check(1) [OF p]
  with check_bounds(1) [OF k] have "t\<lparr>position := 0\<rparr> = cur (buffer c) 0" by (cases t) simp
  with p k show ?thesis by (simp add: parse_frame_def Let_def)
qed

lemma feed_cur [simp]: "feed xs (cur bs n) = cur (bs @ xs) n"
  by (simp add: feed_def)

text \<open>
  A prefix of a buffer that starts with a frame either holds that whole frame or is incomplete.
\<close>

lemma parse_frame_prefix:
  assumes whole: "parse E (cur (buffer c @ xs) 0) = Ok (f, t)"
    and small: "length (buffer c @ xs) \<le> isize_max"
  shows "if position t \<le> length (buffer c)
    then parse_frame E c = Ok (Some f, c\<lparr>buffer := drop (position t) (buffer c)\<rparr>)
    else parse_frame E c = Ok (None, c)"
proof (cases "check E (cur (buffer c) 0) = Err Incomplete")
  case True
  have "\<not> position t \<le> length (buffer c)"
  proof
    assume "position t \<le> length (buffer c)"
    then show False
      using check_unfeed(1) [of E xs "cur (buffer c) 0" t] parse_check(1) [OF whole] True by simp
  qed
  with True show ?thesis by (simp add: parse_frame_def)
next
  case False
  from check_feed(1) [OF this, of xs] parse_check(1) [OF whole]
  obtain s where s: "check E (cur (buffer c) 0) = Ok s" "t = feed xs s"
    by (cases "check E (cur (buffer c) 0)") (auto simp: id_def)
  with parse_unfeed(1) [of "cur (buffer c) 0" xs E s f t] whole small
  have "parse E (cur (buffer c) 0) = Ok (f, s)" by simp
  with parse_frame_parse [of E c f s] s check_bounds(1) [OF s(1)] show ?thesis by simp
qed


lemma read_frame_found:
  "parse_frame E c = Ok (Some f, c') \<Longrightarrow> read_frame E c = Ready (Ok (Some f, c'))"
  by (simp add: read_frame.simps)

lemma read_frame_recv:
  "parse_frame E c = Ok (None, c) \<Longrightarrow> inbound c = Recv bs # evs \<Longrightarrow> bs \<noteq> [] \<Longrightarrow>
     read_frame E c = read_frame E (c\<lparr>buffer := buffer c @ bs, inbound := evs\<rparr>)"
  by (subst read_frame.simps) simp

lemma read_frame_eof:
  "parse_frame E c = Ok (None, c) \<Longrightarrow> inbound c = Recv [] # evs \<Longrightarrow>
     read_frame E c = Ready (if buffer c = [] then Ok (None, c\<lparr>inbound := evs\<rparr>)
       else Err (Text ''connection reset by peer''))"
  by (subst read_frame.simps) simp

text \<open>
  Some packets bring the rest of a frame: they are consumed up to the one that completes it, and
  what came behind the frame stays in the buffer.
\<close>

lemma read_frame_chunks:
  assumes "parse E (cur (buffer c @ concat chunks @ zs) 0) = Ok (f, t)"
    and "length (buffer c @ concat chunks @ zs) \<le> isize_max"
    and "inbound c = map Recv chunks @ evs" "[] \<notin> set chunks"
    and "position t \<le> length (buffer c @ concat chunks)"
  shows "\<exists>used rest. chunks = used @ rest \<and> position t \<le> length (buffer c @ concat used) \<and>
    read_frame E c = Ready (Ok (Some f,
      c\<lparr>buffer := drop (position t) (buffer c @ concat used), inbound := map Recv rest @ evs\<rparr>))"
  using assms
proof (induction chunks arbitrary: c)
  case Nil
  with parse_frame_prefix [of E c zs f t] have "parse_frame E c =
      Ok (Some f, c\<lparr>buffer := drop (position t) (buffer c)\<rparr>)" by simp
  from read_frame_found [OF this] Nil.prems show ?case by simp
next
  case (Cons bs chunks)
  note pre = parse_frame_prefix [of E c "concat (bs # chunks) @ zs" f t]
  show ?case
  proof (cases "position t \<le> length (buffer c)")
    case True
    with pre Cons.prems have "parse_frame E c =
      Ok (Some f, c\<lparr>buffer := drop (position t) (buffer c)\<rparr>)" by simp
    from read_frame_found [OF this] Cons.prems True show ?thesis
      by (intro exI [of _ "[]"] exI [of _ "bs # chunks"]) simp
  next
    case False
    let ?c = "c\<lparr>buffer := buffer c @ bs, inbound := map Recv chunks @ evs\<rparr>"
    from False pre Cons.prems have "parse_frame E c = Ok (None, c)" by simp
    then have step: "read_frame E c = read_frame E ?c"
      using Cons.prems by (intro read_frame_recv) auto
    from Cons.IH [of ?c] Cons.prems obtain used rest where
      "chunks = used @ rest" "position t \<le> length (buffer ?c @ concat used)"
      "read_frame E ?c = Ready (Ok (Some f, ?c\<lparr>buffer := drop (position t) (buffer ?c @ concat used),
         inbound := map Recv rest @ evs\<rparr>))" by auto
    with step show ?thesis
      by (intro exI [of _ "bs # used"] exI [of _ rest]) simp
  qed
qed

text \<open>Packets that bring only a part of a frame are all moved to the buffer.\<close>

lemma read_frame_partial:
  assumes "parse E (cur (buffer c @ concat chunks @ zs) 0) = Ok (f, t)"
    and "length (buffer c @ concat chunks @ zs) \<le> isize_max"
    and "inbound c = map Recv chunks @ evs" "[] \<notin> set chunks"
    and "length (buffer c @ concat chunks) < position t"
  shows "read_frame E c = read_frame E (c\<lparr>buffer := buffer c @ concat chunks, inbound := evs\<rparr>) \<and>
    parse_frame E (c\<lparr>buffer := buffer c @ concat chunks, inbound := evs\<rparr>) =
      Ok (None, c\<lparr>buffer := buffer c @ concat chunks, inbound := evs\<rparr>)"
  using assms
proof (induction chunks arbitrary: c)
  case Nil
  then show ?case
    using parse_frame_prefix [of E "c\<lparr>inbound := evs\<rparr>" zs f t] by (cases c) simp
next
  case (Cons bs chunks)
  let ?c = "c\<lparr>buffer := buffer c @ bs, inbound := map Recv chunks @ evs\<rparr>"
  have "parse_frame E c = Ok (None, c)"
    using parse_frame_prefix [of E c "concat (bs # chunks) @ zs" f t] Cons.prems by simp
  then have "read_frame E c = read_frame E ?c"
    using Cons.prems by (intro read_frame_recv) auto
  with Cons.IH [of ?c] Cons.prems show ?case by simp
qed

section \<open>A stream of frames\<close>

text \<open>The receiving loop of a peer: the next \<open>n\<close> frames.\<close>

fun read_frames :: "env \<Rightarrow> nat \<Rightarrow> connection \<Rightarrow> (frame list \<times> connection) option" where
  "read_frames E 0 c = Some ([], c)"
| "read_frames E (Suc n) c =
     (case read_frame E c of
        Ready (Ok (Some f, c)) \<Rightarrow> map_option (apfst (Cons f)) (read_frames E n c)
      | _ \<Rightarrow> None)"

fun write_frames :: "connection \<Rightarrow> frame list \<Rightarrow> (connection, crate_error) res" where
  "write_frames c [] = Ok c"
| "write_frames c (f # fs) = and_then (write_frame c f) (\<lambda>c. write_frames c fs)"

lemma write_frames_encode:
  "\<not> write_fault c \<Longrightarrow> pending_out c = [] \<Longrightarrow> list_all flat fs \<Longrightarrow>
     write_frames c fs = Ok (c\<lparr>sent := sent c @ concat (map encode fs)\<rparr>)"
  by (induction fs arbitrary: c) (simp_all add: write_frame_encode)

lemma read_frames_encode:
  assumes "atoi_reads_decimal E"
  shows "list_all flat fs \<Longrightarrow> list_all line_safe fs \<Longrightarrow>
    buffer c @ concat chunks = concat (map encode fs) @ zs \<Longrightarrow>
    length (buffer c @ concat chunks) \<le> isize_max \<Longrightarrow>
    inbound c = map Recv chunks @ evs \<Longrightarrow> [] \<notin> set chunks \<Longrightarrow>
    \<exists>used rest left. chunks = used @ rest \<and> left @ concat rest = zs \<and>
      read_frames E (length fs) c = Some (fs, c\<lparr>buffer := left, inbound := map Recv rest @ evs\<rparr>)"
proof (induction fs arbitrary: c chunks)
  case Nil
  then show ?case by (intro exI [of _ "[]"] exI [of _ chunks] exI [of _ "buffer c"]) simp
next
  case (Cons f fs)
  let ?post = "concat (map encode fs) @ zs" and ?t = "cur (encode f @ concat (map encode fs) @ zs) (length (encode f))"
  have data: "buffer c @ concat chunks = encode f @ ?post" using Cons.prems by simp
  then have len: "length (buffer c @ concat chunks) = length (encode f) + length ?post" by simp
  have p: "parse E (cur (buffer c @ concat chunks @ []) 0) = Ok (f, ?t)"
    using parse_encode [of E f ?post] assms Cons.prems data by simp
  obtain used rest where u: "chunks = used @ rest" "length (encode f) \<le> length (buffer c @ concat used)"
    and r: "read_frame E c = Ready (Ok (Some f, c\<lparr>buffer := drop (length (encode f)) (buffer c @ concat used),
         inbound := map Recv rest @ evs\<rparr>))"
    using read_frame_chunks [OF p _ Cons.prems(5,6)] Cons.prems(4) len by auto
  let ?c = "c\<lparr>buffer := drop (length (encode f)) (buffer c @ concat used), inbound := map Recv rest @ evs\<rparr>"
  have left: "buffer ?c @ concat rest = ?post"
  proof -
    have "(buffer c @ concat used) @ concat rest = encode f @ ?post" using data u(1) by simp
    then have "drop (length (encode f)) ((buffer c @ concat used) @ concat rest) = ?post" by simp
    with u(2) show ?thesis by simp
  qed
  moreover have "length (buffer ?c @ concat rest) \<le> isize_max"
    unfolding left using Cons.prems(4) len by simp
  ultimately obtain used' rest' left' where "rest = used' @ rest'" "left' @ concat rest' = zs"
    "read_frames E (length fs) ?c = Some (fs, ?c\<lparr>buffer := left', inbound := map Recv rest' @ evs\<rparr>)"
    using Cons.IH [of ?c rest] Cons.prems u(1) by auto
  with u r show ?case
    by (intro exI [of _ "used @ used'"] exI [of _ rest'] exI [of _ left']) simp
qed


lemma parse_frame_empty: "buffer c = [] \<Longrightarrow> parse_frame E c = Ok (None, c)"
proof -
  assume "buffer c = []"
  moreover have "check E (cur [] 0) = Err Incomplete"
    by (rule check_at(1)) (simp add: get_u8_def remaining_def)
  ultimately show ?thesis by (simp add: parse_frame_def)
qed

section \<open>The contract of a framing\<close>

text \<open>
  What a peer relies on: one step of the decoder takes exactly one encoded value off the front of
  the stream. It follows that the code is prefix-free and that a stream has one reading only.
\<close>

locale framing =
  fixes enc :: "'f \<Rightarrow> bytes"
    and ok :: "'f \<Rightarrow> bool"
    and decode :: "bytes \<Rightarrow> ('f \<times> bytes) option"
  assumes decode_enc: "ok f \<Longrightarrow> decode (enc f @ post) = Some (f, post)"
    and decode_nil: "decode [] = None"
begin

lemma prefix_free:
  assumes "ok f" "ok g" "enc f @ xs = enc g @ ys"
  shows "f = g \<and> xs = ys"
proof -
  have "Some (f, xs) = decode (enc f @ xs)" by (rule decode_enc [OF assms(1), symmetric])
  also have "\<dots> = Some (g, ys)" unfolding assms(3) by (rule decode_enc [OF assms(2)])
  finally show ?thesis by simp
qed

lemma enc_nonempty: "ok f \<Longrightarrow> enc f \<noteq> []"
  using decode_enc [of f "[]"] decode_nil by auto

lemma stream_unique:
  "list_all ok fs \<Longrightarrow> list_all ok gs \<Longrightarrow> concat (map enc fs) = concat (map enc gs) \<Longrightarrow> fs = gs"
proof (induction fs arbitrary: gs)
  case Nil
  then show ?case by (cases gs) (simp_all add: enc_nonempty)
next
  case (Cons f fs)
  from Cons.prems obtain g gs' where gs: "gs = g # gs'" by (cases gs) (simp_all add: enc_nonempty)
  with Cons.prems have "f = g \<and> concat (map enc fs) = concat (map enc gs')"
    by (intro prefix_free) simp_all
  with Cons gs show ?case by simp
qed

end

definition parse_step :: "bytes \<Rightarrow> (frame \<times> bytes) option" where
  "parse_step bs =
     (case parse (ref_env True) (cur bs 0) of
        Ok (f, t) \<Rightarrow> Some (f, drop (position t) bs) | _ \<Rightarrow> None)"

interpretation wire: framing encode "\<lambda>f. flat f \<and> line_safe f" parse_step
proof (unfold_locales, goal_cases)
  case (1 f post)
  then show ?case by (simp add: parse_step_def parse_encode ref_env_atoi)
next
  case 2
  have "parse (ref_env True) (cur [] 0) = Err Incomplete"
    by (rule parse_at(1)) (simp add: get_u8_def remaining_def)
  then show ?case by (simp add: parse_step_def)
qed

section \<open>Properties\<close>

text \<open>
  C1: whatever frames a peer writes, and however the network cuts the bytes into packets, the other
  side reads back exactly those frames, in order, and then a clean end of the stream. The frames
  are the ones the writer accepts, with text that contains no line break.
\<close>

theorem stream_roundtrip:
  assumes "atoi_reads_decimal E" "list_all flat fs" "list_all line_safe fs"
    and "length (concat (map encode fs)) \<le> isize_max"
    and "\<not> write_fault c" "pending_out c = []" "sent c = []"
  shows "\<exists>c'. write_frames c fs = Ok c' \<and>
    (\<forall>chunks. concat chunks = sent c' \<longrightarrow> [] \<notin> set chunks \<longrightarrow>
      (\<exists>d. read_frames E (length fs) (new_connection (map Recv chunks @ [Recv []])) = Some (fs, d) \<and>
           read_frame E d = Ready (Ok (None, d\<lparr>inbound := []\<rparr>))))"
proof -
  let ?c' = "c\<lparr>sent := concat (map encode fs)\<rparr>"
  have w: "write_frames c fs = Ok ?c'" using write_frames_encode [of c fs] assms by simp
  have "\<exists>d. read_frames E (length fs) (new_connection (map Recv chunks @ [Recv []])) = Some (fs, d) \<and>
      read_frame E d = Ready (Ok (None, d\<lparr>inbound := []\<rparr>))"
    if cut: "concat chunks = sent ?c'" and ne: "[] \<notin> set chunks" for chunks
  proof -
    let ?n = "new_connection (map Recv chunks @ [Recv []])"
    obtain used rest left where "chunks = used @ rest" "left @ concat rest = []"
      "read_frames E (length fs) ?n = Some (fs, ?n\<lparr>buffer := left, inbound := map Recv rest @ [Recv []]\<rparr>)"
      using read_frames_encode [of E fs ?n chunks "[]" "[Recv []]"] assms cut ne
      by (auto simp: new_connection_def)
    moreover from this ne have "rest = []" by (cases rest) auto
    ultimately show ?thesis
      using read_frame_eof [OF parse_frame_empty] by (simp add: new_connection_def)
  qed
  with w show ?thesis by blast
qed

theorem stream_roundtrip_witness:
  "\<exists>c'. write_frames (new_connection []) [Array [Bulk ''get'', Bulk ''k''], Null] = Ok c' \<and>
    (\<forall>chunks. concat chunks = sent c' \<longrightarrow> [] \<notin> set chunks \<longrightarrow>
      (\<exists>d. read_frames (ref_env True) (length [Array [Bulk ''get'', Bulk ''k''], Null])
             (new_connection (map Recv chunks @ [Recv []])) = Some ([Array [Bulk ''get'', Bulk ''k''], Null], d) \<and>
           read_frame (ref_env True) d = Ready (Ok (None, d\<lparr>inbound := []\<rparr>))))"
  by (rule stream_roundtrip)
    (simp_all add: ref_env_atoi isize_max_def new_connection_def dec.simps CRLF_def)

text \<open>
  C35: when the peer closes the connection inside a frame, the reader reports a reset whatever
  packets brought the part; between frames it reports a clean end.
\<close>

theorem truncated_stream:
  assumes "parse E (cur (concat chunks @ zs) 0) = Ok (f, t)" "length (concat chunks @ zs) \<le> isize_max"
    and "length (concat chunks) < position t" "[] \<notin> set chunks"
  shows "read_frame E (new_connection (map Recv chunks @ [Recv []])) = Ready
    (if chunks = [] then Ok (None, new_connection []) else Err (Text ''connection reset by peer''))"
proof -
  let ?n = "new_connection (map Recv chunks @ [Recv []])"
  let ?d = "?n\<lparr>buffer := concat chunks, inbound := [Recv []]\<rparr>"
  have "read_frame E ?n = read_frame E ?d" "parse_frame E ?d = Ok (None, ?d)"
    using read_frame_partial [of E ?n chunks zs f t "[Recv []]"] assms
    by (simp_all add: new_connection_def)
  with read_frame_eof [of E ?d "[]"] assms(4) show ?thesis
    by (cases chunks) (auto simp: new_connection_def)
qed

theorem truncated_stream_witness:
  "read_frame (ref_env True) (new_connection (map Recv [''$3'', CRLF @ ''ab''] @ [Recv []])) =
     Ready (Err (Text ''connection reset by peer''))"
proof -
  have "dec (Suc (Suc (Suc 0))) = ''3''" by code_simp
  then have e: "''$3'' @ CRLF @ ''abc'' @ CRLF = encode (Bulk ''abc'') @ []" by simp
  have "parse (ref_env True) (cur (concat [''$3'', CRLF @ ''ab''] @ ''c'' @ CRLF) 0) =
      Ok (Bulk ''abc'', cur (encode (Bulk ''abc'') @ []) (length (encode (Bulk ''abc''))))"
    using parse_encode [of "ref_env True" "Bulk ''abc''" "[]"] e
    by (simp add: ref_env_atoi isize_max_def)
  from truncated_stream [OF this] show ?thesis
    by (simp add: isize_max_def CRLF_def dec.simps)
qed


text \<open>
  Writing a frame appends exactly its wire form to what was sent, leaves nothing in the write
  buffer and touches nothing else, for every frame without an array inside an array; the
  twenty-byte buffer for numbers is always large enough.
\<close>

theorem write_frame_sends:
  assumes "\<not> write_fault c" "flat f"
  shows "write_frame c f = Ok (c\<lparr>sent := sent c @ pending_out c @ encode f, pending_out := []\<rparr>)"
  using assms by (rule write_frame_encode)

theorem write_frame_sends_witness:
  "write_frame (new_connection []) (Array [Integer 7, Bulk ''ab'']) =
     Ok (new_connection []\<lparr>sent := ''*2'' @ CRLF @ '':7'' @ CRLF @ ''$2'' @ CRLF @ ''ab'' @ CRLF\<rparr>)"
proof -
  have d: "dec (Suc (Suc 0)) = ''2''" "dec 7 = ''7''" by code_simp+
  show ?thesis
    using write_frame_sends [of "new_connection []" "Array [Integer 7, Bulk ''ab'']"]
    by (simp add: new_connection_def isize_max_def d)
qed

lemma write_value_outcome:
  "\<not> write_fault c \<Longrightarrow> \<not> is_array f \<Longrightarrow> \<exists>bs. write_value c f = Ok (put bs c)"
  by (cases f) (auto simp: write_all_put write_decimal_put)

lemma write_entries_outcome:
  "\<not> write_fault c \<Longrightarrow>
     if list_ex is_array fs then write_entries c fs = Panic Unreachable
     else \<exists>bs. write_entries c fs = Ok (put bs c)"
proof (induction fs arbitrary: c)
  case Nil
  then show ?case by (auto intro: exI [of _ "[]"])
next
  case (Cons f fs)
  show ?case
  proof (cases "is_array f")
    case True
    then show ?thesis by (cases f) simp_all
  next
    case False
    then obtain bs where b: "write_value c f = Ok (put bs c)"
      using write_value_outcome Cons.prems by blast
    with Cons.IH [of "put bs c"] Cons.prems False show ?thesis
      by (auto split: if_splits)
  qed
qed

text \<open>
  On a working socket the writer panics (its \<open>unreachable!\<close>) exactly on an array that contains
  an array, and it never reports an error.
\<close>

theorem write_frame_panics_iff:
  assumes "\<not> write_fault c"
  shows "((write_frame c f = Panic Unreachable) = (\<exists>fs g. f = Array fs \<and> g \<in> set fs \<and> is_array g)) \<and>
    (\<forall>e. write_frame c f \<noteq> Err e)"
proof -
  have "if \<exists>fs g. f = Array fs \<and> g \<in> set fs \<and> is_array g then write_frame c f = Panic Unreachable
      else \<exists>bs. write_frame c f = flush (put bs c)"
  proof (cases "is_array f")
    case True
    then obtain fs where f: "f = Array fs" by (cases f) simp_all
    show ?thesis
      using write_entries_outcome [of "put (''*'' @ dec (unat (of_nat (length fs) :: u64)) @ CRLF) c" fs] assms
      by (auto simp: f write_all_put write_decimal_put list_ex_iff split: if_splits)
  next
    case False
    with write_value_outcome [OF assms False] have "\<exists>bs. write_frame c f = flush (put bs c)"
      by (cases f) auto
    moreover have "\<not> (\<exists>fs g. f = Array fs \<and> g \<in> set fs \<and> is_array g)" using False by auto
    ultimately show ?thesis by (simp only: if_False)
  qed
  then show ?thesis
    using assms by (auto simp: flush_def split: if_splits)
qed

theorem write_frame_panics_iff_witness:
  "write_frame (new_connection []) (Array [Null, Array []]) = Panic Unreachable"
  using write_frame_panics_iff [of "new_connection []" "Array [Null, Array []]"]
  by (auto simp: new_connection_def)

text \<open>
  The bytes on the wire determine the frames: two sequences of well-formed frames that write the
  same bytes are the same sequence.
\<close>

theorem encoding_unique:
  assumes "\<not> write_fault c" "pending_out c = []"
    and "list_all (\<lambda>f. flat f \<and> line_safe f) fs" "list_all (\<lambda>f. flat f \<and> line_safe f) gs"
    and "write_frames c fs = Ok d" "write_frames c gs = Ok d"
  shows "fs = gs"
proof -
  have fl: "list_all flat fs" "list_all flat gs" using assms(3,4) by (simp_all add: list_all_iff)
  have "d = c\<lparr>sent := sent c @ concat (map encode fs)\<rparr>" "d = c\<lparr>sent := sent c @ concat (map encode gs)\<rparr>"
    using write_frames_encode [OF assms(1,2) fl(1)] write_frames_encode [OF assms(1,2) fl(2)] assms(5,6)
    by simp_all
  then have "sent c @ concat (map encode fs) = sent c @ concat (map encode gs)"
    by (metis connection.select_convs(4) connection.surjective connection.update_convs(4))
  then have "concat (map encode fs) = concat (map encode gs)" by simp
  with assms(3,4) show ?thesis by (rule wire.stream_unique)
qed

theorem encoding_unique_witness:
  "write_frames (new_connection []) [Null, Integer 5] \<noteq> write_frames (new_connection []) [Null, Integer 6]"
proof -
  obtain d where "write_frames (new_connection []) [Null, Integer 5] = Ok d"
    using write_frames_encode [of "new_connection []" "[Null, Integer 5]"] by (simp add: new_connection_def)
  then show ?thesis
    using encoding_unique [of "new_connection []" "[Null, Integer 5]" "[Null, Integer 6]" d]
    by (auto simp: new_connection_def)
qed

text \<open>
  A bulk header that announces \<open>u64::MAX\<close> bytes makes the reader panic: \<open>len + 2\<close> overflows
  in \<open>check\<close> with overflow checks; without them the sum wraps to 1, the check passes and \<open>parse\<close>
  slices beyond the buffer.
\<close>

theorem bulk_length_overflow:
  assumes "atoi_reads_decimal E"
    and "buffer c = ''$'' @ dec (2 ^ 64 - 1) @ CRLF @ x # rest" "length (buffer c) \<le> isize_max"
  shows "parse_frame E c = Panic (if overflow_checks E then ArithOverflow else IndexOutOfBounds)"
proof -
  let ?d = "dec (2 ^ 64 - 1)"
  let ?b = "''$'' @ ?d @ CRLF @ x # rest" and ?k = "length ?d + 3" and ?m = "-1 :: usize"
  have u: "get_u8 (cur ?b 0) = Ok (CHR ''$'', cur ?b 1)"
    using get_u8_cur [of "[]"] by simp
  obtain d0 ds where d: "?d = d0 # ds" "d0 \<noteq> CHR ''-''"
    using dec_hd_not_minus [of "2 ^ 64 - 1"] by (cases ?d) auto
  have p: "peek_u8 (cur ?b 1) = Ok d0"
    using peek_u8_cur [of "''$''" d0 "ds @ CRLF @ x # rest"] d by simp
  have "of_nat (2 ^ 64 - 1) = ?m" by simp
  then have g: "get_decimal E (cur ?b 1) = Ok (?m, cur ?b ?k)"
    using get_decimal_cur [of E "2 ^ 64 - 1" "''$''" "x # rest"] assms(1) by simp
  have m: "unat ?m = 2 ^ 64 - 1" "?m + 2 = 1" by (simp_all add: unsigned_minus_1_eq_mask mask_eq_exp_minus_1)
  have a: "add_usize E ?m 2 = ((if overflow_checks E then Panic ArithOverflow else Ok 1) :: (usize, frame_error) res)"
    by (simp add: add_usize_def m)
  have r: "remaining (cur ?b ?k) = 1 + length rest" "length (chunk (cur ?b ?k)) = 1 + length rest"
    by (simp_all add: remaining_def chunk_def CRLF_def)
  have l: "1 + length rest < 2 ^ 64 - 1"
    using assms(2,3) by (simp add: isize_max_def CRLF_def)
  show ?thesis
  proof (cases "overflow_checks E")
    case True
    with u p g a d have "check E (cur ?b 0) = Panic ArithOverflow" by (simp add: check_at(5))
    with True assms(2) show ?thesis by (simp add: parse_frame_def)
  next
    case False
    with u p g a d r have "check E (cur ?b 0) = Ok (advance (cur ?b ?k) 1)"
      by (simp add: check_at(5) skip_def)
    moreover have "parse E (cur ?b 0) = Panic IndexOutOfBounds"
      using False u p g a d r m l by (simp add: parse_at(5))
    ultimately show ?thesis using False assms(2) by (simp add: parse_frame_def advance_def Let_def)
  qed
qed

theorem bulk_length_overflow_witness:
  "parse_frame (ref_env False) (new_connection []\<lparr>buffer := ''$'' @ dec (2 ^ 64 - 1) @ CRLF @ ''x''\<rparr>) =
     Panic IndexOutOfBounds"
proof -
  have "length (dec (2 ^ 64 - 1)) \<le> 20" by (rule dec_length_bound) simp_all
  then show ?thesis
    using bulk_length_overflow [OF ref_env_atoi, of
        "new_connection []\<lparr>buffer := ''$'' @ dec (2 ^ 64 - 1) @ CRLF @ ''x''\<rparr>" "CHR ''x''" "[]" False]
    by (simp add: isize_max_def CRLF_def ref_env_def)
qed

end
