(* ===== verification/Parse_Cursor.thy ===== *)
theory Parse_Cursor
  imports Frame
begin

text \<open>
  \<open>src/mini-redis/src/parse.rs\<close>: the cursor over the entries of an array frame from which the
  command parsers take their fields. An extraction either consumes exactly one entry or fails;
  \<open>EndOfStream\<close> is the only failure the callers handle.
\<close>

record parse_state =
  parts :: "frame list"

datatype parse_error = EndOfStream | ParseOther crate_error

text \<open>\<open>impl From<&str> for ParseError\<close>.\<close>

definition parse_msg :: "bytes \<Rightarrow> parse_error" where
  "parse_msg src = ParseOther (Text src)"

text \<open>\<open>format!("... {:?}", frame).into()\<close>.\<close>

definition parse_debug :: "bytes \<Rightarrow> frame \<Rightarrow> parse_error" where
  "parse_debug src f = ParseOther (TextDebug src f)"

text \<open>A parse error boxed as a crate error, seen through its \<open>Display\<close>.\<close>

fun box_parse_error :: "parse_error \<Rightarrow> crate_error" where
  "box_parse_error EndOfStream = Text ''protocol error; unexpected end of stream''"
| "box_parse_error (ParseOther err) = err"

definition parse_new :: "frame \<Rightarrow> (parse_state, parse_error) res" where
  "parse_new frame =
     (case frame of
        Array vec \<Rightarrow> Ok \<lparr>parts = vec\<rparr>
      | frame \<Rightarrow> Err (parse_debug ''protocol error; expected array, got '' frame))"

definition next_frame :: "parse_state \<Rightarrow> (frame \<times> parse_state, parse_error) res" where
  "next_frame self =
     (case parts self of
        [] \<Rightarrow> Err EndOfStream
      | f # rest \<Rightarrow> Ok (f, self\<lparr>parts := rest\<rparr>))"

definition next_string :: "parse_state \<Rightarrow> (bytes \<times> parse_state, parse_error) res" where
  "next_string self =
     and_then (next_frame self) (\<lambda>(f, self).
       case f of
         Simple s \<Rightarrow> Ok (s, self)
       | Bulk data \<Rightarrow>
           (case from_utf8 data of
              Some s \<Rightarrow> Ok (s, self)
            | None \<Rightarrow> Err (parse_msg ''protocol error; invalid string''))
       | frame \<Rightarrow>
           Err (parse_debug ''protocol error; expected simple frame or bulk frame, got '' frame))"

definition next_bytes :: "parse_state \<Rightarrow> (bytes \<times> parse_state, parse_error) res" where
  "next_bytes self =
     and_then (next_frame self) (\<lambda>(f, self).
       case f of
         Simple s \<Rightarrow> Ok (s, self)
       | Bulk data \<Rightarrow> Ok (data, self)
       | frame \<Rightarrow>
           Err (parse_debug ''protocol error; expected simple frame or bulk frame, got '' frame))"

definition next_int :: "env \<Rightarrow> parse_state \<Rightarrow> (u64 \<times> parse_state, parse_error) res" where
  "next_int E self =
     and_then (next_frame self) (\<lambda>(f, self).
       case f of
         Integer v \<Rightarrow> Ok (v, self)
       | Simple data \<Rightarrow>
           and_then (ok_or (parse_msg ''protocol error; invalid number'') (atoi E data)) (\<lambda>v. Ok (v, self))
       | Bulk data \<Rightarrow>
           and_then (ok_or (parse_msg ''protocol error; invalid number'') (atoi E data)) (\<lambda>v. Ok (v, self))
       | frame \<Rightarrow> Err (parse_debug ''protocol error; expected int frame but got '' frame))"

definition finish :: "parse_state \<Rightarrow> (unit, parse_error) res" where
  "finish self =
     (case parts self of
        [] \<Rightarrow> Ok ()
      | _ \<Rightarrow> Err (parse_msg ''protocol error; expected end of frame, but there was more''))"

section \<open>What an extraction consumes\<close>

lemma next_frame_simps [simp]:
  "next_frame \<lparr>parts = []\<rparr> = Err EndOfStream"
  "next_frame \<lparr>parts = f # fs\<rparr> = Ok (f, \<lparr>parts = fs\<rparr>)"
  by (simp_all add: next_frame_def)

lemma next_string_Bulk [simp]:
  "utf8 s \<Longrightarrow> next_string \<lparr>parts = Bulk s # fs\<rparr> = Ok (s, \<lparr>parts = fs\<rparr>)"
  by (simp add: next_string_def from_utf8_def)

lemma next_string_nil [simp]: "next_string \<lparr>parts = []\<rparr> = Err EndOfStream"
  by (simp add: next_string_def)

lemma next_bytes_Bulk [simp]: "next_bytes \<lparr>parts = Bulk s # fs\<rparr> = Ok (s, \<lparr>parts = fs\<rparr>)"
  by (simp add: next_bytes_def)

lemma next_bytes_nil [simp]: "next_bytes \<lparr>parts = []\<rparr> = Err EndOfStream"
  by (simp add: next_bytes_def)

lemma next_int_Bulk [simp]:
  "atoi E s = Some v \<Longrightarrow> next_int E \<lparr>parts = Bulk s # fs\<rparr> = Ok (v, \<lparr>parts = fs\<rparr>)"
  by (simp add: next_int_def)

lemma finish_iff: "finish p = Ok u \<longleftrightarrow> parts p = []"
  by (simp add: finish_def split: list.splits)

text \<open>The text of an entry, where it has one.\<close>

fun as_text :: "frame \<Rightarrow> bytes option" where
  "as_text (Simple s) = Some s"
| "as_text (Bulk s) = (if utf8 s then Some s else None)"
| "as_text _ = None"

fun as_raw :: "frame \<Rightarrow> bytes option" where
  "as_raw (Simple s) = Some s"
| "as_raw (Bulk s) = Some s"
| "as_raw _ = None"

lemma next_string_Ok:
  "next_string p = Ok (s, q) \<longleftrightarrow>
     (\<exists>f fs. parts p = f # fs \<and> as_text f = Some s \<and> q = p\<lparr>parts := fs\<rparr>)"
  by (auto simp: next_string_def next_frame_def from_utf8_def
      split: list.splits frame.splits if_splits)

lemma next_bytes_Ok:
  "next_bytes p = Ok (s, q) \<longleftrightarrow>
     (\<exists>f fs. parts p = f # fs \<and> as_raw f = Some s \<and> q = p\<lparr>parts := fs\<rparr>)"
  by (auto simp: next_bytes_def next_frame_def split: list.splits frame.splits)

lemma next_string_end: "next_string p = Err EndOfStream \<longleftrightarrow> parts p = []"
  by (auto simp: next_string_def next_frame_def parse_msg_def parse_debug_def
      split: list.splits frame.splits option.splits)

lemma next_bytes_end: "next_bytes p = Err EndOfStream \<longleftrightarrow> parts p = []"
  by (auto simp: next_bytes_def next_frame_def parse_debug_def split: list.splits frame.splits)

lemma next_consumes:
  "next_string p = Ok (s, q) \<Longrightarrow> length (parts p) = Suc (length (parts q))"
  "next_bytes p = Ok (s, q) \<Longrightarrow> length (parts p) = Suc (length (parts q))"
  by (auto simp: next_string_Ok next_bytes_Ok)

lemma no_panic [simp]:
  "parse_new f \<noteq> Panic x" "next_frame p \<noteq> Panic x" "next_string p \<noteq> Panic x"
  "next_bytes p \<noteq> Panic x" "next_int E p \<noteq> Panic x" "finish p \<noteq> Panic x"
  by (auto simp: parse_new_def next_frame_def next_string_def next_bytes_def next_int_def
      finish_def res_conv split: list.splits frame.splits option.splits)

end
