(* ===== verification/Commands.thy ===== *)
theory Commands
  imports Parse_Cursor
begin

text \<open>
  \<open>src/mini-redis/src/cmd/*.rs\<close>, the wire side of the commands: each command struct with its
  \<open>parse_frames\<close> and \<open>into_frame\<close>, and the dispatcher \<open>Command::from_frame\<close>. The locale
  \<open>command_codec\<close> is the contract between one command and the dispatcher; it is interpreted for
  every command the client sends. What the commands do (\<open>apply\<close>) is in theory Apply.
\<close>

section \<open>The command structs\<close>

record Get =
  get_key :: bytes

record Set =
  set_key :: bytes
  set_value :: bytes
  set_expire :: "duration option"

record Publish =
  pub_channel :: bytes
  pub_message :: bytes

record Subscribe =
  sub_channels :: "bytes list"

record Unsubscribe =
  unsub_channels :: "bytes list"

record Ping =
  ping_msg :: "bytes option"

record Unknown =
  command_name :: bytes

datatype command =
    GetCmd Get
  | PublishCmd Publish
  | SetCmd Set
  | SubscribeCmd Subscribe
  | UnsubscribeCmd Unsubscribe
  | PingCmd Ping
  | UnknownCmd Unknown

section \<open>Parsing\<close>

definition get_parse_frames :: "parse_state \<Rightarrow> (Get \<times> parse_state, crate_error) res" where
  "get_parse_frames prs =
     and_then (map_err box_parse_error (next_string prs)) (\<lambda>(key, prs).
       Ok (\<lparr>get_key = key\<rparr>, prs))"

definition publish_parse_frames :: "parse_state \<Rightarrow> (Publish \<times> parse_state, crate_error) res" where
  "publish_parse_frames prs =
     and_then (map_err box_parse_error (next_string prs)) (\<lambda>(channel, prs).
     and_then (map_err box_parse_error (next_bytes prs)) (\<lambda>(message, prs).
       Ok (\<lparr>pub_channel = channel, pub_message = message\<rparr>, prs)))"

text \<open>\<open>match parse.next_string()\<close> of \<open>Set::parse_frames\<close>: the optional expiration.\<close>

definition set_parse_expire ::
    "env \<Rightarrow> parse_state \<Rightarrow> (duration option \<times> parse_state, crate_error) res" where
  "set_parse_expire E prs =
     (case next_string prs of
        Ok (s, prs) \<Rightarrow>
          if to_uppercase E s = ''EX'' then
            and_then (map_err box_parse_error (next_int E prs)) (\<lambda>(secs, prs).
              Ok (Some (from_secs secs), prs))
          else if to_uppercase E s = ''PX'' then
            and_then (map_err box_parse_error (next_int E prs)) (\<lambda>(ms, prs).
              Ok (Some (from_millis ms), prs))
          else Err (Text ''currently `SET` only supports the expiration option'')
      | Err EndOfStream \<Rightarrow> Ok (None, prs)
      | Err err \<Rightarrow> Err (box_parse_error err)
      | Panic p \<Rightarrow> Panic p)"

definition set_parse_frames :: "env \<Rightarrow> parse_state \<Rightarrow> (Set \<times> parse_state, crate_error) res" where
  "set_parse_frames E prs =
     and_then (map_err box_parse_error (next_string prs)) (\<lambda>(key, prs).
     and_then (map_err box_parse_error (next_bytes prs)) (\<lambda>(val, prs).
     and_then (set_parse_expire E prs) (\<lambda>(expire, prs).
       Ok (\<lparr>set_key = key, set_value = val, set_expire = expire\<rparr>, prs))))"

text \<open>
  The loop that pushes the remaining strings onto \<open>channels\<close> until the end of the stream, in
  both \<open>Subscribe\<close> and \<open>Unsubscribe\<close>.
\<close>

function channels_loop ::
    "bytes list \<Rightarrow> parse_state \<Rightarrow> (bytes list \<times> parse_state, parse_error) res" where
  "channels_loop channels prs =
     (case next_string prs of
        Ok (s, prs) \<Rightarrow> channels_loop (channels @ [s]) prs
      | Err EndOfStream \<Rightarrow> Ok (channels, prs)
      | Err err \<Rightarrow> Err err
      | Panic p \<Rightarrow> Panic p)"
  by pat_completeness auto
termination
  by (relation "measure (\<lambda>(_, prs). length (parts prs))") (auto dest!: next_consumes)

declare channels_loop.simps [simp del]

definition subscribe_parse_frames ::
    "parse_state \<Rightarrow> (Subscribe \<times> parse_state, crate_error) res" where
  "subscribe_parse_frames prs =
     and_then (map_err box_parse_error (next_string prs)) (\<lambda>(first, prs).
     and_then (map_err box_parse_error (channels_loop [first] prs)) (\<lambda>(channels, prs).
       Ok (\<lparr>sub_channels = channels\<rparr>, prs)))"

definition unsubscribe_parse_frames ::
    "parse_state \<Rightarrow> (Unsubscribe \<times> parse_state, parse_error) res" where
  "unsubscribe_parse_frames prs =
     and_then (channels_loop [] prs) (\<lambda>(channels, prs).
       Ok (\<lparr>unsub_channels = channels\<rparr>, prs))"

definition ping_parse_frames :: "parse_state \<Rightarrow> (Ping \<times> parse_state, crate_error) res" where
  "ping_parse_frames prs =
     (case next_bytes prs of
        Ok (msg, prs) \<Rightarrow> Ok (\<lparr>ping_msg = Some msg\<rparr>, prs)
      | Err EndOfStream \<Rightarrow> Ok (\<lparr>ping_msg = None\<rparr>, prs)
      | Err e \<Rightarrow> Err (box_parse_error e)
      | Panic p \<Rightarrow> Panic p)"

text \<open>
  One arm of the dispatcher and the \<open>parse.finish()?\<close> behind the match.
\<close>

definition delegate ::
    "(parse_state \<Rightarrow> ('c \<times> parse_state, crate_error) res) \<Rightarrow> ('c \<Rightarrow> command) \<Rightarrow> parse_state \<Rightarrow>
     (command, crate_error) res" where
  "delegate parse_frames con prs =
     and_then (parse_frames prs) (\<lambda>(cmd, prs).
     and_then (map_err box_parse_error (finish prs)) (\<lambda>_. Ok (con cmd)))"

definition from_frame :: "env \<Rightarrow> frame \<Rightarrow> (command, crate_error) res" where
  "from_frame E frame =
     and_then (map_err box_parse_error (parse_new frame)) (\<lambda>prs.
     and_then (map_err box_parse_error (next_string prs)) (\<lambda>(s, prs).
       let name = to_lowercase E s in
       if name = ''get'' then delegate get_parse_frames GetCmd prs
       else if name = ''publish'' then delegate publish_parse_frames PublishCmd prs
       else if name = ''set'' then delegate (set_parse_frames E) SetCmd prs
       else if name = ''subscribe'' then delegate subscribe_parse_frames SubscribeCmd prs
       else if name = ''unsubscribe'' then
         delegate (\<lambda>prs. map_err box_parse_error (unsubscribe_parse_frames prs)) UnsubscribeCmd prs
       else if name = ''ping'' then delegate ping_parse_frames PingCmd prs
       else Ok (UnknownCmd \<lparr>command_name = name\<rparr>)))"

fun get_name :: "command \<Rightarrow> bytes" where
  "get_name (GetCmd _) = ''get''"
| "get_name (PublishCmd _) = ''publish''"
| "get_name (SetCmd _) = ''set''"
| "get_name (SubscribeCmd _) = ''subscribe''"
| "get_name (UnsubscribeCmd _) = ''unsubscribe''"
| "get_name (PingCmd _) = ''ping''"
| "get_name (UnknownCmd cmd) = command_name cmd"

section \<open>Building request frames\<close>

definition get_into_frame :: "Get \<Rightarrow> (frame, crate_error) res" where
  "get_into_frame self =
     and_then (push_bulk array ''get'') (\<lambda>frame. push_bulk frame (get_key self))"

definition publish_into_frame :: "Publish \<Rightarrow> (frame, crate_error) res" where
  "publish_into_frame self =
     and_then (push_bulk array ''publish'') (\<lambda>frame.
     and_then (push_bulk frame (pub_channel self)) (\<lambda>frame. push_bulk frame (pub_message self)))"

definition set_into_frame :: "Set \<Rightarrow> (frame, crate_error) res" where
  "set_into_frame self =
     and_then (push_bulk array ''set'') (\<lambda>frame.
     and_then (push_bulk frame (set_key self)) (\<lambda>frame.
     and_then (push_bulk frame (set_value self)) (\<lambda>frame.
       case set_expire self of
         Some ms \<Rightarrow>
           and_then (push_bulk frame ''px'') (\<lambda>frame. push_bulk frame (dec (as_millis ms)))
       | None \<Rightarrow> Ok frame)))"

fun push_channels :: "frame \<Rightarrow> bytes list \<Rightarrow> (frame, crate_error) res" where
  "push_channels frame [] = Ok frame"
| "push_channels frame (channel # channels) =
     and_then (push_bulk frame channel) (\<lambda>frame. push_channels frame channels)"

definition subscribe_into_frame :: "Subscribe \<Rightarrow> (frame, crate_error) res" where
  "subscribe_into_frame self =
     and_then (push_bulk array ''subscribe'') (\<lambda>frame. push_channels frame (sub_channels self))"

definition unsubscribe_into_frame :: "Unsubscribe \<Rightarrow> (frame, crate_error) res" where
  "unsubscribe_into_frame self =
     and_then (push_bulk array ''unsubscribe'') (\<lambda>frame. push_channels frame (unsub_channels self))"

definition ping_into_frame :: "Ping \<Rightarrow> (frame, crate_error) res" where
  "ping_into_frame self =
     and_then (push_bulk array ''ping'') (\<lambda>frame.
       case ping_msg self of Some msg \<Rightarrow> push_bulk frame msg | None \<Rightarrow> Ok frame)"

section \<open>The contract of a command\<close>

text \<open>
  What the dispatcher relies on: the request frame of a well-formed command is an array of the
  lower-case name and bulk arguments, and the command's own parser reads exactly those arguments.
\<close>

locale command_codec =
  fixes nm :: bytes
    and into_frame :: "'c \<Rightarrow> (frame, crate_error) res"
    and parse_frames :: "parse_state \<Rightarrow> ('c \<times> parse_state, crate_error) res"
    and wf :: "'c \<Rightarrow> bool"
    and args :: "'c \<Rightarrow> bytes list"
  assumes name_utf8: "utf8 nm"
    and frame: "into_frame c = Ok (Array (map Bulk (nm # args c)))"
    and parses: "wf c \<Longrightarrow> parse_frames \<lparr>parts = map Bulk (args c)\<rparr> = Ok (c, \<lparr>parts = []\<rparr>)"
begin

lemma delegate_args:
  "wf c \<Longrightarrow> delegate parse_frames con \<lparr>parts = map Bulk (args c)\<rparr> = Ok (con c)"
  by (simp add: delegate_def parses finish_def)

lemma dispatch:
  "into_frame c = Ok f \<Longrightarrow> parse_new f = Ok \<lparr>parts = Bulk nm # map Bulk (args c)\<rparr>"
  "next_string \<lparr>parts = Bulk nm # fs\<rparr> = Ok (nm, \<lparr>parts = fs\<rparr>)"
  using frame [of c] name_utf8 by (auto simp: parse_new_def)

lemma frame_is_array: "into_frame c = Ok f \<Longrightarrow> f = Array (map Bulk (nm # args c))"
  using frame [of c] by simp

end

lemma push_channels_Array:
  "push_channels (Array vec) cs = Ok (Array (vec @ map Bulk cs))"
  by (induction cs arbitrary: vec) simp_all

lemma channels_loop_Bulk:
  "list_all utf8 cs \<Longrightarrow>
     channels_loop acc \<lparr>parts = map Bulk cs\<rparr> = Ok (acc @ cs, \<lparr>parts = []\<rparr>)"
proof (induction cs arbitrary: acc)
  case Nil
  then show ?case by (simp add: channels_loop.simps)
next
  case (Cons c cs)
  then show ?case by (subst channels_loop.simps) simp
qed

interpretation get_codec: command_codec "''get''" get_into_frame get_parse_frames
    "\<lambda>c. utf8 (get_key c)" "\<lambda>c. [get_key c]"
  by unfold_locales
    (simp_all add: utf8_def get_into_frame_def get_parse_frames_def array_def)

interpretation publish_codec: command_codec "''publish''" publish_into_frame publish_parse_frames
    "\<lambda>c. utf8 (pub_channel c)" "\<lambda>c. [pub_channel c, pub_message c]"
  by unfold_locales
    (simp_all add: utf8_def publish_into_frame_def publish_parse_frames_def array_def)

interpretation subscribe_codec: command_codec "''subscribe''" subscribe_into_frame
    subscribe_parse_frames "\<lambda>c. sub_channels c \<noteq> [] \<and> list_all utf8 (sub_channels c)" sub_channels
proof (unfold_locales, goal_cases)
  case (3 c)
  then show ?case
    by (cases "sub_channels c") (simp_all add: subscribe_parse_frames_def channels_loop_Bulk)
qed (simp_all add: utf8_def subscribe_into_frame_def array_def push_channels_Array)

interpretation unsubscribe_codec: command_codec "''unsubscribe''" unsubscribe_into_frame
    "\<lambda>p. map_err box_parse_error (unsubscribe_parse_frames p)"
    "\<lambda>c. list_all utf8 (unsub_channels c)" unsub_channels
  by unfold_locales
    (simp_all add: utf8_def unsubscribe_into_frame_def array_def push_channels_Array
      unsubscribe_parse_frames_def channels_loop_Bulk)

interpretation ping_codec: command_codec "''ping''" ping_into_frame ping_parse_frames
    "\<lambda>c. True" "\<lambda>c. case ping_msg c of Some msg \<Rightarrow> [msg] | None \<Rightarrow> []"
  by unfold_locales
    (simp_all add: utf8_def ping_into_frame_def ping_parse_frames_def array_def split: option.splits)


text \<open>
  The expiration travels in whole milliseconds: what a server reads from the request of \<open>c\<close>.
\<close>

definition whole_millis :: "duration \<Rightarrow> duration" where
  "whole_millis d = as_millis d * 10 ^ 6"

definition set_on_wire :: "Set \<Rightarrow> Set" where
  "set_on_wire c = c\<lparr>set_expire := map_option whole_millis (set_expire c)\<rparr>"

definition set_args :: "Set \<Rightarrow> bytes list" where
  "set_args c = [set_key c, set_value c] @
     (case set_expire c of Some d \<Rightarrow> [''px'', dec (as_millis d)] | None \<Rightarrow> [])"

definition wf_set :: "Set \<Rightarrow> bool" where
  "wf_set c \<longleftrightarrow> utf8 (set_key c) \<and>
     (case set_expire c of Some d \<Rightarrow> as_millis d < 2 ^ 64 | None \<Rightarrow> True)"

text \<open>Rounding never adds time and loses less than a millisecond.\<close>

lemma whole_millis_bound: "whole_millis d \<le> d \<and> d < whole_millis d + 10 ^ 6"
  using div_mult_mod_eq [of d "10 ^ 6"] mod_less_divisor [of "10 ^ 6" d]
  by (simp add: whole_millis_def as_millis_def)

lemma whole_millis_from_millis: "whole_millis (from_millis ms) = from_millis ms"
  by (simp add: whole_millis_def from_millis_def as_millis_def)

lemma set_into_frame_args: "set_into_frame c = Ok (Array (map Bulk (''set'' # set_args c)))"
  by (simp add: set_into_frame_def set_args_def array_def split: option.splits)

lemma set_parse_args:
  assumes "ascii_case E" "atoi_reads_decimal E" "wf_set c"
  shows "set_parse_frames E \<lparr>parts = map Bulk (set_args c)\<rparr> = Ok (set_on_wire c, \<lparr>parts = []\<rparr>)"
proof (cases "set_expire c")
  case None
  with assms show ?thesis
    by (simp add: set_parse_frames_def set_parse_expire_def set_args_def wf_set_def set_on_wire_def)
next
  case (Some d)
  have "map ascii_upper ''px'' = ''PX''" by code_simp
  with assms(1) have px: "to_uppercase E ''px'' = ''PX''"
    by (simp add: ascii_case_def ascii_def del: list.map)
  have utf: "utf8 ''px''" by (simp add: utf8_def)
  have "next_int E \<lparr>parts = [Bulk (dec (as_millis d))]\<rparr> = Ok (of_nat (as_millis d), \<lparr>parts = []\<rparr>)"
    using assms Some by (intro next_int_Bulk) (simp add: atoi_reads_decimal_def wf_set_def)
  moreover have "from_millis (of_nat (as_millis d)) = whole_millis d"
    using assms Some by (simp add: from_millis_def whole_millis_def wf_set_def unat_of_nat_u64)
  ultimately show ?thesis
    using assms Some px utf
    by (simp add: set_parse_frames_def set_parse_expire_def set_args_def wf_set_def set_on_wire_def)
qed

text \<open>For an expiration in whole milliseconds the command comes back unchanged.\<close>

lemma set_codec:
  assumes "ascii_case E" "atoi_reads_decimal E"
  shows "command_codec ''set'' set_into_frame (set_parse_frames E)
    (\<lambda>c. wf_set c \<and> set_on_wire c = c) set_args"
  by unfold_locales (simp_all add: utf8_def set_into_frame_args set_parse_args assms)

interpretation set_ref_codec: command_codec "''set''" set_into_frame "set_parse_frames (ref_env oc)"
    "\<lambda>c. wf_set c \<and> set_on_wire c = c" set_args for oc
  by (rule set_codec [OF ref_env_case ref_env_atoi])

section \<open>Requests come back as commands\<close>

text \<open>The request frame a client builds for a command.\<close>

fun requests :: "command \<Rightarrow> frame \<Rightarrow> bool" where
  "requests (GetCmd c) f = (get_into_frame c = Ok f)"
| "requests (PublishCmd c) f = (publish_into_frame c = Ok f)"
| "requests (SetCmd c) f = (set_into_frame c = Ok f)"
| "requests (SubscribeCmd c) f = (subscribe_into_frame c = Ok f)"
| "requests (UnsubscribeCmd c) f = (unsubscribe_into_frame c = Ok f)"
| "requests (PingCmd c) f = (ping_into_frame c = Ok f)"
| "requests (UnknownCmd c) f = False"

fun wf_command :: "command \<Rightarrow> bool" where
  "wf_command (GetCmd c) = utf8 (get_key c)"
| "wf_command (PublishCmd c) = utf8 (pub_channel c)"
| "wf_command (SetCmd c) = wf_set c"
| "wf_command (SubscribeCmd c) = (sub_channels c \<noteq> [] \<and> list_all utf8 (sub_channels c))"
| "wf_command (UnsubscribeCmd c) = list_all utf8 (unsub_channels c)"
| "wf_command (PingCmd c) = True"
| "wf_command (UnknownCmd c) = True"

fun on_wire :: "command \<Rightarrow> command" where
  "on_wire (SetCmd c) = SetCmd (set_on_wire c)"
| "on_wire c = c"

lemma lower_names:
  assumes "ascii_case E"
  shows "to_lowercase E ''get'' = ''get''" "to_lowercase E ''publish'' = ''publish''"
    "to_lowercase E ''set'' = ''set''" "to_lowercase E ''subscribe'' = ''subscribe''"
    "to_lowercase E ''unsubscribe'' = ''unsubscribe''" "to_lowercase E ''ping'' = ''ping''"
  using assms by (simp_all add: ascii_case_def ascii_def ascii_lower_def)

lemma from_frame_set:
  assumes "ascii_case E" "atoi_reads_decimal E" "wf_set c"
  shows "from_frame E (Array (map Bulk (''set'' # set_args c))) = Ok (SetCmd (set_on_wire c))"
  using assms
  by (simp add: from_frame_def parse_new_def utf8_def lower_names delegate_def set_parse_args
      finish_def)

lemma from_frame_requests:
  assumes "ascii_case E" "atoi_reads_decimal E" "wf_command c" "requests c f"
  shows "from_frame E f = Ok (on_wire c)"
proof (cases c)
  case (GetCmd x)
  with assms show ?thesis
    by (simp add: from_frame_def lower_names get_codec.dispatch
        get_codec.delegate_args [of _ GetCmd, simplified])
next
  case (PublishCmd x)
  with assms show ?thesis
    by (simp add: from_frame_def lower_names publish_codec.dispatch
        publish_codec.delegate_args [of _ PublishCmd, simplified])
next
  case (SetCmd x)
  with assms from_frame_set [of E x] show ?thesis by (auto simp: set_into_frame_args)
next
  case (SubscribeCmd x)
  with assms show ?thesis
    by (simp add: from_frame_def lower_names subscribe_codec.dispatch subscribe_codec.delegate_args)
next
  case (UnsubscribeCmd x)
  with assms show ?thesis
    by (simp add: from_frame_def lower_names unsubscribe_codec.dispatch unsubscribe_codec.delegate_args)
next
  case (PingCmd x)
  with assms show ?thesis
    by (simp add: from_frame_def lower_names ping_codec.dispatch ping_codec.delegate_args)
qed (use assms in simp)


section \<open>The grammar of requests\<close>

text \<open>
  The requests the server understands, one rule per form: an array whose first entry names the
  command in any letter case, followed by exactly the fields of the command.
\<close>

fun as_int :: "env \<Rightarrow> frame \<Rightarrow> u64 option" where
  "as_int E (Integer v) = Some v"
| "as_int E (Simple s) = atoi E s"
| "as_int E (Bulk s) = atoi E s"
| "as_int E _ = None"

definition names :: "env \<Rightarrow> frame \<Rightarrow> bytes \<Rightarrow> bool" where
  "names E f nm \<longleftrightarrow> map_option (to_lowercase E) (as_text f) = Some nm"

definition flags :: "env \<Rightarrow> frame \<Rightarrow> bytes \<Rightarrow> bool" where
  "flags E f nm \<longleftrightarrow> map_option (to_uppercase E) (as_text f) = Some nm"

definition known :: "bytes list" where
  "known = [''get'', ''publish'', ''set'', ''subscribe'', ''unsubscribe'', ''ping'']"

inductive denotes :: "env \<Rightarrow> frame \<Rightarrow> command \<Rightarrow> bool" for E where
  get: "names E n ''get'' \<Longrightarrow> as_text k = Some key \<Longrightarrow>
    denotes E (Array [n, k]) (GetCmd \<lparr>get_key = key\<rparr>)"
| publish: "names E n ''publish'' \<Longrightarrow> as_text c = Some ch \<Longrightarrow> as_raw m = Some msg \<Longrightarrow>
    denotes E (Array [n, c, m]) (PublishCmd \<lparr>pub_channel = ch, pub_message = msg\<rparr>)"
| set: "names E n ''set'' \<Longrightarrow> as_text k = Some key \<Longrightarrow> as_raw v = Some val \<Longrightarrow>
    denotes E (Array [n, k, v]) (SetCmd \<lparr>set_key = key, set_value = val, set_expire = None\<rparr>)"
| set_ex: "names E n ''set'' \<Longrightarrow> as_text k = Some key \<Longrightarrow> as_raw v = Some val \<Longrightarrow>
    flags E x ''EX'' \<Longrightarrow> as_int E t = Some secs \<Longrightarrow>
    denotes E (Array [n, k, v, x, t])
      (SetCmd \<lparr>set_key = key, set_value = val, set_expire = Some (from_secs secs)\<rparr>)"
| set_px: "names E n ''set'' \<Longrightarrow> as_text k = Some key \<Longrightarrow> as_raw v = Some val \<Longrightarrow>
    flags E x ''PX'' \<Longrightarrow> as_int E t = Some ms \<Longrightarrow>
    denotes E (Array [n, k, v, x, t])
      (SetCmd \<lparr>set_key = key, set_value = val, set_expire = Some (from_millis ms)\<rparr>)"
| subscribe: "names E n ''subscribe'' \<Longrightarrow> chs \<noteq> [] \<Longrightarrow> map as_text fs = map Some chs \<Longrightarrow>
    denotes E (Array (n # fs)) (SubscribeCmd \<lparr>sub_channels = chs\<rparr>)"
| unsubscribe: "names E n ''unsubscribe'' \<Longrightarrow> map as_text fs = map Some chs \<Longrightarrow>
    denotes E (Array (n # fs)) (UnsubscribeCmd \<lparr>unsub_channels = chs\<rparr>)"
| ping: "names E n ''ping'' \<Longrightarrow> denotes E (Array [n]) (PingCmd \<lparr>ping_msg = None\<rparr>)"
| ping_msg: "names E n ''ping'' \<Longrightarrow> as_raw m = Some msg \<Longrightarrow>
    denotes E (Array [n, m]) (PingCmd \<lparr>ping_msg = Some msg\<rparr>)"
| unknown: "names E n nm \<Longrightarrow> nm \<notin> set known \<Longrightarrow>
    denotes E (Array (n # fs)) (UnknownCmd \<lparr>command_name = nm\<rparr>)"

lemma next_int_Ok:
  "next_int E p = Ok (v, q) \<longleftrightarrow>
     (\<exists>f fs. parts p = f # fs \<and> as_int E f = Some v \<and> q = p\<lparr>parts := fs\<rparr>)"
  by (auto simp: next_int_def next_frame_def res_conv split: list.splits frame.splits)

lemma channels_loop_Ok:
  "channels_loop acc p = Ok (chs, q) \<longleftrightarrow>
     (\<exists>cs. map as_text (parts p) = map Some cs \<and> chs = acc @ cs \<and> q = p\<lparr>parts := []\<rparr>)"
proof (induction acc p rule: channels_loop.induct)
  case (1 acc p)
  show ?case
  proof (cases "parts p")
    case Nil
    then have "next_string p = Err EndOfStream" by (simp add: next_string_end)
    with Nil show ?thesis by (subst channels_loop.simps) (cases p, auto)
  next
    case (Cons f fs)
    show ?thesis
    proof (cases "as_text f")
      case None
      with Cons have "next_string p \<noteq> Err EndOfStream" "\<not> (\<exists>s q. next_string p = Ok (s, q))"
        by (auto simp: next_string_end next_string_Ok)
      then have "\<not> (\<exists>a. channels_loop acc p = Ok a)"
        by (subst channels_loop.simps) (auto split: res.splits parse_error.splits)
      with Cons None show ?thesis by auto
    next
      case (Some s)
      with Cons have n: "next_string p = Ok (s, p\<lparr>parts := fs\<rparr>)" by (simp add: next_string_Ok)
      have "channels_loop acc p = channels_loop (acc @ [s]) (p\<lparr>parts := fs\<rparr>)"
        by (subst channels_loop.simps) (simp add: n)
      with 1 [OF n refl] Cons Some show ?thesis by (auto simp: Cons_eq_map_conv)
    qed
  qed
qed

lemma delegate_Ok:
  "delegate pf con p = Ok c \<longleftrightarrow> (\<exists>x q. pf p = Ok (x, q) \<and> parts q = [] \<and> c = con x)"
  by (auto simp: delegate_def res_conv finish_iff)

lemma set_parse_expire_Ok:
  "set_parse_expire E p = Ok (e, q) \<longleftrightarrow>
     (parts p = [] \<and> e = None \<and> q = p) \<or>
     (\<exists>x t fs secs. parts p = x # t # fs \<and> flags E x ''EX'' \<and> as_int E t = Some secs \<and>
        e = Some (from_secs secs) \<and> q = p\<lparr>parts := fs\<rparr>) \<or>
     (\<exists>x t fs ms. parts p = x # t # fs \<and> flags E x ''PX'' \<and> as_int E t = Some ms \<and>
        e = Some (from_millis ms) \<and> q = p\<lparr>parts := fs\<rparr>)"
proof (cases "next_string p")
  case (Ok a)
  obtain s r where a: "a = (s, r)" by (cases a)
  with Ok obtain x fs where x: "parts p = x # fs" "as_text x = Some s" "r = p\<lparr>parts := fs\<rparr>"
    by (auto simp: next_string_Ok)
  with Ok a show ?thesis
    by (auto simp: set_parse_expire_def flags_def res_conv next_int_Ok split: if_splits)
next
  case (Err err)
  then have "as_text f \<noteq> Some s" if "parts p = f # fs" for f fs s
    using next_string_Ok [of p s "p\<lparr>parts := fs\<rparr>"] that by auto
  with Err next_string_end [of p] show ?thesis
    by (cases err) (auto simp: set_parse_expire_def flags_def)
qed simp

lemma parse_frames_Ok:
  "get_parse_frames p = Ok (c, q) \<longleftrightarrow>
     (\<exists>k key fs. parts p = k # fs \<and> as_text k = Some key \<and> c = \<lparr>get_key = key\<rparr> \<and>
        q = p\<lparr>parts := fs\<rparr>)"
  "publish_parse_frames p = Ok (u, q) \<longleftrightarrow>
     (\<exists>k m ch msg fs. parts p = k # m # fs \<and> as_text k = Some ch \<and> as_raw m = Some msg \<and>
        u = \<lparr>pub_channel = ch, pub_message = msg\<rparr> \<and> q = p\<lparr>parts := fs\<rparr>)"
  "subscribe_parse_frames p = Ok (b, q) \<longleftrightarrow>
     (\<exists>chs. chs \<noteq> [] \<and> map as_text (parts p) = map Some chs \<and> b = \<lparr>sub_channels = chs\<rparr> \<and>
        q = p\<lparr>parts := []\<rparr>)"
  "map_err box_parse_error (unsubscribe_parse_frames p) = Ok (d, q) \<longleftrightarrow>
     (\<exists>chs. map as_text (parts p) = map Some chs \<and> d = \<lparr>unsub_channels = chs\<rparr> \<and>
        q = p\<lparr>parts := []\<rparr>)"
  by (auto simp: get_parse_frames_def publish_parse_frames_def subscribe_parse_frames_def
      unsubscribe_parse_frames_def res_conv next_string_Ok next_bytes_Ok channels_loop_Ok
      Cons_eq_map_conv map_eq_Cons_conv neq_Nil_conv)

lemma ping_parse_frames_Ok:
  "ping_parse_frames p = Ok (c, q) \<longleftrightarrow>
     (parts p = [] \<and> c = \<lparr>ping_msg = None\<rparr> \<and> q = p) \<or>
     (\<exists>m msg fs. parts p = m # fs \<and> as_raw m = Some msg \<and> c = \<lparr>ping_msg = Some msg\<rparr> \<and>
        q = p\<lparr>parts := fs\<rparr>)"
proof (cases "next_bytes p")
  case (Ok a)
  obtain s r where a: "a = (s, r)" by (cases a)
  with Ok obtain x fs where "parts p = x # fs" "as_raw x = Some s" "r = p\<lparr>parts := fs\<rparr>"
    by (auto simp: next_bytes_Ok)
  with Ok a show ?thesis by (auto simp: ping_parse_frames_def)
next
  case (Err err)
  then have "as_raw f \<noteq> Some s" if "parts p = f # fs" for f fs s
    using next_bytes_Ok [of p s "p\<lparr>parts := fs\<rparr>"] that by auto
  with Err next_bytes_end [of p] show ?thesis
    by (cases err) (auto simp: ping_parse_frames_def)
qed simp

lemma set_parse_frames_Ok:
  "set_parse_frames E p = Ok (c, q) \<longleftrightarrow>
     (\<exists>k v key val fs e. parts p = k # v # fs \<and> as_text k = Some key \<and> as_raw v = Some val \<and>
        set_parse_expire E (p\<lparr>parts := fs\<rparr>) = Ok (e, q) \<and>
        c = \<lparr>set_key = key, set_value = val, set_expire = e\<rparr>)"
  by (auto simp: set_parse_frames_def res_conv next_string_Ok next_bytes_Ok)

lemma from_frame_Array:
  "from_frame E (Array []) = Err (box_parse_error EndOfStream)"
  "names E n nm \<Longrightarrow> from_frame E (Array (n # fs)) =
     (let p = \<lparr>parts = fs\<rparr> in
      if nm = ''get'' then delegate get_parse_frames GetCmd p
      else if nm = ''publish'' then delegate publish_parse_frames PublishCmd p
      else if nm = ''set'' then delegate (set_parse_frames E) SetCmd p
      else if nm = ''subscribe'' then delegate subscribe_parse_frames SubscribeCmd p
      else if nm = ''unsubscribe'' then
        delegate (\<lambda>p. map_err box_parse_error (unsubscribe_parse_frames p)) UnsubscribeCmd p
      else if nm = ''ping'' then delegate ping_parse_frames PingCmd p
      else Ok (UnknownCmd \<lparr>command_name = nm\<rparr>))"
proof -
  show "from_frame E (Array []) = Err (box_parse_error EndOfStream)"
    by (simp add: from_frame_def parse_new_def)
next
  assume "names E n nm"
  then obtain s where "as_text n = Some s" "to_lowercase E s = nm" by (auto simp: names_def)
  then have "next_string \<lparr>parts = n # fs\<rparr> = Ok (s, \<lparr>parts = fs\<rparr>)" "to_lowercase E s = nm"
    by (simp_all add: next_string_Ok)
  then show "from_frame E (Array (n # fs)) =
     (let p = \<lparr>parts = fs\<rparr> in
      if nm = ''get'' then delegate get_parse_frames GetCmd p
      else if nm = ''publish'' then delegate publish_parse_frames PublishCmd p
      else if nm = ''set'' then delegate (set_parse_frames E) SetCmd p
      else if nm = ''subscribe'' then delegate subscribe_parse_frames SubscribeCmd p
      else if nm = ''unsubscribe'' then
        delegate (\<lambda>p. map_err box_parse_error (unsubscribe_parse_frames p)) UnsubscribeCmd p
      else if nm = ''ping'' then delegate ping_parse_frames PingCmd p
      else Ok (UnknownCmd \<lparr>command_name = nm\<rparr>))"
    by (simp only: from_frame_def parse_new_def frame.case map_err_simps and_then_simps Let_def
        prod.case)
qed


lemma from_frame_unnamed:
  "as_text n = None \<Longrightarrow> from_frame E (Array (n # fs)) \<noteq> Ok c"
  by (auto simp: from_frame_def parse_new_def res_conv next_string_Ok)

lemma from_frame_not_array: "\<not> (\<exists>fs. f = Array fs) \<Longrightarrow> from_frame E f \<noteq> Ok c"
  by (cases f) (simp_all add: from_frame_def parse_new_def)

lemmas arms_Ok = delegate_Ok parse_frames_Ok ping_parse_frames_Ok set_parse_frames_Ok
  set_parse_expire_Ok

lemma from_frame_sound: "from_frame E f = Ok c \<Longrightarrow> denotes E f c"
proof -
  assume ok: "from_frame E f = Ok c"
  then obtain n fs where f: "f = Array (n # fs)"
    using from_frame_not_array [of f E c] from_frame_Array(1) [of E]
    by (metis neq_Nil_conv res.distinct(1))
  with ok obtain nm where n: "names E n nm"
    using from_frame_unnamed [of n E fs c] by (cases "as_text n") (auto simp: names_def)
  note ok' = ok [unfolded f from_frame_Array(2) [OF n] Let_def]
  consider "nm = ''get''" | "nm = ''publish''" | "nm = ''set''" | "nm = ''subscribe''"
    | "nm = ''unsubscribe''" | "nm = ''ping''" | "nm \<notin> set known"
    by (auto simp: known_def)
  then show ?thesis
  proof cases
    case 3
    with ok' n show ?thesis by (auto simp: f arms_Ok intro: denotes.intros)
  next
    case 7
    with ok' n show ?thesis by (auto simp: f known_def intro: denotes.unknown)
  qed (use ok' n in \<open>auto simp: f arms_Ok intro: denotes.intros\<close>)
qed

lemma from_frame_complete: "denotes E f c \<Longrightarrow> from_frame E f = Ok c"
proof (induction rule: denotes.induct)
  case (unknown n nm fs)
  then show ?case by (simp add: from_frame_Array(2) known_def)
qed (auto simp: from_frame_Array(2) arms_Ok)

lemma parse_frames_no_panic [simp]:
  "get_parse_frames p \<noteq> Panic x" "publish_parse_frames p \<noteq> Panic x"
  "set_parse_expire E p \<noteq> Panic x" "ping_parse_frames p \<noteq> Panic x"
  by (auto simp: get_parse_frames_def publish_parse_frames_def set_parse_expire_def
      ping_parse_frames_def res_conv split: res.splits parse_error.splits)

lemma channels_loop_no_panic [simp]: "channels_loop acc p \<noteq> Panic x"
proof (induction acc p rule: channels_loop.induct)
  case (1 acc p)
  then show ?case
    by (subst channels_loop.simps) (auto split: res.splits parse_error.splits)
qed

lemma delegate_no_panic: "(\<And>p x. pf p \<noteq> Panic x) \<Longrightarrow> delegate pf con p \<noteq> Panic x"
  by (auto simp: delegate_def res_conv)

lemma from_frame_no_panic: "from_frame E f \<noteq> Panic x"
  by (auto simp: from_frame_def res_conv Let_def set_parse_frames_def subscribe_parse_frames_def
      unsubscribe_parse_frames_def delegate_def split: if_splits)


section \<open>Properties\<close>

text \<open>
  C12: the dispatcher accepts exactly the requests of the grammar and reads them as the grammar says,
  for every frame: any letter case of the name, strings as simple or bulk entries, the two forms of
  expiration, and no entry left over.
\<close>

theorem from_frame_iff_denotes: "from_frame E f = Ok c \<longleftrightarrow> denotes E f c"
  using from_frame_sound from_frame_complete by blast

text \<open>
  C13: the request a client builds for a command is read back by the server as that command; an
  expiration arrives rounded down to whole milliseconds. (The strings are UTF-8, a subscription names a channel,
  and the milliseconds of an expiration fit 64 bits: \<open>wf_command\<close>.)
\<close>

theorem command_roundtrip:
  assumes "ascii_case E" "atoi_reads_decimal E" "wf_command c" "requests c f"
  shows "from_frame E f = Ok (on_wire c)"
  using assms by (rule from_frame_requests)

theorem command_roundtrip_witness:
  "\<exists>f. requests (SetCmd \<lparr>set_key = ''k'', set_value = ''v'', set_expire = Some 2500000\<rparr>) f \<and>
     from_frame (ref_env True) f =
       Ok (SetCmd \<lparr>set_key = ''k'', set_value = ''v'', set_expire = Some 2000000\<rparr>)"
proof -
  let ?c = "\<lparr>set_key = ''k'', set_value = ''v'', set_expire = Some 2500000\<rparr>"
  let ?f = "Array (map Bulk (''set'' # set_args ?c))"
  have "requests (SetCmd ?c) ?f" by (simp add: set_into_frame_args)
  moreover have "wf_command (SetCmd ?c)" by (simp add: wf_set_def utf8_def as_millis_def)
  ultimately show ?thesis
    using command_roundtrip [OF ref_env_case ref_env_atoi, of "SetCmd ?c" ?f]
    by (auto simp: set_on_wire_def whole_millis_def as_millis_def)
qed

text \<open>No frame a peer can send makes the command parser panic.\<close>

theorem from_frame_never_panics: "from_frame E f \<noteq> Panic p"
  by (rule from_frame_no_panic)

end
