(* ===== verification/Db.thy ===== *)
theory Db
  imports Frame "HOL-Library.Product_Lexorder" "HOL-Library.List_Lexorder" "HOL-Library.Char_ord"
begin

text \<open>
  \<open>src/mini-redis/src/db.rs\<close>, the state shared by all connections: the entries, the pub/sub
  senders and the index of expirations behind one mutex, with the operations of \<open>Db\<close>, \<open>Shared\<close>
  and \<open>State\<close>. A panic inside a critical section poisons the mutex, so every operation returns
  its outcome together with the shared state it leaves behind. The background task that calls
  \<open>purge_expired_keys\<close> is in theory Purge\_Task.
\<close>

section \<open>State\<close>

record entry =
  data :: bytes
  expires_at :: "instant option"

text \<open>\<open>'tx\<close> is the sender handle of \<open>tokio::sync::broadcast\<close>.\<close>

record 'tx state =
  entries :: "bytes \<rightharpoonup> entry"
  pub_sub :: "bytes \<rightharpoonup> 'tx"
  expirations :: "(instant \<times> bytes) list"
  shutdown :: bool

record 'tx shared =
  state :: "'tx state"
  poisoned :: bool

text \<open>
  The operations of \<open>tokio::sync::broadcast\<close> that the sources call, on the state \<open>'w\<close> of all
  channels: \<open>channel\<close>, \<open>Sender::subscribe\<close> and \<open>Sender::send\<close> (\<open>None\<close> is a \<open>SendError\<close>).
\<close>

record ('w, 'tx, 'rx) broadcast =
  bc_channel :: "nat \<Rightarrow> 'w \<Rightarrow> 'tx \<times> 'rx \<times> 'w"
  bc_subscribe :: "'tx \<Rightarrow> 'w \<Rightarrow> 'rx \<times> 'w"
  bc_send :: "'tx \<Rightarrow> bytes \<Rightarrow> 'w \<Rightarrow> usize option \<times> 'w"

section \<open>The ordered set of expirations\<close>

text \<open>\<open>BTreeSet\<close> as the list of its elements in ascending order.\<close>

definition btree_insert :: "'a::linorder \<Rightarrow> 'a list \<Rightarrow> 'a list" where
  "btree_insert x xs = (if x \<in> set xs then xs else insort x xs)"

definition btree_remove :: "'a::linorder \<Rightarrow> 'a list \<Rightarrow> 'a list" where
  "btree_remove x xs = remove1 x xs"

definition btree_first :: "'a list \<Rightarrow> 'a option" where
  "btree_first xs = (case xs of [] \<Rightarrow> None | x # _ \<Rightarrow> Some x)"

definition btree :: "'a::linorder list \<Rightarrow> bool" where
  "btree xs \<longleftrightarrow> sorted xs \<and> distinct xs"

lemma btree_insert:
  "btree xs \<Longrightarrow> btree (btree_insert x xs)" "set (btree_insert x xs) = insert x (set xs)"
  by (auto simp: btree_def btree_insert_def sorted_insort distinct_insort set_insort_key)

lemma btree_remove:
  "btree xs \<Longrightarrow> btree (btree_remove x xs)" "btree xs \<Longrightarrow> set (btree_remove x xs) = set xs - {x}"
  by (auto simp: btree_def btree_remove_def sorted_remove1 set_remove1_eq)

lemma btree_first:
  "btree_first xs = None \<longleftrightarrow> xs = []"
  "btree xs \<Longrightarrow> btree_first xs = Some x \<Longrightarrow> x \<in> set xs \<and> (\<forall>y \<in> set xs. x \<le> y)"
  by (auto simp: btree_first_def btree_def split: list.splits)

section \<open>Operations\<close>

text \<open>
  \<open>self.state.lock().unwrap()\<close> and the code up to the release of the guard: a poisoned mutex
  panics, and a panic while the guard is held poisons it.
\<close>

definition with_lock ::
    "('tx state \<Rightarrow> ('a, crate_error) res \<times> 'tx state) \<Rightarrow> 'tx shared \<Rightarrow> ('a, crate_error) res \<times> 'tx shared" where
  "with_lock body sh =
     (if poisoned sh then (Panic PoisonedLock, sh)
      else case body (state sh) of
             (Panic p, st) \<Rightarrow> (Panic p, \<lparr>state = st, poisoned = True\<rparr>)
           | (r, st) \<Rightarrow> (r, \<lparr>state = st, poisoned = False\<rparr>))"

definition new_shared :: "'tx shared" where
  "new_shared =
     \<lparr>state = \<lparr>entries = Map.empty, pub_sub = Map.empty, expirations = [], shutdown = False\<rparr>,
      poisoned = False\<rparr>"

definition next_expiration :: "'tx state \<Rightarrow> instant option" where
  "next_expiration self = map_option fst (btree_first (expirations self))"

definition db_get :: "bytes \<Rightarrow> 'tx shared \<Rightarrow> (bytes option, crate_error) res \<times> 'tx shared" where
  "db_get key = with_lock (\<lambda>st. (Ok (map_option data (entries st key)), st))"

text \<open>
  The closure \<open>expire.map(...)\<close> of \<open>set\<close>: the instant of the expiration and the value of
  \<open>notify\<close>. \<open>now\<close> is what \<open>Instant::now()\<close> returns.
\<close>

definition expiry :: "instant \<Rightarrow> duration option \<Rightarrow> 'tx state \<Rightarrow> (instant option \<times> bool, crate_error) res" where
  "expiry now expire st =
     (case expire of
        None \<Rightarrow> Ok (None, False)
      | Some duration \<Rightarrow>
          and_then (instant_add now duration) (\<lambda>when.
            Ok (Some when,
                case next_expiration st of Some expiration \<Rightarrow> expiration > when | None \<Rightarrow> True)))"

text \<open>The three updates of \<open>set\<close>: insert the entry, clear the old expiration, track the new one.\<close>

definition put_entry :: "bytes \<Rightarrow> bytes \<Rightarrow> instant option \<Rightarrow> 'tx state \<Rightarrow> 'tx state" where
  "put_entry key val ea st =
     (let prev = entries st key;
          st = st\<lparr>entries := (entries st)(key \<mapsto> \<lparr>data = val, expires_at = ea\<rparr>)\<rparr>;
          st = (case prev of
                  None \<Rightarrow> st
                | Some prev \<Rightarrow>
                    (case expires_at prev of
                       None \<Rightarrow> st
                     | Some when \<Rightarrow> st\<lparr>expirations := btree_remove (when, key) (expirations st)\<rparr>))
      in case ea of
           None \<Rightarrow> st
         | Some when \<Rightarrow> st\<lparr>expirations := btree_insert (when, key) (expirations st)\<rparr>)"

text \<open>
  \<open>Db::set\<close> up to \<open>drop(state)\<close>; the result says whether \<open>notify_one\<close> is called after it.
\<close>

definition db_set ::
    "instant \<Rightarrow> bytes \<Rightarrow> bytes \<Rightarrow> duration option \<Rightarrow> 'tx shared \<Rightarrow> (bool, crate_error) res \<times> 'tx shared" where
  "db_set now key val expire =
     with_lock (\<lambda>st.
       case expiry now expire st of
         Ok (ea, notify) \<Rightarrow> (Ok notify, put_entry key val ea st)
       | Err e \<Rightarrow> (Err e, st)
       | Panic p \<Rightarrow> (Panic p, st))"

definition db_subscribe ::
    "('w, 'tx, 'rx) broadcast \<Rightarrow> bytes \<Rightarrow> 'tx shared \<times> 'w \<Rightarrow>
     ('rx, crate_error) res \<times> 'tx shared \<times> 'w" where
  "db_subscribe B key = (\<lambda>(sh, w).
     if poisoned sh then (Panic PoisonedLock, sh, w)
     else case pub_sub (state sh) key of
            Some tx \<Rightarrow> (let (rx, w) = bc_subscribe B tx w in (Ok rx, sh, w))
          | None \<Rightarrow>
              (let (tx, rx, w) = bc_channel B 1024 w in
               (Ok rx, sh\<lparr>state := (state sh)\<lparr>pub_sub := (pub_sub (state sh))(key \<mapsto> tx)\<rparr>\<rparr>, w)))"

definition db_publish ::
    "('w, 'tx, 'rx) broadcast \<Rightarrow> bytes \<Rightarrow> bytes \<Rightarrow> 'tx shared \<times> 'w \<Rightarrow>
     (usize, crate_error) res \<times> 'tx shared \<times> 'w" where
  "db_publish B key val = (\<lambda>(sh, w).
     if poisoned sh then (Panic PoisonedLock, sh, w)
     else case pub_sub (state sh) key of
            Some tx \<Rightarrow>
              (let (n, w) = bc_send B tx val w in
               (Ok (case n of Some n \<Rightarrow> n | None \<Rightarrow> 0), sh, w))
          | None \<Rightarrow> (Ok 0, sh, w))"

text \<open>\<open>shutdown_purge_task\<close> up to \<open>drop(state)\<close>; \<open>notify_one\<close> always follows.\<close>

definition db_shutdown :: "'tx shared \<Rightarrow> (unit, crate_error) res \<times> 'tx shared" where
  "db_shutdown = with_lock (\<lambda>st. (Ok (), st\<lparr>shutdown := True\<rparr>))"

definition is_shutdown :: "'tx shared \<Rightarrow> (bool, crate_error) res \<times> 'tx shared" where
  "is_shutdown = with_lock (\<lambda>st. (Ok (shutdown st), st))"

text \<open>The loop \<open>while let Some(&(when, ref key)) = state.expirations.iter().next()\<close>.\<close>

function purge_loop :: "instant \<Rightarrow> 'tx state \<Rightarrow> instant option \<times> 'tx state" where
  "purge_loop now st =
     (case btree_first (expirations st) of
        None \<Rightarrow> (None, st)
      | Some (when, key) \<Rightarrow>
          if when > now then (Some when, st)
          else purge_loop now
            (st\<lparr>entries := (entries st)(key := None),
                expirations := btree_remove (when, key) (expirations st)\<rparr>))"
  by pat_completeness auto
termination
proof (relation "measure (\<lambda>(now, st). length (expirations st))", goal_cases)
  case (2 now st a w k)
  then show ?case
    by (cases "expirations st") (auto simp: btree_first_def btree_remove_def)
qed simp

declare purge_loop.simps [simp del]

definition purge_expired_keys ::
    "instant \<Rightarrow> 'tx shared \<Rightarrow> (instant option, crate_error) res \<times> 'tx shared" where
  "purge_expired_keys now =
     with_lock (\<lambda>st. if shutdown st then (Ok None, st) else apfst Ok (purge_loop now st))"


section \<open>The invariant\<close>

text \<open>
  The index of expirations is an ordered set and holds exactly the pairs of an expiration time
  and a key that the entries have.
\<close>

definition db_inv :: "'tx state \<Rightarrow> bool" where
  "db_inv st \<longleftrightarrow> btree (expirations st) \<and>
     (\<forall>t k. (t, k) \<in> set (expirations st) \<longleftrightarrow> (\<exists>e. entries st k = Some e \<and> expires_at e = Some t))"

definition live_entry :: "instant \<Rightarrow> entry \<Rightarrow> bool" where
  "live_entry now e = (case expires_at e of Some t \<Rightarrow> now < t | None \<Rightarrow> True)"

definition unexpired :: "instant \<Rightarrow> (bytes \<rightharpoonup> entry) \<Rightarrow> bytes \<rightharpoonup> entry" where
  "unexpired now m = (\<lambda>k. case m k of
     Some e \<Rightarrow> if live_entry now e then Some e else None | None \<Rightarrow> None)"

lemma db_invI:
  assumes "btree (expirations st)"
    "\<And>t k. (t, k) \<in> set (expirations st) \<longleftrightarrow> (\<exists>e. entries st k = Some e \<and> expires_at e = Some t)"
  shows "db_inv st"
  using assms by (simp add: db_inv_def)

lemma db_invD:
  "db_inv st \<Longrightarrow> btree (expirations st)"
  "db_inv st \<Longrightarrow>
     (t, k) \<in> set (expirations st) \<longleftrightarrow> (\<exists>e. entries st k = Some e \<and> expires_at e = Some t)"
  by (simp_all add: db_inv_def)

lemma put_entry_simps [simp]:
  "entries (put_entry k v ea st) = (entries st)(k \<mapsto> \<lparr>data = v, expires_at = ea\<rparr>)"
  "pub_sub (put_entry k v ea st) = pub_sub st" "shutdown (put_entry k v ea st) = shutdown st"
  by (simp_all add: put_entry_def Let_def split: option.splits)

lemma put_entry_expirations:
  assumes "db_inv st"
  shows "btree (expirations (put_entry k v ea st))"
    and "set (expirations (put_entry k v ea st)) =
      {(t, k'). (t, k') \<in> set (expirations st) \<and> k' \<noteq> k} \<union> (case ea of Some t \<Rightarrow> {(t, k)} | None \<Rightarrow> {})"
proof -
  note inv = db_invD [OF assms]
  define cleared where "cleared = (case entries st k of
     None \<Rightarrow> expirations st
   | Some prev \<Rightarrow> (case expires_at prev of
       None \<Rightarrow> expirations st | Some w \<Rightarrow> btree_remove (w, k) (expirations st)))"
  have b: "btree cleared"
    using inv(1) by (auto simp: cleared_def btree_remove split: option.splits)
  have "set cleared = {(t, k'). (t, k') \<in> set (expirations st) \<and> k' \<noteq> k}"
    using inv by (auto simp: cleared_def btree_remove split: option.splits)
  moreover have "expirations (put_entry k v ea st) =
      (case ea of None \<Rightarrow> cleared | Some w \<Rightarrow> btree_insert (w, k) cleared)"
    by (simp add: put_entry_def cleared_def Let_def split: option.splits)
  ultimately show "btree (expirations (put_entry k v ea st))"
    "set (expirations (put_entry k v ea st)) =
      {(t, k'). (t, k') \<in> set (expirations st) \<and> k' \<noteq> k} \<union> (case ea of Some t \<Rightarrow> {(t, k)} | None \<Rightarrow> {})"
    using b by (auto simp: btree_insert split: option.splits)
qed

lemma put_entry_inv:
  assumes "db_inv st"
  shows "db_inv (put_entry k v ea st)"
proof (rule db_invI)
  show "btree (expirations (put_entry k v ea st))"
    by (rule put_entry_expirations(1) [OF assms])
next
  fix t k'
  show "(t, k') \<in> set (expirations (put_entry k v ea st)) \<longleftrightarrow>
      (\<exists>e. entries (put_entry k v ea st) k' = Some e \<and> expires_at e = Some t)"
    unfolding put_entry_expirations(2) [OF assms] using db_invD(2) [OF assms, of t k']
    by (auto split: option.splits)
qed

lemma next_expiration_None: "next_expiration st = None \<longleftrightarrow> expirations st = []"
  by (simp add: next_expiration_def btree_first)

lemma next_expiration_Some:
  assumes "btree (expirations st)" "next_expiration st = Some w"
  shows "\<exists>k. (w, k) \<in> set (expirations st)" and "\<And>t k. (t, k) \<in> set (expirations st) \<Longrightarrow> w \<le> t"
proof -
  obtain k where f: "btree_first (expirations st) = Some (w, k)"
    using assms(2) by (auto simp: next_expiration_def)
  note b = btree_first(2) [OF assms(1) f]
  from b show "\<exists>k. (w, k) \<in> set (expirations st)" by blast
  show "w \<le> t" if "(t, k') \<in> set (expirations st)" for t k'
  proof -
    from b that have "(w, k) \<le> (t, k')" by blast
    then show ?thesis by (auto simp: less_eq_prod_simp)
  qed
qed

text \<open>The loop removes the expired entries, all of them and nothing else.\<close>

lemma purge_loop_spec:
  "db_inv st \<Longrightarrow> purge_loop now st = (r, st') \<Longrightarrow>
     db_inv st' \<and> entries st' = unexpired now (entries st) \<and> r = next_expiration st' \<and>
     (\<forall>t k. (t, k) \<in> set (expirations st') \<longrightarrow> now < t) \<and>
     pub_sub st' = pub_sub st \<and> shutdown st' = shutdown st"
proof (induction now st rule: purge_loop.induct)
  case (1 now st)
  note inv = "1.prems"(1)
  have all_live: "unexpired now (entries st) = entries st"
    if later: "\<And>t k. (t, k) \<in> set (expirations st) \<Longrightarrow> now < t"
  proof
    fix k
    have "now < t" if "entries st k = Some e" "expires_at e = Some t" for e t
      using later [of t k] db_invD(2) [OF inv, of t k] that by blast
    then show "unexpired now (entries st) k = entries st k"
      by (auto simp: unexpired_def live_entry_def split: option.splits)
  qed
  show ?case
  proof (cases "btree_first (expirations st)")
    case None
    then have "purge_loop now st = (None, st)" by (simp add: purge_loop.simps)
    moreover from None have "expirations st = []" by (simp add: btree_first)
    ultimately show ?thesis using 1 all_live None by (simp add: next_expiration_def)
  next
    case (Some x)
    obtain w k where x: "x = (w, k)" by (cases x)
    have nx: "next_expiration st = Some w" using Some x by (simp add: next_expiration_def)
    note ns = next_expiration_Some [OF db_invD(1) [OF inv] nx]
    show ?thesis
    proof (cases "now < w")
      case True
      then have "now < t" if "(t, k) \<in> set (expirations st)" for t k
        using ns(2) [OF that] by simp
      moreover have "purge_loop now st = (Some w, st)"
        using Some x True by (subst purge_loop.simps) simp
      ultimately show ?thesis using 1 all_live nx by auto
    next
      case False
      let ?st = "st\<lparr>entries := (entries st)(k := None),
        expirations := btree_remove (w, k) (expirations st)\<rparr>"
      have step: "purge_loop now st = purge_loop now ?st"
        using Some x False by (subst purge_loop.simps) simp
      have "(w, k) \<in> set (expirations st)"
        using btree_first(2) [OF db_invD(1) [OF inv]] Some x by simp
      then obtain e where e: "entries st k = Some e" "expires_at e = Some w"
        using db_invD(2) [OF inv] by blast
      have "db_inv ?st"
        using db_invD [OF inv] e by (intro db_invI) (auto simp: btree_remove)
      moreover have "unexpired now (entries ?st) = unexpired now (entries st)"
        using e False by (intro ext) (simp add: unexpired_def live_entry_def)
      ultimately show ?thesis
        using "1.IH" [OF Some x [symmetric] False] "1.prems"(2) step
        by (simp add: fun_upd_def)
    qed
  qed
qed


section \<open>The contract of a store with expirations\<close>

datatype store_event = Put bytes bytes "instant option" | Sweep instant

text \<open>Events that leave the entry \<open>e\<close> of key \<open>k\<close> alone.\<close>

fun spares :: "bytes \<Rightarrow> entry \<Rightarrow> store_event \<Rightarrow> bool" where
  "spares k e (Put k' v t) = (k' \<noteq> k)"
| "spares k e (Sweep now) = live_entry now e"

locale ttl_store =
  fixes inv :: "'s \<Rightarrow> bool"
    and view :: "'s \<Rightarrow> bytes \<rightharpoonup> entry"
    and insert_entry :: "bytes \<Rightarrow> bytes \<Rightarrow> instant option \<Rightarrow> 's \<Rightarrow> 's"
    and sweep :: "instant \<Rightarrow> 's \<Rightarrow> instant option \<times> 's"
  assumes insert_inv: "inv s \<Longrightarrow> inv (insert_entry k v t s)"
    and insert_view: "view (insert_entry k v t s) = (view s)(k \<mapsto> \<lparr>data = v, expires_at = t\<rparr>)"
    and sweep_inv: "inv s \<Longrightarrow> inv (snd (sweep now s))"
    and sweep_view: "inv s \<Longrightarrow> view (snd (sweep now s)) = unexpired now (view s)"
    and sweep_next: "inv s \<Longrightarrow> sweep now s = (Some w, s') \<Longrightarrow> view s' k = Some e \<Longrightarrow>
      expires_at e = Some w' \<Longrightarrow> w \<le> w'"
    and sweep_last: "inv s \<Longrightarrow> sweep now s = (None, s') \<Longrightarrow> view s' k = Some e \<Longrightarrow>
      expires_at e = None"
begin

fun store_step :: "store_event \<Rightarrow> 's \<Rightarrow> 's" where
  "store_step (Put k v t) s = insert_entry k v t s"
| "store_step (Sweep now) s = snd (sweep now s)"

lemma step_inv: "inv s \<Longrightarrow> inv (store_step ev s)"
  by (cases ev) (simp_all add: insert_inv sweep_inv)

lemma step_spares:
  "inv s \<Longrightarrow> view s k = Some e \<Longrightarrow> spares k e ev \<Longrightarrow> view (store_step ev s) k = Some e"
  by (cases ev) (simp_all add: insert_view sweep_view unexpired_def)

text \<open>An entry stays until it is overwritten or a sweep happens at or after its expiration.\<close>

lemma entry_survives:
  "inv s \<Longrightarrow> view s k = Some e \<Longrightarrow> list_all (spares k e) evs \<Longrightarrow>
     view (fold store_step evs s) k = Some e"
  by (induction evs arbitrary: s) (simp_all add: step_inv step_spares)

lemma swept_gone: "inv s \<Longrightarrow> view (snd (sweep now s)) k = Some e \<Longrightarrow> live_entry now e"
  by (auto simp: sweep_view unexpired_def split: option.splits if_splits)

text \<open>Until the instant a sweep returns, sweeping again would change nothing.\<close>

lemma sweep_quiet:
  assumes "inv s" "sweep now s = (r, s')" "\<And>w. r = Some w \<Longrightarrow> later < w"
  shows "view (snd (sweep later s')) = view s'"
proof -
  have s': "inv s'" using sweep_inv [OF assms(1), of now] assms(2) by simp
  have "live_entry later e" if "view s' k = Some e" for k e
  proof (cases r)
    case None
    with sweep_last [OF assms(1)] assms(2) that show ?thesis by (simp add: live_entry_def)
  next
    case (Some w)
    with sweep_next [OF assms(1), of now w s' k e] assms(2,3) that show ?thesis
      by (auto simp: live_entry_def split: option.splits dest: less_le_trans)
  qed
  then show ?thesis
    unfolding sweep_view [OF s'] by (intro ext) (auto simp: unexpired_def split: option.splits)
qed

end

interpretation store: ttl_store db_inv entries put_entry purge_loop
proof (unfold_locales, goal_cases)
  case (1 s k v t)
  then show ?case by (rule put_entry_inv)
next
  case (2 k v t s)
  then show ?case by simp
next
  case (3 s now)
  then show ?case by (cases "purge_loop now s") (simp add: purge_loop_spec)
next
  case (4 s now)
  then show ?case by (cases "purge_loop now s") (simp add: purge_loop_spec)
next
  case (5 s now w s' k e t)
  note p = purge_loop_spec [OF 5(1,2)]
  with 5 have "(t, k) \<in> set (expirations s')" using db_invD(2) [of s' t k] by simp
  with p next_expiration_Some(2) [of s' w t k] db_invD(1) [of s'] show ?case by simp
next
  case (6 s now s' k e)
  note p = purge_loop_spec [OF 6(1,2)]
  then have "expirations s' = []" by (simp add: next_expiration_None [symmetric])
  with p 6 db_invD(2) [of s' _ k] show ?case by (cases "expires_at e") auto
qed

section \<open>Sequences of operations\<close>

text \<open>The operations the tasks of the server perform on the shared state, in any order.\<close>

datatype db_op =
    OpGet bytes
  | OpSet instant bytes bytes "duration option"
  | OpSubscribe bytes
  | OpPublish bytes bytes
  | OpShutdown
  | OpIsShutdown
  | OpPurge instant

fun db_step :: "('w, 'tx, 'rx) broadcast \<Rightarrow> db_op \<Rightarrow> 'tx shared \<times> 'w \<Rightarrow> 'tx shared \<times> 'w" where
  "db_step B (OpGet k) (sh, w) = (snd (db_get k sh), w)"
| "db_step B (OpSet now k v e) (sh, w) = (snd (db_set now k v e sh), w)"
| "db_step B (OpSubscribe k) s = snd (db_subscribe B k s)"
| "db_step B (OpPublish k v) s = snd (db_publish B k v s)"
| "db_step B OpShutdown (sh, w) = (snd (db_shutdown sh), w)"
| "db_step B OpIsShutdown (sh, w) = (snd (is_shutdown sh), w)"
| "db_step B (OpPurge now) (sh, w) = (snd (purge_expired_keys now sh), w)"

lemma with_lock_state:
  "(\<And>st. P st \<Longrightarrow> P (snd (body st))) \<Longrightarrow> P (state sh) \<Longrightarrow> P (state (snd (with_lock body sh)))"
  by (auto simp: with_lock_def split: prod.splits res.splits) (metis snd_conv)+

lemma with_lock_poisoned: "poisoned sh \<Longrightarrow> with_lock body sh = (Panic PoisonedLock, sh)"
  by (simp add: with_lock_def)

lemma with_lock_Ok:
  "\<not> poisoned sh \<Longrightarrow> body (state sh) = (Ok a, st) \<Longrightarrow>
     with_lock body sh = (Ok a, \<lparr>state = st, poisoned = False\<rparr>)"
  by (simp add: with_lock_def)

lemma db_inv_update [simp]:
  "db_inv (st\<lparr>pub_sub := m\<rparr>) = db_inv st" "db_inv (st\<lparr>shutdown := b\<rparr>) = db_inv st"
  by (simp_all add: db_inv_def)

lemma db_set_inv: "db_inv (state sh) \<Longrightarrow> db_inv (state (snd (db_set now k v e sh)))"
  unfolding db_set_def by (rule with_lock_state) (auto simp: put_entry_inv split: res.splits)

lemma purge_expired_keys_inv:
  "db_inv (state sh) \<Longrightarrow> db_inv (state (snd (purge_expired_keys now sh)))"
  unfolding purge_expired_keys_def by (rule with_lock_state) (auto simp: store.sweep_inv)

lemma db_step_inv: "db_inv (state (fst s)) \<Longrightarrow> db_inv (state (fst (db_step B op s)))"
proof (cases s)
  case (Pair sh w)
  assume inv: "db_inv (state (fst s))"
  show ?thesis
  proof (cases op)
    case (OpGet k)
    with inv Pair show ?thesis by (auto simp: db_get_def intro: with_lock_state [of db_inv])
  next
    case (OpSet now k v e)
    with inv Pair show ?thesis by (simp add: db_set_inv)
  next
    case (OpSubscribe k)
    with inv Pair show ?thesis
      by (auto simp: db_subscribe_def split: option.splits prod.splits)
  next
    case (OpPublish k v)
    with inv Pair show ?thesis by (auto simp: db_publish_def split: option.splits prod.splits)
  next
    case OpShutdown
    with inv Pair show ?thesis
      by (auto simp: db_shutdown_def intro: with_lock_state [of db_inv])
  next
    case OpIsShutdown
    with inv Pair show ?thesis by (auto simp: is_shutdown_def intro: with_lock_state [of db_inv])
  next
    case (OpPurge now)
    with inv Pair show ?thesis by (simp add: purge_expired_keys_inv)
  qed
qed

lemma new_shared_inv: "db_inv (state new_shared)"
  by (simp add: new_shared_def db_inv_def btree_def)

lemma db_fold_inv:
  "db_inv (state (fst s)) \<Longrightarrow> db_inv (state (fst (fold (db_step B) ops s)))"
  by (induction ops arbitrary: s) (simp_all add: db_step_inv)


section \<open>Outcomes of the operations\<close>

text \<open>A set whose expiration is representable; the task is told exactly when it is the earliest.\<close>

lemma db_set_timed:
  assumes "\<not> poisoned sh" "now + d < instant_limit"
  shows "db_set now k v (Some d) sh =
    (Ok (case next_expiration (state sh) of Some w \<Rightarrow> now + d < w | None \<Rightarrow> True),
     \<lparr>state = put_entry k v (Some (now + d)) (state sh), poisoned = False\<rparr>)"
  using assms by (auto simp: db_set_def with_lock_def expiry_def instant_add_def)

lemma db_set_plain:
  "\<not> poisoned sh \<Longrightarrow> db_set now k v None sh =
     (Ok False, \<lparr>state = put_entry k v None (state sh), poisoned = False\<rparr>)"
  by (auto simp: db_set_def with_lock_def expiry_def)

lemma db_set_overflow:
  "\<not> poisoned sh \<Longrightarrow> instant_limit \<le> now + d \<Longrightarrow> db_set now k v (Some d) sh =
     (Panic InstantOverflow, \<lparr>state = state sh, poisoned = True\<rparr>)"
  by (auto simp: db_set_def with_lock_def expiry_def instant_add_def)

lemma db_get_Ok:
  "\<not> poisoned sh \<Longrightarrow> db_get k sh = (Ok (map_option data (entries (state sh) k)), sh)"
  by (simp add: db_get_def with_lock_def)

text \<open>The cases of a set: which result it has and what it leaves.\<close>

lemma db_set_cases [consumes 1, case_names stored overflow poisoned]:
  assumes "db_set now k v e sh = (r, sh')"
  obtains ea n where "\<not> poisoned sh" "r = Ok n" "ea = map_option (\<lambda>d. now + d) e"
      "n = (case ea of None \<Rightarrow> False | Some t \<Rightarrow>
         (case next_expiration (state sh) of Some w \<Rightarrow> t < w | None \<Rightarrow> True))"
      "sh' = \<lparr>state = put_entry k v ea (state sh), poisoned = False\<rparr>"
  | "\<not> poisoned sh" "r = Panic InstantOverflow" "sh' = \<lparr>state = state sh, poisoned = True\<rparr>"
  | "poisoned sh" "r = Panic PoisonedLock" "sh' = sh"
proof (cases "poisoned sh")
  case True
  with assms show thesis by (intro that(3)) (simp_all add: db_set_def with_lock_poisoned)
next
  case False
  show thesis
  proof (cases e)
    case None
    with assms False show thesis by (intro that(1) [of False None]) (simp_all add: db_set_plain)
  next
    case (Some d)
    show thesis
    proof (cases "now + d < instant_limit")
      case True
      with assms False Some show thesis
        by (intro that(1) [of _ "Some (now + d)"]) (simp_all add: db_set_timed)
    next
      case over: False
      with assms False Some show thesis by (intro that(2)) (simp_all add: db_set_overflow)
    qed
  qed
qed

lemma purge_expired_keys_Ok:
  assumes "\<not> poisoned sh" "db_inv (state sh)" "\<not> shutdown (state sh)"
    "purge_expired_keys now sh = (r, sh')"
  shows "r = Ok (next_expiration (state sh')) \<and> \<not> poisoned sh' \<and> db_inv (state sh') \<and>
    entries (state sh') = unexpired now (entries (state sh)) \<and> \<not> shutdown (state sh') \<and>
    pub_sub (state sh') = pub_sub (state sh)"
proof -
  obtain w st where p: "purge_loop now (state sh) = (w, st)" by (cases "purge_loop now (state sh)")
  with assms have "r = Ok w" "sh' = \<lparr>state = st, poisoned = False\<rparr>"
    by (simp_all add: purge_expired_keys_def with_lock_def)
  with purge_loop_spec [OF assms(2) p] assms(3) show ?thesis by simp
qed

lemma purge_expired_keys_shutdown:
  "\<not> poisoned sh \<Longrightarrow> shutdown (state sh) \<Longrightarrow> purge_expired_keys now sh = (Ok None, sh)"
  by (simp add: purge_expired_keys_def with_lock_def)

lemma purge_loop_flag: "shutdown (snd (purge_loop now st)) = shutdown st"
proof (induction now st rule: purge_loop.induct)
  case (1 now st)
  show ?case
  proof (cases "btree_first (expirations st)")
    case None
    then show ?thesis by (simp add: purge_loop.simps)
  next
    case (Some x)
    then show ?thesis using 1 [OF Some] by (cases x) (simp add: purge_loop.simps [of now st])
  qed
qed

lemma purge_expired_keys_flag:
  "shutdown (state (snd (purge_expired_keys now sh))) = shutdown (state sh)"
proof (cases "poisoned sh \<or> shutdown (state sh)")
  case True
  then show ?thesis by (auto simp: purge_expired_keys_def with_lock_def)
next
  case False
  with purge_loop_flag [of now "state sh"] show ?thesis
    by (cases "purge_loop now (state sh)") (simp add: purge_expired_keys_def with_lock_def)
qed

lemma poisoned_operations:
  assumes "poisoned sh"
  shows "db_get k sh = (Panic PoisonedLock, sh)"
    "db_set now k v e sh = (Panic PoisonedLock, sh)"
    "db_subscribe B k (sh, w) = (Panic PoisonedLock, sh, w)"
    "db_publish B k v (sh, w) = (Panic PoisonedLock, sh, w)"
    "db_shutdown sh = (Panic PoisonedLock, sh)"
    "is_shutdown sh = (Panic PoisonedLock, sh)"
    "purge_expired_keys now sh = (Panic PoisonedLock, sh)"
  using assms
  by (simp_all add: db_get_def db_set_def db_subscribe_def db_publish_def db_shutdown_def
      is_shutdown_def purge_expired_keys_def with_lock_poisoned)

lemma poisoned_forever:
  "poisoned (fst s) \<Longrightarrow> fold (db_step B) ops s = s"
proof (induction ops)
  case (Cons op ops)
  then have "db_step B op s = s"
    by (cases s; cases op) (simp_all add: poisoned_operations)
  with Cons show ?case by simp
qed simp


section \<open>Who hears a message\<close>

text \<open>
  What the repository relies on in \<open>tokio::sync::broadcast\<close>: a new channel is distinct from the
  existing ones and has one receiver, subscribing adds one receiver to that channel only, and
  sending returns the number of receivers, or fails when there is none.
\<close>

definition broadcast_counts ::
    "('w, 'tx, 'rx) broadcast \<Rightarrow> ('w \<Rightarrow> 'tx \<Rightarrow> nat) \<Rightarrow> ('w \<Rightarrow> 'tx set) \<Rightarrow> bool" where
  "broadcast_counts B cnt alloc \<longleftrightarrow>
     (\<forall>n w tx rx w'. bc_channel B n w = (tx, rx, w') \<longrightarrow> tx \<notin> alloc w \<and>
        alloc w' = insert tx (alloc w) \<and> cnt w' tx = 1 \<and> (\<forall>x \<in> alloc w. cnt w' x = cnt w x)) \<and>
     (\<forall>tx w rx w'. tx \<in> alloc w \<longrightarrow> bc_subscribe B tx w = (rx, w') \<longrightarrow> alloc w' = alloc w \<and>
        cnt w' tx = cnt w tx + 1 \<and> (\<forall>x. x \<noteq> tx \<longrightarrow> cnt w' x = cnt w x)) \<and>
     (\<forall>tx v w n w'. tx \<in> alloc w \<longrightarrow> bc_send B tx v w = (n, w') \<longrightarrow> alloc w' = alloc w \<and>
        cnt w' = cnt w \<and> n = (if cnt w tx = 0 then None else Some (of_nat (cnt w tx))))"

lemma broadcast_countsD:
  assumes "broadcast_counts B cnt alloc"
  shows "bc_channel B n w = (tx, rx, w') \<Longrightarrow> tx \<notin> alloc w \<and>
      alloc w' = insert tx (alloc w) \<and> cnt w' tx = 1 \<and> (\<forall>x \<in> alloc w. cnt w' x = cnt w x)"
    and "tx \<in> alloc w \<Longrightarrow> bc_subscribe B tx w = (rx, w') \<Longrightarrow> alloc w' = alloc w \<and>
      cnt w' tx = cnt w tx + 1 \<and> (\<forall>x. x \<noteq> tx \<longrightarrow> cnt w' x = cnt w x)"
    and "tx \<in> alloc w \<Longrightarrow> bc_send B tx v w = (m, w') \<Longrightarrow> alloc w' = alloc w \<and>
      cnt w' = cnt w \<and> m = (if cnt w tx = 0 then None else Some (of_nat (cnt w tx)))"
proof -
  note law = assms [unfolded broadcast_counts_def]
  show "bc_channel B n w = (tx, rx, w') \<Longrightarrow> tx \<notin> alloc w \<and>
      alloc w' = insert tx (alloc w) \<and> cnt w' tx = 1 \<and> (\<forall>x \<in> alloc w. cnt w' x = cnt w x)"
    by (rule law [THEN conjunct1, THEN spec, THEN spec, THEN spec, THEN spec, THEN spec, THEN mp])
  show "tx \<in> alloc w \<Longrightarrow> bc_subscribe B tx w = (rx, w') \<Longrightarrow> alloc w' = alloc w \<and>
      cnt w' tx = cnt w tx + 1 \<and> (\<forall>x. x \<noteq> tx \<longrightarrow> cnt w' x = cnt w x)"
    by (rule law [THEN conjunct2, THEN conjunct1, THEN spec, THEN spec, THEN spec, THEN spec, THEN mp, THEN mp])
  show "tx \<in> alloc w \<Longrightarrow> bc_send B tx v w = (m, w') \<Longrightarrow> alloc w' = alloc w \<and>
      cnt w' = cnt w \<and> m = (if cnt w tx = 0 then None else Some (of_nat (cnt w tx)))"
    by (rule law [THEN conjunct2, THEN conjunct2, THEN spec, THEN spec, THEN spec, THEN spec, THEN spec,
          THEN mp, THEN mp])
qed

text \<open>The receivers of a channel name, and that different names never share a sender.\<close>

definition subscribers :: "('w \<Rightarrow> 'tx \<Rightarrow> nat) \<Rightarrow> 'tx shared \<times> 'w \<Rightarrow> bytes \<Rightarrow> nat" where
  "subscribers cnt s k = (case pub_sub (state (fst s)) k of None \<Rightarrow> 0 | Some tx \<Rightarrow> cnt (snd s) tx)"

definition pub_inv :: "('w \<Rightarrow> 'tx set) \<Rightarrow> 'tx shared \<times> 'w \<Rightarrow> bool" where
  "pub_inv alloc s \<longleftrightarrow>
     (\<forall>k tx. pub_sub (state (fst s)) k = Some tx \<longrightarrow> tx \<in> alloc (snd s)) \<and>
     (\<forall>k k' tx. pub_sub (state (fst s)) k = Some tx \<longrightarrow> pub_sub (state (fst s)) k' = Some tx \<longrightarrow> k = k')"

lemma db_subscribe_counts:
  assumes B: "broadcast_counts B cnt alloc" and inv: "pub_inv alloc s" and ok: "\<not> poisoned (fst s)"
    and sub: "db_subscribe B k s = (r, s')"
  shows "(\<exists>rx. r = Ok rx) \<and> pub_inv alloc s' \<and> subscribers cnt s' k = subscribers cnt s k + 1 \<and>
    (\<forall>k'. k' \<noteq> k \<longrightarrow> subscribers cnt s' k' = subscribers cnt s k')"
proof (cases "pub_sub (state (fst s)) k")
  case None
  obtain tx rx w' where c: "bc_channel B 1024 (snd s) = (tx, rx, w')" using prod_cases3 by blast
  have s': "r = Ok rx" "snd s' = w'" "pub_sub (state (fst s')) = (pub_sub (state (fst s)))(k \<mapsto> tx)"
    using sub ok None c by (auto simp: db_subscribe_def split: prod.splits)
  note b = broadcast_countsD(1) [OF B c]
  have "pub_inv alloc s'"
    unfolding pub_inv_def s' using inv b by (auto simp: pub_inv_def split: if_splits)
  moreover have "subscribers cnt s' k = subscribers cnt s k + 1"
    using s' b None by (simp add: subscribers_def)
  moreover have "subscribers cnt s' k' = subscribers cnt s k'" if "k' \<noteq> k" for k'
    using s' b inv that by (auto simp: subscribers_def pub_inv_def split: option.splits)
  ultimately show ?thesis using s' by simp
next
  case (Some tx)
  obtain rx w' where c: "bc_subscribe B tx (snd s) = (rx, w')" by fastforce
  have s': "r = Ok rx" "snd s' = w'" "pub_sub (state (fst s')) = pub_sub (state (fst s))"
    using sub ok Some c by (auto simp: db_subscribe_def split: prod.splits)
  have "tx \<in> alloc (snd s)" using inv Some by (simp add: pub_inv_def)
  note b = broadcast_countsD(2) [OF B this c]
  have other: "k' = k" if "pub_sub (state (fst s)) k' = Some tx" for k'
    using inv Some that unfolding pub_inv_def by blast
  have "pub_inv alloc s'" unfolding pub_inv_def s' using inv b by (simp add: pub_inv_def)
  moreover have "subscribers cnt s' k = subscribers cnt s k + 1"
    using s' b Some by (simp add: subscribers_def)
  moreover have "subscribers cnt s' k' = subscribers cnt s k'" if "k' \<noteq> k" for k'
  proof (cases "pub_sub (state (fst s)) k'")
    case (Some x)
    with other [of k'] that have "x \<noteq> tx" by auto
    with Some s' b show ?thesis by (simp add: subscribers_def)
  qed (simp add: subscribers_def s')
  ultimately show ?thesis using s' by simp
qed

lemma db_publish_counts:
  assumes B: "broadcast_counts B cnt alloc" and inv: "pub_inv alloc s" and ok: "\<not> poisoned (fst s)"
    and pub: "db_publish B k v s = (r, s')"
  shows "r = Ok (of_nat (subscribers cnt s k)) \<and> pub_inv alloc s' \<and> subscribers cnt s' = subscribers cnt s"
proof (cases "pub_sub (state (fst s)) k")
  case None
  with pub ok inv show ?thesis by (auto simp: db_publish_def subscribers_def split: prod.splits)
next
  case (Some tx)
  obtain n w' where c: "bc_send B tx v (snd s) = (n, w')" by fastforce
  have "tx \<in> alloc (snd s)" using inv Some by (simp add: pub_inv_def)
  note b = broadcast_countsD(3) [OF B this c]
  have s': "s' = (fst s, w')" "r = Ok (case n of Some n \<Rightarrow> n | None \<Rightarrow> 0)"
    using pub ok Some c by (auto simp: db_publish_def split: prod.splits)
  show ?thesis
    using s' b Some inv by (auto simp: pub_inv_def subscribers_def fun_eq_iff split: option.splits)
qed

text \<open>A concrete broadcast: channels are numbered and the state is the list of receiver counts.\<close>

definition ref_broadcast :: "(nat list, nat, nat) broadcast" where
  "ref_broadcast =
     \<lparr>bc_channel = (\<lambda>n w. (length w, length w, w @ [1])),
      bc_subscribe = (\<lambda>tx w. (tx, w[tx := w ! tx + 1])),
      bc_send = (\<lambda>tx v w. (if w ! tx = 0 then None else Some (of_nat (w ! tx)), w))\<rparr>"

lemma ref_broadcast_counts: "broadcast_counts ref_broadcast (\<lambda>w tx. w ! tx) (\<lambda>w. {..<length w})"
  unfolding broadcast_counts_def ref_broadcast_def by (auto simp: nth_append)

section \<open>Properties\<close>

text \<open>
  C6: in every sequence of operations from the empty database, with any times, any panics and any
  pub/sub library, the index of expirations holds exactly the expirations of the entries: no
  leaked and no missing timer.
\<close>

theorem expirations_consistent: "db_inv (state (fst (fold (db_step B) ops (new_shared, w))))"
  by (rule db_fold_inv) (simp add: new_shared_inv)

text \<open>Operations that neither set key \<open>k\<close> nor purge at or after \<open>t\<close>.\<close>

fun keeps :: "bytes \<Rightarrow> instant option \<Rightarrow> db_op \<Rightarrow> bool" where
  "keeps k t (OpSet now k' v e) \<longleftrightarrow> k' \<noteq> k"
| "keeps k t (OpPurge now) = (case t of Some t \<Rightarrow> now < t | None \<Rightarrow> True)"
| "keeps k t _ = True"

text \<open>A set whose expiration lies beyond the range of the clock.\<close>

fun overflows :: "db_op \<Rightarrow> bool" where
  "overflows (OpSet now k v (Some d)) \<longleftrightarrow> instant_limit \<le> now + d"
| "overflows _ = False"

lemma keeps_step:
  assumes "db_inv (state (fst s))" "\<not> poisoned (fst s)" "entries (state (fst s)) k = Some e"
    and "keeps k (expires_at e) op" "\<not> overflows op"
  shows "\<not> poisoned (fst (db_step B op s)) \<and> entries (state (fst (db_step B op s))) k = Some e"
proof (cases s)
  case (Pair sh w)
  show ?thesis
  proof (cases op)
    case (OpSet now k' v x)
    with assms Pair show ?thesis by (cases x) (auto simp: db_set_plain db_set_timed)
  next
    case (OpPurge now)
    with assms Pair have "spares k e (Sweep now)" by (simp add: live_entry_def)
    with store.step_spares [of "state sh" k e "Sweep now"] assms Pair OpPurge show ?thesis
      by (cases "purge_loop now (state sh)") (simp add: purge_expired_keys_def with_lock_def)
  next
    case (OpSubscribe k')
    with assms Pair show ?thesis
      by (auto simp: db_subscribe_def split: option.splits prod.splits)
  next
    case (OpPublish k' v)
    with assms Pair show ?thesis by (auto simp: db_publish_def split: option.splits prod.splits)
  qed (use assms Pair in \<open>simp_all add: db_get_def db_shutdown_def is_shutdown_def with_lock_def\<close>)
qed

lemma overflow_step: "\<not> poisoned (fst s) \<Longrightarrow> overflows op \<Longrightarrow> poisoned (fst (db_step B op s))"
  by (cases s; cases op rule: overflows.cases) (auto simp: db_set_overflow)

lemma get_after:
  "db_inv (state (fst s)) \<Longrightarrow> \<not> poisoned (fst s) \<Longrightarrow> entries (state (fst s)) k = Some e \<Longrightarrow>
     list_all (keeps k (expires_at e)) ops \<Longrightarrow>
     fst (db_get k (fst (fold (db_step B) ops s))) =
       (if list_ex overflows ops then Panic PoisonedLock else Ok (Some (data e)))"
proof (induction ops arbitrary: s)
  case (Cons op ops)
  show ?case
  proof (cases "overflows op")
    case True
    with overflow_step [OF Cons.prems(2) True, of B] show ?thesis
      by (simp add: poisoned_forever poisoned_operations)
  next
    case False
    with Cons.prems have "\<not> poisoned (fst (db_step B op s)) \<and> entries (state (fst (db_step B op s))) k = Some e"
      by (intro keeps_step) simp_all
    with Cons.IH [of "db_step B op s"] Cons.prems False show ?thesis by (simp add: db_step_inv)
  qed
qed (simp add: db_get_Ok)

text \<open>
  C30: a value that was set, with an expiration or without, is what a get returns after any operations
  that do not set the key again and do not purge at or after its expiration; the one exception
  is a set of another key whose expiration overflows the clock, after which every get panics on the poisoned
  mutex.
\<close>

theorem get_returns_last_set:
  assumes "db_inv (state sh)" "\<not> poisoned sh" "case e of Some d \<Rightarrow> now + d < instant_limit | None \<Rightarrow> True"
    and "list_all (keeps k (map_option (\<lambda>d. now + d) e)) ops"
  shows "fst (db_get k (fst (fold (db_step B) ops (snd (db_set now k v e sh), w)))) =
    (if list_ex overflows ops then Panic PoisonedLock else Ok (Some v))"
proof -
  let ?s = "(snd (db_set now k v e sh), w)"
  have "db_inv (state (fst ?s))" "\<not> poisoned (fst ?s)"
    "entries (state (fst ?s)) k = Some \<lparr>data = v, expires_at = map_option (\<lambda>d. now + d) e\<rparr>"
    using assms(1-3) by (cases e; simp add: db_set_timed db_set_plain put_entry_inv)+
  from get_after [OF this, of ops B] assms(4) show ?thesis by simp
qed

theorem get_returns_last_set_witness:
  "fst (db_get ''a'' (fst (fold (db_step ref_broadcast)
     [OpSet 1 ''b'' ''y'' (Some 3), OpPurge 9, OpSubscribe ''c'', OpPurge 10]
     (snd (db_set 1 ''a'' ''x'' (Some 10) new_shared), [])))) = Ok (Some ''x'')"
  using get_returns_last_set [where sh = new_shared and e = "Some 10" and now = 1 and k = "''a''" and v = "''x''" and w = "[]"
      and ops = "[OpSet 1 ''b'' ''y'' (Some 3), OpPurge 9, OpSubscribe ''c'', OpPurge 10]" and B = ref_broadcast]
  by (simp add: new_shared_inv instant_limit_def) (simp add: new_shared_def)

text \<open>
  A purge removes every entry whose expiration is at or before \<open>now\<close> and nothing else, and
  returns the earliest expiration that is left (none when no entry expires).
\<close>

theorem purge_exact:
  assumes "db_inv (state sh)" "\<not> poisoned sh" "\<not> shutdown (state sh)"
  shows "\<exists>r sh'. purge_expired_keys now sh = (Ok r, sh') \<and>
    entries (state sh') = unexpired now (entries (state sh)) \<and> pub_sub (state sh') = pub_sub (state sh) \<and>
    (case r of
       None \<Rightarrow> \<forall>k e. entries (state sh') k = Some e \<longrightarrow> expires_at e = None
     | Some t \<Rightarrow> now < t \<and> (\<exists>k e. entries (state sh') k = Some e \<and> expires_at e = Some t) \<and>
         (\<forall>k e u. entries (state sh') k = Some e \<longrightarrow> expires_at e = Some u \<longrightarrow> t \<le> u))"
proof -
  obtain r st where p: "purge_loop now (state sh) = (r, st)" by (cases "purge_loop now (state sh)")
  note sp = purge_loop_spec [OF assms(1) p]
  have "case r of None \<Rightarrow> \<forall>k e. entries st k = Some e \<longrightarrow> expires_at e = None
     | Some t \<Rightarrow> now < t \<and> (\<exists>k e. entries st k = Some e \<and> expires_at e = Some t) \<and>
         (\<forall>k e u. entries st k = Some e \<longrightarrow> expires_at e = Some u \<longrightarrow> t \<le> u)"
  proof (cases r)
    case None
    with store.sweep_last [OF assms(1)] p show ?thesis by auto
  next
    case (Some t)
    obtain k where k: "(t, k) \<in> set (expirations st)"
      using sp Some next_expiration_Some(1) [OF db_invD(1), of st t] by auto
    then have "now < t" "\<exists>e. entries st k = Some e \<and> expires_at e = Some t"
      using sp db_invD(2) [of st t k] by auto
    with Some store.sweep_next [OF assms(1), of now t st] p show ?thesis by auto
  qed
  moreover have "purge_expired_keys now sh = (Ok r, \<lparr>state = st, poisoned = False\<rparr>)"
    using assms p by (simp add: purge_expired_keys_def with_lock_def)
  moreover from sp have "entries st = unexpired now (entries (state sh))" "pub_sub st = pub_sub (state sh)"
    by simp_all
  ultimately show ?thesis
    by (intro exI [of _ r] exI [of _ "\<lparr>state = st, poisoned = False\<rparr>"]) (cases r; simp)
qed

theorem purge_exact_witness:
  "\<exists>r sh'. purge_expired_keys 5 (snd (db_set 0 ''a'' ''x'' (Some 5) (new_shared :: nat shared))) = (Ok r, sh') \<and>
     entries (state sh') = (\<lambda>k. None) \<and> r = None"
proof -
  let ?sh = "snd (db_set 0 ''a'' ''x'' (Some 5) (new_shared :: nat shared))"
  have sh: "?sh = \<lparr>state = put_entry ''a'' ''x'' (Some 5) (state new_shared), poisoned = False\<rparr>"
    by (subst db_set_timed) (simp_all add: new_shared_def instant_limit_def)
  have "unexpired 5 (entries (state ?sh)) = (\<lambda>k. None)"
    unfolding sh by (rule ext) (simp add: new_shared_def unexpired_def live_entry_def)
  moreover have "db_inv (state ?sh)" "\<not> poisoned ?sh" "\<not> shutdown (state ?sh)"
    unfolding sh by (simp_all add: put_entry_inv new_shared_inv) (simp add: new_shared_def)
  ultimately obtain r sh' where "purge_expired_keys 5 ?sh = (Ok r, sh')" "entries (state sh') = (\<lambda>k. None)"
    "case r of None \<Rightarrow> True | Some t \<Rightarrow> \<exists>k e. entries (state sh') k = Some e"
    using purge_exact [of ?sh 5] by (auto split: option.splits)
  then show ?thesis by (cases r) auto
qed

text \<open>
  Sleeping until the instant a purge returned misses nothing: at every earlier time another purge
  would leave all entries as they are.
\<close>

theorem purge_quiet_until_next:
  assumes "db_inv (state sh)" "\<not> poisoned sh" "purge_expired_keys now sh = (Ok r, sh')"
    and "\<not> shutdown (state sh)" "case r of Some t \<Rightarrow> later < t | None \<Rightarrow> True"
  shows "entries (state (snd (purge_expired_keys later sh'))) = entries (state sh')"
proof -
  obtain st where p: "purge_loop now (state sh) = (r, st)" "sh' = \<lparr>state = st, poisoned = False\<rparr>"
    using assms by (cases "purge_loop now (state sh)") (auto simp: purge_expired_keys_def with_lock_def)
  have "entries (snd (purge_loop later st)) = entries st"
    by (rule store.sweep_quiet [OF assms(1) p(1)]) (use assms(5) in simp)
  then show ?thesis
    using p(2) by (cases "purge_loop later st") (simp add: purge_expired_keys_def with_lock_def)
qed

theorem purge_quiet_until_next_witness:
  "entries (state (snd (purge_expired_keys 1000 (new_shared :: nat shared)))) = entries (state new_shared)"
proof -
  have "purge_expired_keys 5 (new_shared :: nat shared) = (Ok None, new_shared)"
    by (simp add: purge_expired_keys_def with_lock_def new_shared_def purge_loop.simps btree_first_def)
  from purge_quiet_until_next [OF new_shared_inv _ this, of 1000] show ?thesis
    by (simp add: new_shared_def)
qed

text \<open>
  C40: a set whose expiration does not fit the clock panics while it holds the mutex; from then on
  every operation of every task (get, set, publish, subscribe, the purge, the shutdown and its test)
  panics at the poisoned mutex and leaves everything as it is, and so the database never changes again.
\<close>

theorem set_overflow_poisons:
  assumes "\<not> poisoned sh" "instant_limit \<le> now + d"
    and "(after, w') = fold (db_step B) ops (snd (db_set now k v (Some d) sh), w)"
  shows "fst (db_set now k v (Some d) sh) = Panic InstantOverflow \<and> state after = state sh \<and> w' = w \<and>
    db_get k' after = (Panic PoisonedLock, after) \<and> db_set now' k' v' e after = (Panic PoisonedLock, after) \<and>
    db_publish B k' v' (after, w) = (Panic PoisonedLock, after, w) \<and>
    db_subscribe B k' (after, w) = (Panic PoisonedLock, after, w) \<and>
    purge_expired_keys now' after = (Panic PoisonedLock, after) \<and>
    db_shutdown after = (Panic PoisonedLock, after) \<and> is_shutdown after = (Panic PoisonedLock, after)"
proof -
  have s: "db_set now k v (Some d) sh = (Panic InstantOverflow, \<lparr>state = state sh, poisoned = True\<rparr>)"
    using assms(1,2) by (rule db_set_overflow)
  then have "after = \<lparr>state = state sh, poisoned = True\<rparr>" "w' = w"
    using assms(3) poisoned_forever [of "(\<lparr>state = state sh, poisoned = True\<rparr>, w)" B ops] by simp_all
  with s show ?thesis by (simp add: poisoned_operations)
qed

theorem set_overflow_poisons_witness:
  "fst (db_get ''b'' (fst (fold (db_step ref_broadcast) [OpSet 0 ''b'' ''y'' None]
     (snd (db_set 0 ''a'' ''x'' (Some (from_secs (-1))) new_shared), [])))) = Panic PoisonedLock"
proof -
  have "instant_limit \<le> 0 + from_secs (-1)"
    by (simp add: instant_limit_def from_secs_def unsigned_minus_1_eq_mask mask_eq_exp_minus_1)
  moreover obtain after w' where f: "(after, w') = fold (db_step ref_broadcast) [OpSet 0 ''b'' ''y'' None]
     (snd (db_set 0 ''a'' ''x'' (Some (from_secs (-1))) new_shared), [])" by (metis surj_pair)
  ultimately have "fst (db_get ''b'' after) = Panic PoisonedLock"
    using set_overflow_poisons [OF _ _ f, where k' = "''b''"] by (simp add: new_shared_def)
  then show ?thesis unfolding f [symmetric] by simp
qed

text \<open>
  Publishing returns the number of receivers of the channel and zero for a channel nobody
  subscribed to; subscribing adds exactly one receiver to that channel and none to another.
\<close>

theorem pub_sub_counts:
  assumes "broadcast_counts B cnt alloc" "pub_inv alloc s" "\<not> poisoned (fst s)"
    and "db_subscribe B k s = (r, s')" "db_publish B k' v s' = (n, s'')"
  shows "n = Ok (of_nat (subscribers cnt s k' + (if k' = k then 1 else 0)))"
proof -
  note a = db_subscribe_counts [OF assms(1-4)]
  have "\<not> poisoned (fst s')"
    using assms(3,4) by (cases s) (auto simp: db_subscribe_def split: option.splits prod.splits)
  from db_publish_counts [OF assms(1) _ this assms(5)] a show ?thesis by auto
qed

theorem pub_sub_counts_witness:
  "fst (db_publish ref_broadcast ''c'' ''m''
     (snd (db_subscribe ref_broadcast ''c'' (snd (db_subscribe ref_broadcast ''c'' (new_shared, [])))))) = Ok 2"
proof -
  have i: "pub_inv (\<lambda>w. {..<length w}) (new_shared, [])" "\<not> poisoned (fst (new_shared :: nat shared, []))"
    by (simp_all add: pub_inv_def new_shared_def)
  obtain r1 s1 where s1: "db_subscribe ref_broadcast ''c'' (new_shared, []) = (r1, s1)" by (metis surj_pair)
  obtain r2 s2 where s2: "db_subscribe ref_broadcast ''c'' s1 = (r2, s2)" by (metis surj_pair)
  obtain n s3 where s3: "db_publish ref_broadcast ''c'' ''m'' s2 = (n, s3)" by (metis surj_pair)
  note a = db_subscribe_counts [OF ref_broadcast_counts i s1]
  have "\<not> poisoned (fst s1)" using s1
    by (auto simp: db_subscribe_def new_shared_def split: option.splits prod.splits)
  from pub_sub_counts [OF ref_broadcast_counts _ this s2 s3] a
  have "n = Ok (of_nat (subscribers (\<lambda>w tx. w ! tx) (new_shared, []) ''c'' + 2))" by simp
  with s1 s2 s3 show ?thesis by (simp add: subscribers_def new_shared_def)
qed

end
