(* ===== verification/Purge_Task.thy ===== *)
theory Purge_Task
  imports Db
begin

text \<open>
  \<open>purge_expired_tasks\<close> of \<open>src/mini-redis/src/db.rs\<close>, the background task, running next to the
  connection tasks. A state is the shared database, the \<open>Notify\<close> cell, the clock and the place
  of the task in its loop; one step is one critical section, one call of \<open>notify_one\<close>, one
  completion of a wait, or the passing of time. Between releasing the mutex and calling
  \<open>notify_one\<close> a connection task can be interrupted: \<open>owed\<close> counts the calls still to come.
  The invariant says that no wake-up is lost; from it, expired keys are always purged and the
  shutdown flag always ends the task, unless the mutex was poisoned.
\<close>

section \<open>Steps\<close>

text \<open>
  The operations of \<open>tokio::sync::Notify\<close>: \<open>notify_one\<close>, and a poll of the future \<open>notified()\<close>,
  which completes (\<open>Some\<close>) or stays pending.
\<close>

record 'n notify =
  notify_new :: 'n
  notify_one :: "'n \<Rightarrow> 'n"
  poll_notified :: "'n \<Rightarrow> 'n option"

text \<open>After \<open>notify_one\<close>, the next \<open>notified().await\<close> completes immediately.\<close>

definition notify_stores :: "'n notify \<Rightarrow> bool" where
  "notify_stores N \<longleftrightarrow> (\<forall>n. poll_notified N (notify_one N n) \<noteq> None)"

datatype task_pc =
    CheckShutdown
  | PurgeKeys
  | Waiting "instant option"
  | Exited
  | Crashed

record ('tx, 'w, 'n) system =
  shared :: "'tx shared"
  world :: 'w
  cell :: 'n
  owed :: nat
  clock :: instant
  pc :: task_pc

definition initial :: "'n notify \<Rightarrow> 'w \<Rightarrow> instant \<Rightarrow> ('tx, 'w, 'n) system" where
  "initial N w t = \<lparr>shared = new_shared, world = w, cell = notify_new N, owed = 0, clock = t,
     pc = CheckShutdown\<rparr>"

text \<open>The steps of the background task.\<close>

inductive task_step ::
    "'n notify \<Rightarrow> ('tx, 'w, 'n) system \<Rightarrow> ('tx, 'w, 'n) system \<Rightarrow> bool" for N where
  check: "pc s = CheckShutdown \<Longrightarrow> is_shutdown (shared s) = (Ok b, sh) \<Longrightarrow>
    task_step N s (s\<lparr>shared := sh, pc := if b then Exited else PurgeKeys\<rparr>)"
| check_panic: "pc s = CheckShutdown \<Longrightarrow> is_shutdown (shared s) = (Panic p, sh) \<Longrightarrow>
    task_step N s (s\<lparr>shared := sh, pc := Crashed\<rparr>)"
| purge: "pc s = PurgeKeys \<Longrightarrow> purge_expired_keys (clock s) (shared s) = (Ok r, sh) \<Longrightarrow>
    task_step N s (s\<lparr>shared := sh, pc := Waiting r\<rparr>)"
| purge_panic: "pc s = PurgeKeys \<Longrightarrow> purge_expired_keys (clock s) (shared s) = (Panic p, sh) \<Longrightarrow>
    task_step N s (s\<lparr>shared := sh, pc := Crashed\<rparr>)"
| timer: "pc s = Waiting (Some w) \<Longrightarrow> w \<le> clock s \<Longrightarrow>
    task_step N s (s\<lparr>pc := CheckShutdown\<rparr>)"
| notified: "pc s = Waiting r \<Longrightarrow> poll_notified N (cell s) = Some n \<Longrightarrow>
    task_step N s (s\<lparr>cell := n, pc := CheckShutdown\<rparr>)"

text \<open>The steps of the connection tasks and of the server's drop guard, and time.\<close>

definition owe :: "(bool, crate_error) res \<Rightarrow> nat" where
  "owe r = (if r = Ok True then 1 else 0)"

inductive env_step ::
    "('w, 'tx, 'rx) broadcast \<Rightarrow> 'n notify \<Rightarrow> ('tx, 'w, 'n) system \<Rightarrow> ('tx, 'w, 'n) system \<Rightarrow> bool"
  for B N where
  set: "db_set (clock s) k v e (shared s) = (r, sh) \<Longrightarrow>
    env_step B N s (s\<lparr>shared := sh, owed := owed s + owe r\<rparr>)"
| shutdown: "db_shutdown (shared s) = (r, sh) \<Longrightarrow>
    env_step B N s (s\<lparr>shared := sh, owed := owed s + (if r = Ok () then 1 else 0)\<rparr>)"
| get: "db_get k (shared s) = (r, sh) \<Longrightarrow> env_step B N s (s\<lparr>shared := sh\<rparr>)"
| subscribe: "db_subscribe B k (shared s, world s) = (r, sh, w) \<Longrightarrow>
    env_step B N s (s\<lparr>shared := sh, world := w\<rparr>)"
| publish: "db_publish B k v (shared s, world s) = (r, sh, w) \<Longrightarrow>
    env_step B N s (s\<lparr>shared := sh, world := w\<rparr>)"
| notify: "owed s = Suc n \<Longrightarrow>
    env_step B N s (s\<lparr>owed := n, cell := notify_one N (cell s)\<rparr>)"
| tick: "clock s \<le> t \<Longrightarrow> env_step B N s (s\<lparr>clock := t\<rparr>)"

inductive reachable ::
    "('w, 'tx, 'rx) broadcast \<Rightarrow> 'n notify \<Rightarrow> ('tx, 'w, 'n) system \<Rightarrow> bool" for B N where
  init: "reachable B N (initial N w t)"
| task: "reachable B N s \<Longrightarrow> task_step N s s' \<Longrightarrow> reachable B N s'"
| env: "reachable B N s \<Longrightarrow> env_step B N s s' \<Longrightarrow> reachable B N s'"

section \<open>No wake-up is lost\<close>

definition pending :: "'n notify \<Rightarrow> ('tx, 'w, 'n) system \<Rightarrow> bool" where
  "pending N s \<longleftrightarrow> 0 < owed s \<or> poll_notified N (cell s) \<noteq> None"

definition task_inv :: "'n notify \<Rightarrow> ('tx, 'w, 'n) system \<Rightarrow> bool" where
  "task_inv N s \<longleftrightarrow>
     db_inv (state (shared s)) \<and>
     (pc s = Exited \<longrightarrow> shutdown (state (shared s))) \<and>
     (pc s = Crashed \<longrightarrow> poisoned (shared s)) \<and>
     (pc s = PurgeKeys \<longrightarrow> shutdown (state (shared s)) \<longrightarrow> pending N s) \<and>
     (\<forall>r. pc s = Waiting r \<longrightarrow> shutdown (state (shared s)) \<longrightarrow> pending N s) \<and>
     (\<forall>r t k. pc s = Waiting r \<longrightarrow> (t, k) \<in> set (expirations (state (shared s))) \<longrightarrow>
        pending N s \<or> (\<exists>w. r = Some w \<and> w \<le> t))"


lemma is_shutdown_cases:
  "is_shutdown sh = (if poisoned sh then (Panic PoisonedLock, sh) else (Ok (shutdown (state sh)), sh))"
  by (simp add: is_shutdown_def with_lock_def)

lemma db_shutdown_cases:
  "db_shutdown sh = (if poisoned sh then (Panic PoisonedLock, sh)
     else (Ok (), \<lparr>state = (state sh)\<lparr>shutdown := True\<rparr>, poisoned = False\<rparr>))"
  by (simp add: db_shutdown_def with_lock_def)

lemma purge_expired_keys_no_other:
  "purge_expired_keys now sh \<noteq> (Err e, sh')"
  "purge_expired_keys now sh = (Panic p, sh') \<Longrightarrow> poisoned sh \<and> sh' = sh"
  by (cases "purge_loop now (state sh)";
      auto simp: purge_expired_keys_def with_lock_def split: if_splits)+

lemma db_subscribe_state:
  "db_subscribe B k (sh, w) = (r, sh', w') \<Longrightarrow>
     entries (state sh') = entries (state sh) \<and> expirations (state sh') = expirations (state sh) \<and>
     shutdown (state sh') = shutdown (state sh) \<and> poisoned sh' = poisoned sh"
  by (auto simp: db_subscribe_def split: if_splits option.splits prod.splits)

lemma db_publish_state: "db_publish B k v (sh, w) = (r, sh', w') \<Longrightarrow> sh' = sh"
  by (auto simp: db_publish_def split: if_splits option.splits prod.splits)

lemma task_invD:
  assumes "task_inv N s"
  shows "db_inv (state (shared s))"
    "pc s = PurgeKeys \<Longrightarrow> shutdown (state (shared s)) \<Longrightarrow> pending N s"
    "pc s = Waiting r \<Longrightarrow> shutdown (state (shared s)) \<Longrightarrow> pending N s"
    "pc s = Waiting r \<Longrightarrow> (t, k) \<in> set (expirations (state (shared s))) \<Longrightarrow>
       pending N s \<or> (\<exists>w. r = Some w \<and> w \<le> t)"
    "pc s = Crashed \<Longrightarrow> poisoned (shared s)" "pc s = Exited \<Longrightarrow> shutdown (state (shared s))"
  using assms by (auto simp: task_inv_def)

lemma task_inv_initial: "task_inv N (initial N w t)"
  by (simp add: task_inv_def initial_def new_shared_inv)

lemma task_inv_purge:
  assumes inv: "task_inv N s" and pc: "pc s = PurgeKeys"
    and p: "purge_expired_keys (clock s) (shared s) = (Ok r, sh)"
  shows "task_inv N (s\<lparr>shared := sh, pc := Waiting r\<rparr>)"
proof -
  have ok: "\<not> poisoned (shared s)" using p by (auto simp: poisoned_operations)
  show ?thesis
  proof (cases "shutdown (state (shared s))")
    case True
    with p ok have "r = None" "sh = shared s" by (simp_all add: purge_expired_keys_shutdown)
    moreover have "pending N s" by (rule task_invD(2) [OF inv pc True])
    ultimately show ?thesis
      using task_invD(1) [OF inv] by (simp add: task_inv_def pending_def)
  next
    case False
    note k = purge_expired_keys_Ok [OF ok task_invD(1) [OF inv] False p]
    have "\<exists>w. r = Some w \<and> w \<le> t" if t: "(t, k) \<in> set (expirations (state sh))" for t k
    proof (cases "next_expiration (state sh)")
      case None
      with t show ?thesis by (simp add: next_expiration_None)
    next
      case (Some w)
      with k t next_expiration_Some(2) [OF db_invD(1), of "state sh" w t k] show ?thesis by simp
    qed
    with k show ?thesis by (auto simp: task_inv_def)
  qed
qed

lemma task_inv_task: "task_step N s s' \<Longrightarrow> task_inv N s \<Longrightarrow> task_inv N s'"
proof (induction rule: task_step.induct)
  case (purge s r sh)
  then show ?case by (intro task_inv_purge)
next
  case (purge_panic s p sh)
  then show ?case by (auto simp: task_inv_def dest!: purge_expired_keys_no_other(2))
next
  case (check s b sh)
  then show ?case by (auto simp: task_inv_def is_shutdown_cases split: if_splits)
next
  case (check_panic s p sh)
  then show ?case by (simp add: task_inv_def is_shutdown_cases split: if_splits)
qed (simp_all add: task_inv_def)

text \<open>
  A set either tells the task, or its expiration is no earlier than one the task already waits
  for or will be told about.
\<close>

lemma task_inv_set:
  assumes inv: "task_inv N s" and d: "db_set (clock s) k v e (shared s) = (r, sh)"
  shows "task_inv N (s\<lparr>shared := sh, owed := owed s + owe r\<rparr>)"
  using d
proof (cases rule: db_set_cases)
  case (stored ea n)
  let ?s = "s\<lparr>shared := sh, owed := owed s + owe r\<rparr>" and ?st = "state (shared s)"
  note di = task_invD(1) [OF inv]
  have mono: "pending N s \<Longrightarrow> pending N ?s" by (auto simp: pending_def)
  have old: "pending N ?s \<or> (\<exists>w. q = Some w \<and> w \<le> t)"
    if "pc s = Waiting q" "(t, k') \<in> set (expirations ?st)" for q t k'
    using task_invD(4) [OF inv that] mono by blast
  have new: "pending N ?s \<or> (\<exists>w. q = Some w \<and> w \<le> t)"
    if q: "pc s = Waiting q" and t: "ea = Some t" for q t
  proof (cases n)
    case True
    with stored show ?thesis by (simp add: pending_def owe_def)
  next
    case False
    with stored t obtain w where w: "next_expiration ?st = Some w" "w \<le> t"
      by (auto split: option.splits)
    from next_expiration_Some(1) [OF db_invD(1) [OF di] w(1)] obtain k' where
      "(w, k') \<in> set (expirations ?st)" by blast
    from old [OF q this] w(2) show ?thesis by fastforce
  qed
  have "pending N ?s \<or> (\<exists>w. q = Some w \<and> w \<le> t)"
    if q: "pc ?s = Waiting q" and m: "(t, k') \<in> set (expirations (state sh))" for q t k'
  proof -
    from m have "(t, k') \<in> set (expirations ?st) \<or> ea = Some t"
      using stored(5) put_entry_expirations(2) [OF di, of k v ea] by (auto split: option.splits)
    then show ?thesis
    proof
      assume "(t, k') \<in> set (expirations ?st)"
      with old [of q t k'] q show ?thesis by simp
    next
      assume "ea = Some t"
      with new [of q t] q show ?thesis by simp
    qed
  qed
  with inv stored mono put_entry_inv [OF di] show ?thesis by (auto simp: task_inv_def)
next
  case overflow
  with inv show ?thesis by (auto simp: task_inv_def pending_def owe_def)
next
  case poisoned
  with inv show ?thesis by (auto simp: task_inv_def pending_def owe_def)
qed

lemma task_inv_env:
  assumes "notify_stores N"
  shows "env_step B N s s' \<Longrightarrow> task_inv N s \<Longrightarrow> task_inv N s'"
proof (induction rule: env_step.induct)
  case (set s k v e r sh)
  then show ?case by (intro task_inv_set)
next
  case (shutdown s r sh)
  then show ?case
    by (cases "poisoned (shared s)") (auto simp: db_shutdown_cases task_inv_def pending_def)
next
  case (get k s r sh)
  then have "sh = shared s" by (cases "poisoned (shared s)") (simp_all add: poisoned_operations db_get_Ok)
  with get show ?case by simp
next
  case (subscribe k s r sh w)
  from db_subscribe_state [OF subscribe(1)] subscribe(2) show ?case
    by (simp add: task_inv_def pending_def db_inv_def)
next
  case (publish k v s r sh w)
  from db_publish_state [OF publish(1)] publish(2) show ?case
    by (simp add: task_inv_def pending_def)
next
  case (notify s n)
  then show ?case using assms by (auto simp: task_inv_def pending_def notify_stores_def)
next
  case (tick s t)
  then show ?case by (simp add: task_inv_def pending_def)
qed

lemma reachable_inv:
  assumes "notify_stores N"
  shows "reachable B N s \<Longrightarrow> task_inv N s"
  by (induction rule: reachable.induct)
    (auto intro: task_inv_initial task_inv_task task_inv_env [OF assms])


section \<open>The task gets where it should\<close>

text \<open>A step of the task, or one of the calls of \<open>notify_one\<close> that are on their way.\<close>

inductive progress ::
    "'n notify \<Rightarrow> ('tx, 'w, 'n) system \<Rightarrow> ('tx, 'w, 'n) system \<Rightarrow> bool" for N where
  task: "task_step N s s' \<Longrightarrow> progress N s s'"
| call: "owed s = Suc n \<Longrightarrow> progress N s (s\<lparr>owed := n, cell := notify_one N (cell s)\<rparr>)"

lemma progress_star: "progress N s s' \<Longrightarrow> (progress N)\<^sup>*\<^sup>* s' s'' \<Longrightarrow> (progress N)\<^sup>*\<^sup>* s s''"
  by (rule converse_rtranclp_into_rtranclp)

lemma notified_to_check:
  assumes "notify_stores N" "pc s = Waiting r" "pending N s"
  shows "\<exists>s'. (progress N)\<^sup>*\<^sup>* s s' \<and> pc s' = CheckShutdown \<and> shared s' = shared s \<and> clock s' = clock s"
proof (cases "poll_notified N (cell s)")
  case (Some n)
  with assms(2) have "progress N s (s\<lparr>cell := n, pc := CheckShutdown\<rparr>)"
    by (intro progress.task task_step.notified)
  then show ?thesis by (intro exI [of _ "s\<lparr>cell := n, pc := CheckShutdown\<rparr>"]) simp
next
  case None
  with assms(3) obtain m where m: "owed s = Suc m" by (auto simp: pending_def gr0_conv_Suc)
  let ?s = "s\<lparr>owed := m, cell := notify_one N (cell s)\<rparr>"
  obtain n where n: "poll_notified N (cell ?s) = Some n"
    using assms(1) by (auto simp: notify_stores_def)
  have "progress N s ?s" using m by (rule progress.call)
  moreover have "progress N ?s (?s\<lparr>cell := n, pc := CheckShutdown\<rparr>)"
    using assms(2) n by (intro progress.task task_step.notified [of _ r]) simp_all
  ultimately show ?thesis
    by (intro exI [of _ "?s\<lparr>cell := n, pc := CheckShutdown\<rparr>"]) (auto intro: progress_star)
qed

lemma shutdown_at_check:
  assumes "pc s = CheckShutdown" "\<not> poisoned (shared s)" "shutdown (state (shared s))"
  shows "progress N s (s\<lparr>pc := Exited\<rparr>)"
  using task_step.check [of s True "shared s" N] assms
  by (auto simp: is_shutdown_cases intro: progress.task)

lemma shutdown_from_waiting:
  assumes "notify_stores N" "task_inv N s" "pc s = Waiting r" "\<not> poisoned (shared s)"
    "shutdown (state (shared s))"
  shows "\<exists>s'. (progress N)\<^sup>*\<^sup>* s s' \<and> pc s' = Exited"
proof -
  obtain s' where "(progress N)\<^sup>*\<^sup>* s s'" "pc s' = CheckShutdown" "shared s' = shared s"
    using notified_to_check [OF assms(1,3) task_invD(3) [OF assms(2,3,5)]] by blast
  with shutdown_at_check [of s' N] assms(4,5) show ?thesis
    by (intro exI [of _ "s'\<lparr>pc := Exited\<rparr>"]) (auto intro: rtranclp.rtrancl_into_rtrancl)
qed

lemma purge_step:
  assumes "pc s = PurgeKeys" "\<not> poisoned (shared s)"
  obtains r sh where "purge_expired_keys (clock s) (shared s) = (Ok r, sh)"
    "progress N s (s\<lparr>shared := sh, pc := Waiting r\<rparr>)"
proof -
  obtain x sh where p: "purge_expired_keys (clock s) (shared s) = (x, sh)" by fastforce
  then obtain r where "x = Ok r"
    using assms(2) purge_expired_keys_no_other [of "clock s" "shared s"] by (cases x) auto
  with p that [of r sh] assms(1) show thesis by (auto intro: progress.task task_step.purge)
qed

lemma shutdown_ends:
  assumes "notify_stores N" "task_inv N s" "\<not> poisoned (shared s)" "shutdown (state (shared s))"
  shows "\<exists>s'. (progress N)\<^sup>*\<^sup>* s s' \<and> pc s' = Exited"
proof (cases "pc s")
  case CheckShutdown
  from shutdown_at_check [OF this assms(3,4)] show ?thesis
    by (intro exI [of _ "s\<lparr>pc := Exited\<rparr>"]) auto
next
  case PurgeKeys
  then obtain r sh where p: "purge_expired_keys (clock s) (shared s) = (Ok r, sh)"
    and st: "progress N s (s\<lparr>shared := sh, pc := Waiting r\<rparr>)" using purge_step [OF _ assms(3)] by blast
  from p assms(3,4) have "sh = shared s" by (simp add: purge_expired_keys_shutdown)
  with shutdown_from_waiting [OF assms(1) task_inv_purge [OF assms(2) PurgeKeys p], of r] assms(3,4)
  obtain s' where "(progress N)\<^sup>*\<^sup>* (s\<lparr>shared := sh, pc := Waiting r\<rparr>) s'" "pc s' = Exited" by auto
  with progress_star [OF st] show ?thesis by blast
next
  case (Waiting r)
  from shutdown_from_waiting [OF assms(1,2) this assms(3,4)] show ?thesis .
next
  case Exited
  then show ?thesis by blast
next
  case Crashed
  with task_invD(5) [OF assms(2)] assms(3) show ?thesis by simp
qed

text \<open>From the check on, a live task purges.\<close>

definition purged :: "('tx, 'w, 'n) system \<Rightarrow> ('tx, 'w, 'n) system \<Rightarrow> bool" where
  "purged s s' \<longleftrightarrow> clock s' = clock s \<and>
     entries (state (shared s')) = unexpired (clock s) (entries (state (shared s)))"

lemma purges_from_purge:
  assumes "task_inv N s" "pc s = PurgeKeys" "\<not> poisoned (shared s)" "\<not> shutdown (state (shared s))"
  shows "\<exists>s'. (progress N)\<^sup>*\<^sup>* s s' \<and> purged s s'"
proof -
  obtain r sh where p: "purge_expired_keys (clock s) (shared s) = (Ok r, sh)"
    and st: "progress N s (s\<lparr>shared := sh, pc := Waiting r\<rparr>)" using purge_step [OF assms(2,3)] by blast
  from purge_expired_keys_Ok [OF assms(3) task_invD(1) [OF assms(1)] assms(4) p] st show ?thesis
    by (intro exI [of _ "s\<lparr>shared := sh, pc := Waiting r\<rparr>"]) (auto simp: purged_def)
qed

lemma purges_from_check:
  assumes "task_inv N s" "pc s = CheckShutdown" "\<not> poisoned (shared s)" "\<not> shutdown (state (shared s))"
  shows "\<exists>s'. (progress N)\<^sup>*\<^sup>* s s' \<and> purged s s'"
proof -
  let ?s = "s\<lparr>pc := PurgeKeys\<rparr>"
  have t: "task_step N s ?s"
    using task_step.check [of s False "shared s" N] assms by (simp add: is_shutdown_cases)
  from purges_from_purge [OF task_inv_task [OF t assms(1)]] assms obtain s' where
    "(progress N)\<^sup>*\<^sup>* ?s s'" "purged ?s s'" by auto
  with progress_star [OF progress.task [OF t]] show ?thesis by (auto simp: purged_def)
qed

lemma expired_purged:
  assumes "notify_stores N" "task_inv N s" "\<not> poisoned (shared s)" "\<not> shutdown (state (shared s))"
  shows "\<exists>s'. (progress N)\<^sup>*\<^sup>* s s' \<and> purged s s'"
proof (cases "pc s")
  case CheckShutdown
  from purges_from_check [OF assms(2) this assms(3,4)] show ?thesis .
next
  case PurgeKeys
  from purges_from_purge [OF assms(2) this assms(3,4)] show ?thesis .
next
  case (Waiting r)
  note di = task_invD(1) [OF assms(2)]
  consider (quiet) "\<forall>t k. (t, k) \<in> set (expirations (state (shared s))) \<longrightarrow> clock s < t"
    | (due) w where "r = Some w" "w \<le> clock s" | (told) "pending N s"
    using task_invD(4) [OF assms(2) Waiting] by (meson le_trans linorder_not_le)
  then show ?thesis
  proof cases
    case quiet
    then have "live_entry (clock s) e" if "entries (state (shared s)) k = Some e" for k e
      using db_invD(2) [OF di] that by (auto simp: live_entry_def split: option.splits)
    then have "unexpired (clock s) (entries (state (shared s))) = entries (state (shared s))"
      by (intro ext) (auto simp: unexpired_def split: option.splits)
    then show ?thesis by (intro exI [of _ s]) (simp add: purged_def)
  next
    case (due w)
    let ?s = "s\<lparr>pc := CheckShutdown\<rparr>"
    have t: "task_step N s ?s" using Waiting due by (auto intro: task_step.timer)
    from purges_from_check [OF task_inv_task [OF t assms(2)]] assms obtain s' where
      "(progress N)\<^sup>*\<^sup>* ?s s'" "purged ?s s'" by auto
    with progress_star [OF progress.task [OF t]] show ?thesis by (auto simp: purged_def)
  next
    case told
    from notified_to_check [OF assms(1) Waiting told] obtain u where u: "(progress N)\<^sup>*\<^sup>* s u"
      "pc u = CheckShutdown" "shared u = shared s" "clock u = clock s" by blast
    with assms(2) have "task_inv N u" by (simp add: task_inv_def)
    from purges_from_check [OF this u(2)] u assms(3,4) obtain s' where
      "(progress N)\<^sup>*\<^sup>* u s'" "purged u s'" by auto
    with u show ?thesis by (auto simp: purged_def intro: rtranclp_trans)
  qed
next
  case Exited
  with task_invD(6) [OF assms(2)] assms(4) show ?thesis by simp
next
  case Crashed
  with task_invD(5) [OF assms(2)] assms(3) show ?thesis by simp
qed


section \<open>Properties\<close>

text \<open>A concrete \<open>Notify\<close> for one waiter: a stored permit.\<close>

definition permit :: "bool notify" where
  "permit = \<lparr>notify_new = False, notify_one = (\<lambda>_. True),
     poll_notified = (\<lambda>p. if p then Some False else None)\<rparr>"

lemma permit_stores: "notify_stores permit"
  by (simp add: notify_stores_def permit_def)

text \<open>
  C7: no wake-up is lost. In every reachable state in which an entry has expired while the task
  waits, the task can go on now (its timer has run out or a notification is stored), or a call of
  \<open>notify_one\<close> is on its way.
\<close>

theorem no_lost_wakeup:
  assumes "notify_stores N" "reachable B N s" "pc s = Waiting r"
    and "entries (state (shared s)) k = Some e" "\<not> live_entry (clock s) e"
  shows "(\<exists>w. r = Some w \<and> w \<le> clock s) \<or> poll_notified N (cell s) \<noteq> None \<or> 0 < owed s"
proof -
  note inv = reachable_inv [OF assms(1,2)]
  obtain t where t: "expires_at e = Some t" "t \<le> clock s"
    using assms(5) by (auto simp: live_entry_def split: option.splits)
  with assms(4) have "(t, k) \<in> set (expirations (state (shared s)))"
    using db_invD(2) [OF task_invD(1) [OF inv]] by blast
  from task_invD(4) [OF inv assms(3) this] t(2) show ?thesis
    by (auto simp: pending_def dest: le_trans)
qed

text \<open>The run of the witnesses: the task waits without a deadline when a key is set to expire.\<close>

definition waiting_state :: "(nat, nat list, bool) system" where
  "waiting_state = (initial permit [] 0)\<lparr>pc := Waiting None\<rparr>"

definition stored_state :: "(nat, nat list, bool) system" where
  "stored_state = waiting_state
     \<lparr>shared := \<lparr>state = put_entry ''a'' ''x'' (Some 5) (state new_shared), poisoned = False\<rparr>, owed := 1\<rparr>"

definition due_state :: "(nat, nat list, bool) system" where
  "due_state = stored_state\<lparr>clock := 7\<rparr>"

lemma due_state_reachable: "reachable ref_broadcast permit due_state"
proof -
  let ?i = "initial permit [] 0 :: (nat, nat list, bool) system"
  have i: "shared ?i = new_shared" "clock ?i = 0" "pc ?i = CheckShutdown" "owed ?i = 0"
    by (simp_all add: initial_def)
  have n: "\<not> poisoned (new_shared :: nat shared)" "\<not> shutdown (state (new_shared :: nat shared))"
    by (simp_all add: new_shared_def)
  have "task_step permit ?i (?i\<lparr>pc := PurgeKeys\<rparr>)"
    using task_step.check [of ?i False new_shared permit] n
    by (simp add: is_shutdown_cases initial_def)
  then have 1: "reachable ref_broadcast permit (?i\<lparr>pc := PurgeKeys\<rparr>)"
    by (rule reachable.task [OF reachable.init])
  have "purge_expired_keys 0 (new_shared :: nat shared) = (Ok None, new_shared)"
    by (simp add: purge_expired_keys_def with_lock_def new_shared_def purge_loop.simps btree_first_def)
  then have "task_step permit (?i\<lparr>pc := PurgeKeys\<rparr>) waiting_state"
    using task_step.purge [of "?i\<lparr>pc := PurgeKeys\<rparr>" None new_shared permit]
    by (simp add: waiting_state_def initial_def)
  then have 2: "reachable ref_broadcast permit waiting_state"
    by (rule reachable.task [OF 1])
  have "db_set 0 ''a'' ''x'' (Some 5) (new_shared :: nat shared) =
      (Ok True, \<lparr>state = put_entry ''a'' ''x'' (Some 5) (state new_shared), poisoned = False\<rparr>)"
    using n by (simp add: db_set_timed instant_limit_def next_expiration_def new_shared_def btree_first_def)
  then have "env_step ref_broadcast permit waiting_state stored_state"
    using env_step.set [of waiting_state "''a''" "''x''" "Some 5" "Ok True" _ ref_broadcast permit]
    by (simp add: waiting_state_def stored_state_def owe_def initial_def)
  then have "reachable ref_broadcast permit stored_state"
    by (rule reachable.env [OF 2])
  moreover have "env_step ref_broadcast permit stored_state due_state"
    unfolding due_state_def by (rule env_step.tick) (simp add: stored_state_def waiting_state_def i)
  ultimately show ?thesis by (rule reachable.env)
qed

lemma due_state_simps:
  "pc due_state = Waiting None" "clock due_state = 7" "owed due_state = 1"
  "entries (state (shared due_state)) = [''a'' \<mapsto> \<lparr>data = ''x'', expires_at = Some 5\<rparr>]"
  "\<not> poisoned (shared due_state)" "\<not> shutdown (state (shared due_state))"
  by (simp_all add: due_state_def stored_state_def waiting_state_def new_shared_def)

theorem no_lost_wakeup_witness: "0 < owed due_state"
proof -
  have "poll_notified permit (cell due_state) = None"
    by (simp add: due_state_def stored_state_def waiting_state_def initial_def permit_def)
  moreover have "entries (state (shared due_state)) ''a'' = Some \<lparr>data = ''x'', expires_at = Some 5\<rparr>"
    "\<not> live_entry (clock due_state) \<lparr>data = ''x'', expires_at = Some 5\<rparr>"
    by (simp_all add: due_state_simps live_entry_def)
  note no_lost_wakeup [OF permit_stores due_state_reachable due_state_simps(1) this]
  ultimately show ?thesis by (auto simp del: due_state_simps)
qed

text \<open>
  C8: expired keys go away. From every reachable state of a running, unpoisoned database, steps of
  the task and notifications already on their way lead, at the same clock time, to exactly the
  unexpired entries.
\<close>

theorem expired_keys_purged:
  assumes "notify_stores N" "reachable B N s" "\<not> poisoned (shared s)" "\<not> shutdown (state (shared s))"
  shows "\<exists>s'. (progress N)\<^sup>*\<^sup>* s s' \<and> clock s' = clock s \<and>
    entries (state (shared s')) = unexpired (clock s) (entries (state (shared s)))"
  using expired_purged [OF assms(1) reachable_inv [OF assms(1,2)] assms(3,4)]
  by (simp add: purged_def)

theorem expired_keys_purged_witness:
  "\<exists>s'. (progress permit)\<^sup>*\<^sup>* due_state s' \<and> entries (state (shared s')) ''a'' = None"
proof -
  have "unexpired 7 (entries (state (shared due_state))) ''a'' = None"
    by (simp add: due_state_simps unexpired_def live_entry_def)
  with expired_keys_purged [OF permit_stores due_state_reachable due_state_simps(5,6)]
  show ?thesis by (auto simp: due_state_simps(2))
qed

text \<open>
  The shutdown signal always ends the background task: from every reachable state in which the
  flag is set and the mutex is not poisoned, steps of the task and notifications on their way lead
  to its exit.
\<close>

theorem shutdown_ends_task:
  assumes "notify_stores N" "reachable B N s" "\<not> poisoned (shared s)" "shutdown (state (shared s))"
  shows "\<exists>s'. (progress N)\<^sup>*\<^sup>* s s' \<and> pc s' = Exited"
  using assms reachable_inv [OF assms(1,2)] by (intro shutdown_ends)

theorem shutdown_ends_task_witness:
  "\<exists>s'. (progress permit)\<^sup>*\<^sup>*
     (due_state\<lparr>shared := snd (db_shutdown (shared due_state)), owed := 2\<rparr>) s' \<and> pc s' = Exited"
proof -
  let ?s = "due_state\<lparr>shared := snd (db_shutdown (shared due_state)), owed := 2\<rparr>"
  have "env_step ref_broadcast permit due_state ?s"
    using env_step.shutdown [of due_state "Ok ()" "snd (db_shutdown (shared due_state))" ref_broadcast permit]
    by (simp add: db_shutdown_cases due_state_simps numeral_2_eq_2)
  from shutdown_ends_task [OF permit_stores reachable.env [OF due_state_reachable this]]
  show ?thesis by (simp add: db_shutdown_cases due_state_simps)
qed

text \<open>
  The background task crashes only on a poisoned mutex and exits only after the shutdown flag is
  set; as long as it runs the index of expirations is consistent with the entries.
\<close>

theorem task_ends_only_when_told:
  assumes "notify_stores N" "reachable B N s"
  shows "db_inv (state (shared s)) \<and> (pc s = Crashed \<longrightarrow> poisoned (shared s)) \<and>
    (pc s = Exited \<longrightarrow> shutdown (state (shared s)))"
  using reachable_inv [OF assms] by (auto simp: task_inv_def)

theorem task_ends_only_when_told_witness: "db_inv (state (shared due_state))"
  using task_ends_only_when_told [OF permit_stores due_state_reachable] by simp

end
