(* ===== verification/Apply.thy ===== *)
theory Apply
  imports Connection Commands Purge_Task
begin

text \<open>
  What the commands do: the \<open>apply\<close> methods of \<open>src/mini-redis/src/cmd/*.rs\<close> on the state of the
  server (\<open>system\<close> of theory Purge\_Task: database, clock, the \<open>Notify\<close> cell of the background
  task) and the connection the reply goes to. \<open>SUBSCRIBE\<close> takes over the connection; its loop is
  in theory Subscriber. An outcome is the connection with the reply written, or the error that
  ends the handler, and the server state in either case.
\<close>

section \<open>Calls of the database\<close>

definition run_db ::
    "('tx shared \<Rightarrow> ('a, crate_error) res \<times> 'tx shared) \<Rightarrow> ('tx, 'w, 'n) system \<Rightarrow>
     ('a, crate_error) res \<times> ('tx, 'w, 'n) system" where
  "run_db f s = (let (r, sh) = f (shared s) in (r, s\<lparr>shared := sh\<rparr>))"

definition run_pub_sub ::
    "('tx shared \<times> 'w \<Rightarrow> ('a, crate_error) res \<times> 'tx shared \<times> 'w) \<Rightarrow> ('tx, 'w, 'n) system \<Rightarrow>
     ('a, crate_error) res \<times> ('tx, 'w, 'n) system" where
  "run_pub_sub f s =
     (let (r, sh, w) = f (shared s, world s) in (r, s\<lparr>shared := sh, world := w\<rparr>))"

text \<open>The whole of \<open>Db::set\<close>: the critical section, then the notification.\<close>

definition db_set_notify ::
    "'n notify \<Rightarrow> bytes \<Rightarrow> bytes \<Rightarrow> duration option \<Rightarrow> ('tx, 'w, 'n) system \<Rightarrow>
     (unit, crate_error) res \<times> ('tx, 'w, 'n) system" where
  "db_set_notify N key val expire s =
     st_then (run_db (db_set (clock s) key val expire) s) (\<lambda>notify s.
       (Ok (), if notify then s\<lparr>cell := notify_one N (cell s)\<rparr> else s))"

text \<open>The whole of \<open>Db::shutdown_purge_task\<close>.\<close>

definition db_shutdown_notify ::
    "'n notify \<Rightarrow> ('tx, 'w, 'n) system \<Rightarrow> (unit, crate_error) res \<times> ('tx, 'w, 'n) system" where
  "db_shutdown_notify N s =
     st_then (run_db db_shutdown s) (\<lambda>_ s. (Ok (), s\<lparr>cell := notify_one N (cell s)\<rparr>))"

section \<open>The apply methods\<close>

definition get_apply ::
    "Get \<Rightarrow> connection \<Rightarrow> ('tx, 'w, 'n) system \<Rightarrow>
     (connection, crate_error) res \<times> ('tx, 'w, 'n) system" where
  "get_apply self dst s =
     st_then (run_db (db_get (get_key self)) s) (\<lambda>v s.
       let response = (case v of Some val \<Rightarrow> Bulk val | None \<Rightarrow> Null)
       in (write_frame dst response, s))"

definition set_apply ::
    "'n notify \<Rightarrow> Set \<Rightarrow> connection \<Rightarrow> ('tx, 'w, 'n) system \<Rightarrow>
     (connection, crate_error) res \<times> ('tx, 'w, 'n) system" where
  "set_apply N self dst s =
     st_then (db_set_notify N (set_key self) (set_value self) (set_expire self) s) (\<lambda>_ s.
       (write_frame dst (Simple ''OK''), s))"

definition publish_apply ::
    "('w, 'tx, 'rx) broadcast \<Rightarrow> Publish \<Rightarrow> connection \<Rightarrow> ('tx, 'w, 'n) system \<Rightarrow>
     (connection, crate_error) res \<times> ('tx, 'w, 'n) system" where
  "publish_apply B self dst s =
     st_then (run_pub_sub (db_publish B (pub_channel self) (pub_message self)) s) (\<lambda>n s.
       (write_frame dst (Integer n), s))"

definition ping_apply :: "Ping \<Rightarrow> connection \<Rightarrow> (connection, crate_error) res" where
  "ping_apply self dst =
     (let response = (case ping_msg self of None \<Rightarrow> Simple ''PONG'' | Some msg \<Rightarrow> Bulk msg)
      in write_frame dst response)"

definition unknown_apply :: "Unknown \<Rightarrow> connection \<Rightarrow> (connection, crate_error) res" where
  "unknown_apply self dst =
     write_frame dst (Error (''ERR unknown command '' @ [CHR 0x27] @ command_name self @ [CHR 0x27]))"

text \<open>
  \<open>Command::apply\<close> for every command but \<open>SUBSCRIBE\<close>, which is given as the argument \<open>sub\<close>.
\<close>

definition command_apply ::
    "('w, 'tx, 'rx) broadcast \<Rightarrow> 'n notify \<Rightarrow>
     (Subscribe \<Rightarrow> connection \<Rightarrow> ('tx, 'w, 'n) system \<Rightarrow> 'r) \<Rightarrow>
     ((connection, crate_error) res \<times> ('tx, 'w, 'n) system \<Rightarrow> 'r) \<Rightarrow>
     command \<Rightarrow> connection \<Rightarrow> ('tx, 'w, 'n) system \<Rightarrow> 'r" where
  "command_apply B N sub k self dst s =
     (case self of
        GetCmd cmd \<Rightarrow> k (get_apply cmd dst s)
      | PublishCmd cmd \<Rightarrow> k (publish_apply B cmd dst s)
      | SetCmd cmd \<Rightarrow> k (set_apply N cmd dst s)
      | SubscribeCmd cmd \<Rightarrow> sub cmd dst s
      | PingCmd cmd \<Rightarrow> k (ping_apply cmd dst, s)
      | UnknownCmd cmd \<Rightarrow> k (unknown_apply cmd dst, s)
      | UnsubscribeCmd _ \<Rightarrow> k (Err (Text ''`Unsubscribe` is unsupported in this context''), s))"

section \<open>The replies\<close>

text \<open>
  What a command is meant to do, without buffers and locks: the reply frame and the new state.
\<close>

fun reply ::
    "('w, 'tx, 'rx) broadcast \<Rightarrow> 'n notify \<Rightarrow> command \<Rightarrow> ('tx, 'w, 'n) system \<Rightarrow>
     frame \<times> ('tx, 'w, 'n) system" where
  "reply B N (GetCmd c) s =
     (case entries (state (shared s)) (get_key c) of Some e \<Rightarrow> Bulk (data e) | None \<Rightarrow> Null, s)"
| "reply B N (SetCmd c) s = (Simple ''OK'', snd (db_set_notify N (set_key c) (set_value c) (set_expire c) s))"
| "reply B N (PublishCmd c) s =
     (case run_pub_sub (db_publish B (pub_channel c) (pub_message c)) s of
        (Ok n, s') \<Rightarrow> (Integer n, s') | (_, s') \<Rightarrow> (Null, s'))"
| "reply B N (PingCmd c) s = (case ping_msg c of None \<Rightarrow> Simple ''PONG'' | Some m \<Rightarrow> Bulk m, s)"
| "reply B N (UnknownCmd c) s =
     (Error (''ERR unknown command '' @ [CHR 0x27] @ command_name c @ [CHR 0x27]), s)"
| "reply B N _ s = (Null, s)"

text \<open>The commands that answer with one frame, and those whose expiration the clock can hold.\<close>

fun answers :: "command \<Rightarrow> bool" where
  "answers (SubscribeCmd _) = False"
| "answers (UnsubscribeCmd _) = False"
| "answers _ = True"

fun fits_clock :: "instant \<Rightarrow> command \<Rightarrow> bool" where
  "fits_clock now (SetCmd c) = (case set_expire c of Some d \<Rightarrow> now + d < instant_limit | None \<Rightarrow> True)"
| "fits_clock now _ = True"

definition wrote :: "connection \<Rightarrow> frame \<Rightarrow> connection" where
  "wrote c f = c\<lparr>sent := sent c @ pending_out c @ encode f, pending_out := []\<rparr>"

declare write_frame.simps [simp del] encode.simps [simp del]

lemma write_frame_wrote: "\<not> write_fault c \<Longrightarrow> flat f \<Longrightarrow> write_frame c f = Ok (wrote c f)"
  by (simp add: write_frame_encode wrote_def)

lemma db_set_notify_Ok:
  assumes "\<not> poisoned (shared s)" "case e of Some d \<Rightarrow> clock s + d < instant_limit | None \<Rightarrow> True"
  shows "\<exists>s'. db_set_notify N k v e s = (Ok (), s') \<and> \<not> poisoned (shared s') \<and> clock s' = clock s"
proof (cases e)
  case None
  with assms show ?thesis by (simp add: db_set_notify_def run_db_def db_set_plain)
next
  case (Some d)
  with assms show ?thesis by (simp add: db_set_notify_def run_db_def db_set_timed)
qed

lemma command_apply_reply:
  assumes "answers c" "\<not> poisoned (shared s)" "fits_clock (clock s) c"
    and "\<not> write_fault dst" "flat (fst (reply B N c s))"
  shows "command_apply B N sub k c dst s = k (Ok (wrote dst (fst (reply B N c s))), snd (reply B N c s))"
proof (cases c)
  case (GetCmd x)
  with assms show ?thesis
    by (auto simp: command_apply_def get_apply_def run_db_def db_get_Ok write_frame_wrote
        split: option.splits)
next
  case (SetCmd x)
  with assms db_set_notify_Ok [of s "set_expire x" N "set_key x" "set_value x"] show ?thesis
    by (auto simp: command_apply_def set_apply_def write_frame_wrote)
next
  case (PublishCmd x)
  obtain r s' where r: "run_pub_sub (db_publish B (pub_channel x) (pub_message x)) s = (r, s')"
    by fastforce
  moreover from r assms(2) obtain n where "r = Ok n"
    by (auto simp: run_pub_sub_def db_publish_def split: option.splits prod.splits)
  ultimately show ?thesis
    using assms PublishCmd
    by (simp add: command_apply_def publish_apply_def write_frame_wrote)
qed (use assms in \<open>auto simp: command_apply_def ping_apply_def unknown_apply_def write_frame_wrote
      split: option.splits\<close>)

section \<open>Handlers are clients of the background task\<close>

text \<open>
  An \<open>apply\<close> changes the server only by steps that theory Purge\_Task allows the connection
  tasks, so its invariants hold with the commands of any number of connections interleaved. It
  never touches the shutdown flag.
\<close>

definition flag :: "('tx, 'w, 'n) system \<Rightarrow> bool" where
  "flag s = shutdown (state (shared s))"

definition client_step ::
    "('w, 'tx, 'rx) broadcast \<Rightarrow> 'n notify \<Rightarrow> ('tx, 'w, 'n) system \<Rightarrow> ('tx, 'w, 'n) system \<Rightarrow> bool" where
  "client_step B N s s' \<longleftrightarrow> env_step B N s s' \<and> flag s' = flag s"

lemma client_stepD:
  "(client_step B N)\<^sup>*\<^sup>* s s' \<Longrightarrow> flag s' = flag s \<and> (reachable B N s \<longrightarrow> reachable B N s')"
  by (induction rule: rtranclp_induct) (auto simp: client_step_def intro: reachable.env)

lemma run_db_get_client: "run_db (db_get k) s = (r, s') \<Longrightarrow> client_step B N s s'"
proof -
  assume r: "run_db (db_get k) s = (r, s')"
  then obtain sh where "db_get k (shared s) = (r, sh)" "s' = s\<lparr>shared := sh\<rparr>"
    by (auto simp: run_db_def split: prod.splits)
  moreover from this have "sh = shared s"
    by (cases "poisoned (shared s)") (simp_all add: db_get_Ok poisoned_operations)
  ultimately show ?thesis using env_step.get [of k s r sh B N] by (simp add: client_step_def flag_def)
qed

lemma run_publish_client: "run_pub_sub (db_publish B k v) s = (r, s') \<Longrightarrow> client_step B N s s'"
proof -
  assume r: "run_pub_sub (db_publish B k v) s = (r, s')"
  then obtain sh w where "db_publish B k v (shared s, world s) = (r, sh, w)" "s' = s\<lparr>shared := sh, world := w\<rparr>"
    by (auto simp: run_pub_sub_def split: prod.splits)
  with db_publish_state [of B k v "shared s" "world s" r sh w] env_step.publish [of B k v s r sh w N]
  show ?thesis by (simp add: client_step_def flag_def)
qed

lemma run_subscribe_client: "run_pub_sub (db_subscribe B k) s = (r, s') \<Longrightarrow> client_step B N s s'"
proof -
  assume r: "run_pub_sub (db_subscribe B k) s = (r, s')"
  then obtain sh w where "db_subscribe B k (shared s, world s) = (r, sh, w)" "s' = s\<lparr>shared := sh, world := w\<rparr>"
    by (auto simp: run_pub_sub_def split: prod.splits)
  with db_subscribe_state [of B k "shared s" "world s" r sh w] env_step.subscribe [of B k s r sh w N]
  show ?thesis by (simp add: client_step_def flag_def)
qed

lemma notify_client:
  assumes "client_step B N s (s'\<lparr>owed := Suc (owed s')\<rparr>)"
  shows "(client_step B N)\<^sup>*\<^sup>* s (s'\<lparr>cell := notify_one N (cell s')\<rparr>)"
proof -
  have "client_step B N (s'\<lparr>owed := Suc (owed s')\<rparr>) (s'\<lparr>cell := notify_one N (cell s')\<rparr>)"
    using env_step.notify [of "s'\<lparr>owed := Suc (owed s')\<rparr>" "owed s'" B N]
    by (simp add: client_step_def flag_def)
  with assms show ?thesis by (meson r_into_rtranclp rtranclp.rtrancl_into_rtrancl)
qed

lemma db_set_flag:
  "db_set now k v e sh = (r, sh') \<Longrightarrow> shutdown (state sh') = shutdown (state sh)"
  by (erule db_set_cases) simp_all

lemma db_set_notify_client:
  assumes "db_set_notify N k v e s = (r, s')"
  shows "(client_step B N)\<^sup>*\<^sup>* s s'"
proof -
  obtain x sh where d: "db_set (clock s) k v e (shared s) = (x, sh)" by fastforce
  have st: "client_step B N s (s\<lparr>shared := sh, owed := owed s + owe x\<rparr>)"
    using env_step.set [OF d, of B N] db_set_flag [OF d] by (simp add: client_step_def flag_def)
  show ?thesis
  proof (cases "x = Ok True")
    case True
    with assms d have "s' = (s\<lparr>shared := sh\<rparr>)\<lparr>cell := notify_one N (cell (s\<lparr>shared := sh\<rparr>))\<rparr>"
      by (simp add: db_set_notify_def run_db_def)
    with notify_client [of B N s "s\<lparr>shared := sh\<rparr>"] st True show ?thesis by (simp add: owe_def)
  next
    case False
    with assms d have "s' = s\<lparr>shared := sh\<rparr>"
      by (cases x) (auto simp: db_set_notify_def run_db_def)
    with st False show ?thesis by (simp add: owe_def r_into_rtranclp)
  qed
qed

lemma st_then_state: "snd (st_then rs f) = snd rs" if "\<And>a s. snd (f a s) = s"
  using that by (cases rs; cases "fst rs") (simp_all add: st_then_def)

lemma get_apply_client: "(client_step B N)\<^sup>*\<^sup>* s (snd (get_apply c dst s))"
  unfolding get_apply_def
  by (subst st_then_state) (simp_all add: Let_def r_into_rtranclp run_db_get_client [OF surjective_pairing])

lemma publish_apply_client: "(client_step B N)\<^sup>*\<^sup>* s (snd (publish_apply B c dst s))"
  unfolding publish_apply_def
  by (subst st_then_state) (simp_all add: r_into_rtranclp run_publish_client [OF surjective_pairing])

lemma set_apply_client: "(client_step B N)\<^sup>*\<^sup>* s (snd (set_apply N c dst s))"
  unfolding set_apply_def
  by (subst st_then_state) (simp_all add: db_set_notify_client [OF surjective_pairing])

lemma command_apply_client:
  assumes "\<And>cmd dst. (client_step B N)\<^sup>*\<^sup>* s (snd (sub cmd dst s))" "\<And>rs. snd (k rs) = snd rs"
  shows "(client_step B N)\<^sup>*\<^sup>* s (snd (command_apply B N sub k c dst s))"
  using assms get_apply_client publish_apply_client set_apply_client
  by (cases c) (simp_all add: command_apply_def)


section \<open>Properties\<close>

text \<open>
  The reply to an unknown command carries the name unescaped: a name that contains line breaks
  splits the reply, so that what the client reads is an error followed by a second frame chosen by
  whoever chose the name.
\<close>

theorem unknown_reply_splits:
  assumes "\<not> write_fault c" "pending_out c = []"
  shows "\<exists>c'. unknown_apply \<lparr>command_name = a @ CRLF @ ''+OK'' @ CRLF @ b\<rparr> c = Ok c' \<and>
    sent c' = sent c @ encode (Error (''ERR unknown command '' @ [CHR 0x27] @ a)) @
      encode (Simple ''OK'') @ b @ [CHR 0x27] @ CRLF"
  using assms by (simp add: unknown_apply_def write_frame_wrote wrote_def encode.simps)

theorem unknown_reply_splits_witness:
  "\<exists>c'. unknown_apply \<lparr>command_name = ''x'' @ CRLF @ ''+OK'' @ CRLF\<rparr> (new_connection []) = Ok c' \<and>
     sent c' = encode (Error (''ERR unknown command '' @ [CHR 0x27] @ ''x'')) @ encode (Simple ''OK'') @ [CHR 0x27] @ CRLF"
  using unknown_reply_splits [of "new_connection []" "''x''" "[]"] by (simp add: new_connection_def)

text \<open>
  Every command that answers with one frame does what the database says and nothing else: on a
  working connection and an unpoisoned database, \<open>Command::apply\<close> writes exactly the reply frame of
  the command and leaves the server in the state of the command.
\<close>

theorem command_apply_answers:
  assumes "answers c" "\<not> poisoned (shared s)" "fits_clock (clock s) c"
    and "\<not> write_fault dst" "flat (fst (reply B N c s))"
  shows "command_apply B N sub k c dst s = k (write_frame dst (fst (reply B N c s)), snd (reply B N c s))"
  using command_apply_reply [OF assms] assms(4,5) by (simp add: write_frame_wrote)

theorem command_apply_answers_witness:
  "command_apply ref_broadcast permit (\<lambda>_ _ _. None) Some (GetCmd \<lparr>get_key = ''a''\<rparr>) (new_connection []) due_state =
     Some (write_frame (new_connection []) (Bulk ''x''), due_state)"
proof -
  have r: "reply ref_broadcast permit (GetCmd \<lparr>get_key = ''a''\<rparr>) due_state = (Bulk ''x'', due_state)"
    by (simp add: due_state_simps)
  show ?thesis
    using command_apply_answers [of "GetCmd \<lparr>get_key = ''a''\<rparr>" due_state "new_connection []" ref_broadcast permit
        "\<lambda>_ _ _. None" Some] r
    by (simp add: due_state_simps isize_max_def new_connection_def)
qed

end
