(* ===== verification/Subscriber.thy ===== *)
theory Subscriber
  imports Apply
begin

text \<open>
  The subscriber mode of a connection: \<open>Subscribe::apply\<close> and its helpers in
  \<open>src/mini-redis/src/cmd/subscribe.rs\<close>. The loop is a function of one outcome of \<open>select!\<close>
  at a time: a message that the \<open>StreamMap\<close> yields, the read side of the connection, or the
  shutdown signal. Which outcome is taken, and when, is up to the caller (theory Server).
\<close>

section \<open>State and replies\<close>

text \<open>The operations of \<open>tokio_stream::StreamMap\<close> that the sources call.\<close>

record ('m, 'rx) stream_map =
  sm_new :: 'm
  sm_insert :: "bytes \<Rightarrow> 'rx \<Rightarrow> 'm \<Rightarrow> 'm"
  sm_remove :: "bytes \<Rightarrow> 'm \<Rightarrow> 'm"
  sm_keys :: "'m \<Rightarrow> bytes list"
  sm_len :: "'m \<Rightarrow> nat"

text \<open>What the documentation of \<open>StreamMap\<close> promises: it is a map, and \<open>len\<close> counts its keys.\<close>

definition stream_map_ok :: "('m, 'rx) stream_map \<Rightarrow> bool" where
  "stream_map_ok M \<longleftrightarrow>
     sm_keys M (sm_new M) = [] \<and>
     (\<forall>m. distinct (sm_keys M m) \<and> sm_len M m = length (sm_keys M m)) \<and>
     (\<forall>k r m. set (sm_keys M (sm_insert M k r m)) = insert k (set (sm_keys M m))) \<and>
     (\<forall>k m. set (sm_keys M (sm_remove M k m)) = set (sm_keys M m) - {k})"

definition make_subscribe_frame :: "bytes \<Rightarrow> nat \<Rightarrow> (frame, crate_error) res" where
  "make_subscribe_frame channel_name num_subs =
     and_then (push_bulk array ''subscribe'') (\<lambda>response.
     and_then (push_bulk response channel_name) (\<lambda>response. push_int response (of_nat num_subs)))"

definition make_unsubscribe_frame :: "bytes \<Rightarrow> nat \<Rightarrow> (frame, crate_error) res" where
  "make_unsubscribe_frame channel_name num_subs =
     and_then (push_bulk array ''unsubscribe'') (\<lambda>response.
     and_then (push_bulk response channel_name) (\<lambda>response. push_int response (of_nat num_subs)))"

definition make_message_frame :: "bytes \<Rightarrow> bytes \<Rightarrow> (frame, crate_error) res" where
  "make_message_frame channel_name msg =
     and_then (push_bulk array ''message'') (\<lambda>response.
     and_then (push_bulk response channel_name) (\<lambda>response. push_bulk response msg))"

section \<open>The loop\<close>

definition subscribe_to_channel ::
    "('w, 'tx, 'rx) broadcast \<Rightarrow> ('m, 'rx) stream_map \<Rightarrow> bytes \<Rightarrow> 'm \<Rightarrow> connection \<Rightarrow>
     ('tx, 'w, 'n) system \<Rightarrow> ('m \<times> connection, crate_error) res \<times> ('tx, 'w, 'n) system" where
  "subscribe_to_channel B M channel_name subscriptions dst s =
     st_then (run_pub_sub (db_subscribe B channel_name) s) (\<lambda>rx s.
       let subscriptions = sm_insert M channel_name rx subscriptions in
       (and_then (make_subscribe_frame channel_name (sm_len M subscriptions)) (\<lambda>response.
        and_then (write_frame dst response) (\<lambda>dst. Ok (subscriptions, dst))), s))"

text \<open>The loop \<open>for channel_name in self.channels.drain(..)\<close>.\<close>

fun subscribe_channels ::
    "('w, 'tx, 'rx) broadcast \<Rightarrow> ('m, 'rx) stream_map \<Rightarrow> bytes list \<Rightarrow> 'm \<Rightarrow> connection \<Rightarrow>
     ('tx, 'w, 'n) system \<Rightarrow> ('m \<times> connection, crate_error) res \<times> ('tx, 'w, 'n) system" where
  "subscribe_channels B M [] subscriptions dst s = (Ok (subscriptions, dst), s)"
| "subscribe_channels B M (channel_name # channels) subscriptions dst s =
     st_then (subscribe_to_channel B M channel_name subscriptions dst s) (\<lambda>(subscriptions, dst) s.
       subscribe_channels B M channels subscriptions dst s)"

text \<open>The loop \<open>for channel_name in unsubscribe.channels\<close>.\<close>

fun unsubscribe_loop ::
    "('m, 'rx) stream_map \<Rightarrow> bytes list \<Rightarrow> 'm \<Rightarrow> connection \<Rightarrow> ('m \<times> connection, crate_error) res" where
  "unsubscribe_loop M [] subscriptions dst = Ok (subscriptions, dst)"
| "unsubscribe_loop M (channel_name # channels) subscriptions dst =
     (let subscriptions = sm_remove M channel_name subscriptions in
      and_then (make_unsubscribe_frame channel_name (sm_len M subscriptions)) (\<lambda>response.
      and_then (write_frame dst response) (\<lambda>dst.
        unsubscribe_loop M channels subscriptions dst)))"

definition handle_command ::
    "env \<Rightarrow> ('m, 'rx) stream_map \<Rightarrow> frame \<Rightarrow> bytes list \<Rightarrow> 'm \<Rightarrow> connection \<Rightarrow>
     (bytes list \<times> 'm \<times> connection, crate_error) res" where
  "handle_command E M frame subscribe_to subscriptions dst =
     and_then (from_frame E frame) (\<lambda>command.
       case command of
         SubscribeCmd subscribe \<Rightarrow> Ok (subscribe_to @ sub_channels subscribe, subscriptions, dst)
       | UnsubscribeCmd unsubscribe \<Rightarrow>
           (let channels = (if unsub_channels unsubscribe = [] then sm_keys M subscriptions
                            else unsub_channels unsubscribe)
            in and_then (unsubscribe_loop M channels subscriptions dst) (\<lambda>(subscriptions, dst).
                 Ok (subscribe_to, subscriptions, dst)))
       | command \<Rightarrow>
           and_then (unknown_apply \<lparr>command_name = get_name command\<rparr> dst) (\<lambda>dst.
             Ok (subscribe_to, subscriptions, dst)))"

datatype select = SelMessage bytes bytes | SelFrame | SelShutdown

text \<open>Where the loop is after an iteration: waiting in \<open>select!\<close> again, or returned.\<close>

datatype 'm sub_loop = SubWaiting 'm connection | SubReturned "(connection, crate_error) res"

fun iterate :: "('m \<times> connection, crate_error) res \<times> 's \<Rightarrow> 'm sub_loop \<times> 's" where
  "iterate (Ok (subscriptions, dst), s) = (SubWaiting subscriptions dst, s)"
| "iterate (Err e, s) = (SubReturned (Err e), s)"
| "iterate (Panic p, s) = (SubReturned (Panic p), s)"

text \<open>\<open>Subscribe::apply\<close> up to its first \<open>select!\<close>.\<close>

definition subscribe_enter ::
    "('w, 'tx, 'rx) broadcast \<Rightarrow> ('m, 'rx) stream_map \<Rightarrow> Subscribe \<Rightarrow> connection \<Rightarrow>
     ('tx, 'w, 'n) system \<Rightarrow> 'm sub_loop \<times> ('tx, 'w, 'n) system" where
  "subscribe_enter B M self dst s =
     iterate (subscribe_channels B M (sub_channels self) (sm_new M) dst s)"

text \<open>From one \<open>select!\<close> to the next.\<close>

definition subscribe_select ::
    "env \<Rightarrow> ('w, 'tx, 'rx) broadcast \<Rightarrow> ('m, 'rx) stream_map \<Rightarrow> select \<Rightarrow> 'm \<Rightarrow> connection \<Rightarrow>
     ('tx, 'w, 'n) system \<Rightarrow> 'm sub_loop \<times> ('tx, 'w, 'n) system" where
  "subscribe_select E B M ev subscriptions dst s =
     (case ev of
        SelMessage channel_name msg \<Rightarrow>
          iterate (and_then (make_message_frame channel_name msg) (\<lambda>f.
                   and_then (write_frame dst f) (\<lambda>dst. Ok (subscriptions, dst))), s)
      | SelFrame \<Rightarrow>
          (case read_frame E dst of
             Pending dst \<Rightarrow> (SubWaiting subscriptions dst, s)
           | Ready (Err e) \<Rightarrow> (SubReturned (Err e), s)
           | Ready (Panic p) \<Rightarrow> (SubReturned (Panic p), s)
           | Ready (Ok (None, dst)) \<Rightarrow> (SubReturned (Ok dst), s)
           | Ready (Ok (Some frame, dst)) \<Rightarrow>
               iterate (st_then (handle_command E M frame [] subscriptions dst, s)
                 (\<lambda>(channels, subscriptions, dst) s. subscribe_channels B M channels subscriptions dst s)))
      | SelShutdown \<Rightarrow> (SubReturned (Ok dst), s))"

section \<open>What the subscriber sees\<close>

lemma make_frames [simp]:
  "make_subscribe_frame ch n = Ok (Array [Bulk ''subscribe'', Bulk ch, Integer (of_nat n)])"
  "make_unsubscribe_frame ch n = Ok (Array [Bulk ''unsubscribe'', Bulk ch, Integer (of_nat n)])"
  "make_message_frame ch msg = Ok (Array [Bulk ''message'', Bulk ch, Bulk msg])"
  by (simp_all add: make_subscribe_frame_def make_unsubscribe_frame_def make_message_frame_def array_def)

lemma flat_reply:
  "length tag \<le> isize_max \<Longrightarrow> length ch \<le> isize_max \<Longrightarrow> flat (Array [Bulk tag, Bulk ch, Integer n])"
  "length tag \<le> isize_max \<Longrightarrow> length ch \<le> isize_max \<Longrightarrow> length msg \<le> isize_max \<Longrightarrow>
     flat (Array [Bulk tag, Bulk ch, Bulk msg])"
  by (simp_all add: isize_max_def)

text \<open>The confirmations owed for a list of channels, from the set of channels already held.\<close>

fun confirmations :: "bytes \<Rightarrow> (bytes \<Rightarrow> bytes set \<Rightarrow> bytes set) \<Rightarrow> bytes set \<Rightarrow> bytes list \<Rightarrow> frame list" where
  "confirmations tag upd K [] = []"
| "confirmations tag upd K (ch # chs) =
     Array [Bulk tag, Bulk ch, Integer (of_nat (card (upd ch K)))] # confirmations tag upd (upd ch K) chs"

fun wrote_all :: "connection \<Rightarrow> frame list \<Rightarrow> connection" where
  "wrote_all c [] = c"
| "wrote_all c (f # fs) = wrote_all (wrote c f) fs"

lemma wrote_simps [simp]: "write_fault (wrote c f) = write_fault c" "inbound (wrote c f) = inbound c"
  "buffer (wrote c f) = buffer c" "pending_out (wrote c f) = []"
  by (simp_all add: wrote_def)

lemma wrote_all_sent:
  "pending_out c = [] \<Longrightarrow> wrote_all c fs = c\<lparr>sent := sent c @ concat (map encode fs)\<rparr>"
  by (induction fs arbitrary: c) (simp_all add: wrote_def)

lemma stream_map_okD:
  assumes "stream_map_ok M"
  shows "sm_keys M (sm_new M) = []"
    "sm_len M m = card (set (sm_keys M m))" "distinct (sm_keys M m)"
    "set (sm_keys M (sm_insert M k r m)) = insert k (set (sm_keys M m))"
    "set (sm_keys M (sm_remove M k m)) = set (sm_keys M m) - {k}"
  using assms by (simp_all add: stream_map_ok_def distinct_card)

lemma run_subscribe_Ok:
  assumes "\<not> poisoned (shared s)"
  obtains rx s' where "run_pub_sub (db_subscribe B k) s = (Ok rx, s')" "\<not> poisoned (shared s')"
    "clock s' = clock s"
proof -
  obtain r s' where r: "run_pub_sub (db_subscribe B k) s = (r, s')" by fastforce
  with assms have "\<not> poisoned (shared s')" "clock s' = clock s" "\<exists>rx. r = Ok rx"
    by (auto simp: run_pub_sub_def db_subscribe_def split: option.splits prod.splits)
  with r that show thesis by blast
qed

lemma subscribe_channels_confirms:
  assumes "stream_map_ok M"
  shows "\<not> poisoned (shared s) \<Longrightarrow> \<not> write_fault dst \<Longrightarrow> list_all (\<lambda>ch. length ch \<le> isize_max) chs \<Longrightarrow>
    \<exists>m' s'. subscribe_channels B M chs m dst s =
        (Ok (m', wrote_all dst (confirmations ''subscribe'' insert (set (sm_keys M m)) chs)), s') \<and>
      set (sm_keys M m') = set (sm_keys M m) \<union> set chs \<and> \<not> poisoned (shared s')"
proof (induction chs arbitrary: m dst s)
  case (Cons ch chs)
  obtain rx t where t: "run_pub_sub (db_subscribe B ch) s = (Ok rx, t)" "\<not> poisoned (shared t)"
    by (rule run_subscribe_Ok [OF Cons.prems(1), where B = B and k = ch]) (erule (1) that)
  let ?m = "sm_insert M ch rx m"
  let ?f = "Array [Bulk ''subscribe'', Bulk ch, Integer (of_nat (card (set (sm_keys M ?m))))]"
  have "flat ?f" using Cons.prems(3) by (intro flat_reply) (simp_all add: isize_max_def)
  then have "write_frame dst ?f = Ok (wrote dst ?f)" using Cons.prems(2) by (rule write_frame_wrote [rotated])
  then have "subscribe_to_channel B M ch m dst s = (Ok (?m, wrote dst ?f), t)"
    using t by (simp add: subscribe_to_channel_def Let_def stream_map_okD(2) [OF assms])
  moreover obtain m' s' where "subscribe_channels B M chs ?m (wrote dst ?f) t =
        (Ok (m', wrote_all (wrote dst ?f) (confirmations ''subscribe'' insert (set (sm_keys M ?m)) chs)), s')"
      "set (sm_keys M m') = set (sm_keys M ?m) \<union> set chs" "\<not> poisoned (shared s')"
    using Cons.IH [of t "wrote dst ?f" ?m] Cons.prems t(2) by auto
  ultimately show ?case by (simp add: stream_map_okD(4) [OF assms])
qed simp

lemma unsubscribe_loop_confirms:
  assumes "stream_map_ok M"
  shows "\<not> write_fault dst \<Longrightarrow> list_all (\<lambda>ch. length ch \<le> isize_max) chs \<Longrightarrow>
    \<exists>m'. unsubscribe_loop M chs m dst =
        Ok (m', wrote_all dst (confirmations ''unsubscribe'' (\<lambda>k K. K - {k}) (set (sm_keys M m)) chs)) \<and>
      set (sm_keys M m') = set (sm_keys M m) - set chs"
proof (induction chs arbitrary: m dst)
  case (Cons ch chs)
  let ?m = "sm_remove M ch m"
  let ?f = "Array [Bulk ''unsubscribe'', Bulk ch, Integer (of_nat (card (set (sm_keys M ?m))))]"
  have "flat ?f" using Cons.prems(2) by (intro flat_reply) (simp_all add: isize_max_def)
  then have "write_frame dst ?f = Ok (wrote dst ?f)" using Cons.prems(1) by (rule write_frame_wrote [rotated])
  moreover obtain m' where "unsubscribe_loop M chs ?m (wrote dst ?f) =
        Ok (m', wrote_all (wrote dst ?f)
          (confirmations ''unsubscribe'' (\<lambda>k K. K - {k}) (set (sm_keys M ?m)) chs))"
      "set (sm_keys M m') = set (sm_keys M ?m) - set chs"
    using Cons.IH [of "wrote dst ?f" ?m] Cons.prems by auto
  ultimately show ?case
    by (auto simp: Let_def stream_map_okD(2,5) [OF assms])
qed simp


lemma subscribe_channels_client:
  "(client_step B N)\<^sup>*\<^sup>* s (snd (subscribe_channels B M chs m dst s))"
proof (induction chs arbitrary: m dst s)
  case (Cons ch chs)
  obtain x t where x: "run_pub_sub (db_subscribe B ch) s = (x, t)" by fastforce
  then have e: "client_step B N s t" by (rule run_subscribe_client)
  obtain y where y: "subscribe_to_channel B M ch m dst s = (y, t)"
    using x by (cases x) (simp_all add: subscribe_to_channel_def Let_def)
  show ?case
  proof (cases y)
    case (Ok z)
    obtain m' d' where "z = (m', d')" by (cases z)
    with Ok y Cons.IH [of t m' d'] e show ?thesis by (simp add: converse_rtranclp_into_rtranclp)
  qed (use y e in auto)
qed simp

lemma iterate_state [simp]: "snd (iterate rs) = snd rs"
  by (cases rs rule: iterate.cases) simp_all

lemma subscribe_enter_client: "(client_step B N)\<^sup>*\<^sup>* s (snd (subscribe_enter B M c dst s))"
  by (simp add: subscribe_enter_def subscribe_channels_client)

lemma subscribe_select_client:
  "(client_step B N)\<^sup>*\<^sup>* s (snd (subscribe_select E B M ev m dst s))"
proof (cases "\<exists>f d. ev = SelFrame \<and> read_frame E dst = Ready (Ok (Some f, d))")
  case True
  then obtain f d where f: "ev = SelFrame" "read_frame E dst = Ready (Ok (Some f, d))" by blast
  show ?thesis
  proof (cases "handle_command E M f [] m d")
    case (Ok x)
    then show ?thesis
      using f by (cases x) (simp add: subscribe_select_def subscribe_channels_client)
  qed (use f in \<open>simp_all add: subscribe_select_def\<close>)
next
  case False
  then have "snd (subscribe_select E B M ev m dst s) = s"
    by (auto simp: subscribe_select_def split: select.splits read_poll.splits res.splits option.splits)
  then show ?thesis by simp
qed

section \<open>Properties\<close>

text \<open>A concrete \<open>StreamMap\<close>: the list of channels with their receivers.\<close>

definition ref_stream_map :: "((bytes \<times> nat) list, nat) stream_map" where
  "ref_stream_map =
     \<lparr>sm_new = [],
      sm_insert = (\<lambda>k r m. filter (\<lambda>x. fst x \<noteq> k) m @ [(k, r)]),
      sm_remove = (\<lambda>k m. filter (\<lambda>x. fst x \<noteq> k) m),
      sm_keys = (\<lambda>m. remdups (map fst m)),
      sm_len = (\<lambda>m. length (remdups (map fst m)))\<rparr>"

lemma ref_stream_map_ok: "stream_map_ok ref_stream_map"
  by (auto simp: stream_map_ok_def ref_stream_map_def)

text \<open>
  Subscribing to a list of channels confirms each of them in order with the number of distinct
  channels held at that point, and leaves the client subscribed to exactly those and the earlier
  ones; names may repeat.
\<close>

theorem subscribe_confirms:
  assumes "stream_map_ok M" "\<not> poisoned (shared s)" "\<not> write_fault dst" "pending_out dst = []"
    and "list_all (\<lambda>ch. length ch \<le> isize_max) chs"
  shows "\<exists>m s'. subscribe_enter B M \<lparr>sub_channels = chs\<rparr> dst s =
      (SubWaiting m (dst\<lparr>sent := sent dst @ concat (map encode (confirmations ''subscribe'' insert {} chs))\<rparr>), s') \<and>
    set (sm_keys M m) = set chs \<and> \<not> poisoned (shared s')"
  using subscribe_channels_confirms [OF assms(1,2,3,5), of B "sm_new M"] assms(4)
  by (auto simp: subscribe_enter_def stream_map_okD(1) [OF assms(1)] wrote_all_sent)

theorem subscribe_confirms_witness:
  "\<exists>m s'. subscribe_enter ref_broadcast ref_stream_map \<lparr>sub_channels = [''a'', ''b'', ''a'']\<rparr>
      (new_connection []) due_state =
    (SubWaiting m (new_connection []\<lparr>sent := concat (map encode
       [Array [Bulk ''subscribe'', Bulk ''a'', Integer 1], Array [Bulk ''subscribe'', Bulk ''b'', Integer 2],
        Array [Bulk ''subscribe'', Bulk ''a'', Integer 2]])\<rparr>), s') \<and>
     set (sm_keys ref_stream_map m) = {''a'', ''b''}"
  using subscribe_confirms [OF ref_stream_map_ok due_state_simps(5), of "new_connection []" "[''a'', ''b'', ''a'']" ref_broadcast]
  by (simp add: new_connection_def isize_max_def insert_commute) blast

text \<open>
  An \<open>UNSUBSCRIBE\<close> without channels leaves every channel: each is confirmed once with the number
  of channels that remain, and the subscription map is empty afterwards.
\<close>

theorem unsubscribe_all:
  assumes "stream_map_ok M" "\<not> write_fault dst" "pending_out dst = []"
    and "from_frame E f = Ok (UnsubscribeCmd \<lparr>unsub_channels = []\<rparr>)"
    and "list_all (\<lambda>ch. length ch \<le> isize_max) (sm_keys M m)"
  shows "\<exists>m'. handle_command E M f [] m dst =
      Ok ([], m', dst\<lparr>sent := sent dst @ concat (map encode
        (confirmations ''unsubscribe'' (\<lambda>k K. K - {k}) (set (sm_keys M m)) (sm_keys M m)))\<rparr>) \<and>
    sm_keys M m' = []"
  using unsubscribe_loop_confirms [OF assms(1,2,5), of m] assms(3,4)
  by (auto simp: handle_command_def wrote_all_sent)

theorem unsubscribe_all_witness:
  "\<exists>m'. handle_command (ref_env True) ref_stream_map (Array [Bulk ''unsubscribe'']) []
      [(''a'', 0), (''b'', 1)] (new_connection []) =
    Ok ([], m', new_connection []\<lparr>sent := concat (map encode
      [Array [Bulk ''unsubscribe'', Bulk ''a'', Integer 1], Array [Bulk ''unsubscribe'', Bulk ''b'', Integer 0]])\<rparr>)"
proof -
  have "unsubscribe_into_frame \<lparr>unsub_channels = []\<rparr> = Ok (Array [Bulk ''unsubscribe''])"
    by (simp add: unsubscribe_into_frame_def array_def)
  then have "from_frame (ref_env True) (Array [Bulk ''unsubscribe'']) = Ok (UnsubscribeCmd \<lparr>unsub_channels = []\<rparr>)"
    using from_frame_requests [OF ref_env_case ref_env_atoi, of "UnsubscribeCmd \<lparr>unsub_channels = []\<rparr>"] by simp
  moreover have "sm_keys ref_stream_map [(''a'', 0), (''b'', 1)] = [''a'', ''b'']"
    by (simp add: ref_stream_map_def)
  ultimately show ?thesis
    using unsubscribe_all [OF ref_stream_map_ok, of "new_connection []" "ref_env True"
        "Array [Bulk ''unsubscribe'']" "[(''a'', 0), (''b'', 1)]"]
    by (auto simp: new_connection_def isize_max_def insert_Diff_if)
qed

text \<open>
  In subscriber mode every command other than the two subscription commands is answered with an
  error that names it, and changes neither the subscriptions nor the server.
\<close>

theorem subscriber_rejects:
  assumes "from_frame E f = Ok c" "\<forall>u. c \<noteq> SubscribeCmd u" "\<forall>u. c \<noteq> UnsubscribeCmd u"
    and "read_frame E dst = Ready (Ok (Some f, dst'))" "\<not> write_fault dst'"
  shows "subscribe_select E B M SelFrame m dst s =
    (SubWaiting m (wrote dst' (Error (''ERR unknown command '' @ [CHR 0x27] @ get_name c @ [CHR 0x27]))), s)"
  using assms
  by (cases c) (simp_all add: subscribe_select_def handle_command_def unknown_apply_def write_frame_wrote)

theorem subscriber_rejects_witness:
  "\<exists>dst. subscribe_select (ref_env True) ref_broadcast ref_stream_map SelFrame []
      (new_connection [Recv (encode (Array [Bulk ''ping'']))]) due_state = (SubWaiting [] dst, due_state)"
proof -
  let ?f = "Array [Bulk ''ping'']" and ?c = "PingCmd \<lparr>ping_msg = None\<rparr>"
  have "ping_into_frame \<lparr>ping_msg = None\<rparr> = Ok ?f" by (simp add: ping_into_frame_def array_def)
  then have f: "from_frame (ref_env True) ?f = Ok ?c"
    using from_frame_requests [OF ref_env_case ref_env_atoi, of ?c] by simp
  let ?n = "new_connection [Recv (encode ?f)]"
  have fl: "flat ?f" "line_safe ?f" by (simp_all add: isize_max_def)
  have e: "encode ?f \<noteq> []" by (rule wire.enc_nonempty) (intro conjI fl)
  have len: "length (encode ?f) \<le> isize_max" by (simp add: encode.simps isize_max_def CRLF_def dec.simps)
  from read_frames_encode [OF ref_env_atoi, of "[?f]" ?n "[encode ?f]" "[]" "[]" True] fl e len
  obtain d where r: "read_frame (ref_env True) ?n = Ready (Ok (Some ?f, d))" "\<not> write_fault d"
    by (auto simp: new_connection_def split: read_poll.splits res.splits option.splits)
  from subscriber_rejects [OF f _ _ r(1,2), of ref_broadcast ref_stream_map "[]" due_state] show ?thesis
    by auto
qed

end
