(* ===== verification/Server.thy ===== *)
theory Server
  imports Subscriber
begin

text \<open>
  \<open>src/mini-redis/src/server.rs\<close> and \<open>shutdown.rs\<close>: the connection handler as a function of one
  outcome of its \<open>select!\<close>, the accept loop with its back-off and its connection limit, and
  \<open>run\<close> with the shutdown sequence, composed into a step relation of the whole server: the
  listener, any number of handlers, the database and the background task, interleaved freely.
\<close>

section \<open>The shutdown listener\<close>

record Shutdown =
  sd_flag :: bool

definition shutdown_new :: Shutdown where
  "shutdown_new = \<lparr>sd_flag = False\<rparr>"

text \<open>
  A poll of \<open>Shutdown::recv\<close>; \<open>closed\<close> says that the sender of the channel is gone, which is when
  \<open>notify.recv()\<close> completes, since no value is ever sent.
\<close>

definition shutdown_recv :: "bool \<Rightarrow> Shutdown \<Rightarrow> Shutdown option" where
  "shutdown_recv closed self =
     (if sd_flag self then Some self
      else if closed then Some (self\<lparr>sd_flag := True\<rparr>)
      else None)"

section \<open>The handler\<close>

text \<open>Where \<open>Handler::run\<close> is: at its own \<open>select!\<close>, inside \<open>Subscribe::apply\<close>, or returned.\<close>

datatype 'm mode = Serving | InSubscribe 'm | Ended "(unit, crate_error) res"

record 'm handler =
  h_conn :: connection
  h_shutdown :: Shutdown
  h_mode :: "'m mode"

definition new_handler :: "'m handler" where
  "new_handler = \<lparr>h_conn = new_connection [], h_shutdown = shutdown_new, h_mode = Serving\<rparr>"

text \<open>The test \<open>while !self.shutdown.is_shutdown()\<close>.\<close>

definition loop_top :: "'m handler \<Rightarrow> 'm handler" where
  "loop_top h = h\<lparr>h_mode := if sd_flag (h_shutdown h) then Ended (Ok ()) else Serving\<rparr>"

fun after_apply :: "'m handler \<Rightarrow> (connection, crate_error) res \<times> 's \<Rightarrow> 'm handler \<times> 's" where
  "after_apply h (Ok conn, s) = (loop_top (h\<lparr>h_conn := conn\<rparr>), s)"
| "after_apply h (Err e, s) = (h\<lparr>h_mode := Ended (Err e)\<rparr>, s)"
| "after_apply h (Panic p, s) = (h\<lparr>h_mode := Ended (Panic p)\<rparr>, s)"

fun in_subscribe :: "'m handler \<Rightarrow> 'm sub_loop \<times> 's \<Rightarrow> 'm handler \<times> 's" where
  "in_subscribe h (SubWaiting m conn, s) = (h\<lparr>h_conn := conn, h_mode := InSubscribe m\<rparr>, s)"
| "in_subscribe h (SubReturned r, s) = after_apply h (r, s)"

text \<open>A frame has arrived: parse it and run the command.\<close>

definition handle_frame ::
    "env \<Rightarrow> ('w, 'tx, 'rx) broadcast \<Rightarrow> 'n notify \<Rightarrow> ('m, 'rx) stream_map \<Rightarrow> frame \<Rightarrow> connection \<Rightarrow>
     'm handler \<Rightarrow> ('tx, 'w, 'n) system \<Rightarrow> 'm handler \<times> ('tx, 'w, 'n) system" where
  "handle_frame E B N M frame conn h s =
     (case from_frame E frame of
        Err e \<Rightarrow> (h\<lparr>h_mode := Ended (Err e)\<rparr>, s)
      | Panic p \<Rightarrow> (h\<lparr>h_mode := Ended (Panic p)\<rparr>, s)
      | Ok cmd \<Rightarrow>
          command_apply B N (\<lambda>cmd dst s. in_subscribe h (subscribe_enter B M cmd dst s))
            (after_apply h) cmd conn s)"

text \<open>\<open>Handler::run\<close> from one \<open>select!\<close> to the next.\<close>

definition handler_select ::
    "env \<Rightarrow> ('w, 'tx, 'rx) broadcast \<Rightarrow> 'n notify \<Rightarrow> ('m, 'rx) stream_map \<Rightarrow> bool \<Rightarrow> select \<Rightarrow>
     'm handler \<Rightarrow> ('tx, 'w, 'n) system \<Rightarrow> 'm handler \<times> ('tx, 'w, 'n) system" where
  "handler_select E B N M closed ev h s =
     (case h_mode h of
        Ended r \<Rightarrow> (h, s)
      | InSubscribe m \<Rightarrow>
          (case ev of
             SelShutdown \<Rightarrow>
               (case shutdown_recv closed (h_shutdown h) of
                  None \<Rightarrow> (h, s)
                | Some sd \<Rightarrow>
                    in_subscribe (h\<lparr>h_shutdown := sd\<rparr>) (subscribe_select E B M ev m (h_conn h) s))
           | _ \<Rightarrow> in_subscribe h (subscribe_select E B M ev m (h_conn h) s))
      | Serving \<Rightarrow>
          (case ev of
             SelMessage _ _ \<Rightarrow> (h, s)
           | SelShutdown \<Rightarrow>
               (case shutdown_recv closed (h_shutdown h) of
                  None \<Rightarrow> (h, s)
                | Some sd \<Rightarrow> (h\<lparr>h_shutdown := sd, h_mode := Ended (Ok ())\<rparr>, s))
           | SelFrame \<Rightarrow>
               (case read_frame E (h_conn h) of
                  Pending conn \<Rightarrow> (h\<lparr>h_conn := conn\<rparr>, s)
                | Ready (Err e) \<Rightarrow> (h\<lparr>h_mode := Ended (Err e)\<rparr>, s)
                | Ready (Panic p) \<Rightarrow> (h\<lparr>h_mode := Ended (Panic p)\<rparr>, s)
                | Ready (Ok (None, conn)) \<Rightarrow> (h\<lparr>h_conn := conn, h_mode := Ended (Ok ())\<rparr>, s)
                | Ready (Ok (Some frame, conn)) \<Rightarrow> handle_frame E B N M frame conn h s)))"

section \<open>The listener\<close>

definition MAX_CONNECTIONS :: nat where
  "MAX_CONNECTIONS = 250"

text \<open>
  \<open>Listener::accept\<close> on the results of the coming \<open>listener.accept()\<close> calls (\<open>True\<close> is a
  connection): what it returns, if it returns, and the seconds it sleeps.
\<close>

fun accept_loop :: "u64 \<Rightarrow> bool list \<Rightarrow> bool option \<times> u64 list" where
  "accept_loop backoff [] = (None, [])"
| "accept_loop backoff (True # results) = (Some True, [])"
| "accept_loop backoff (False # results) =
     (if backoff > 64 then (Some False, [])
      else apsnd (Cons backoff) (accept_loop (backoff * 2) results))"

definition accept :: "bool list \<Rightarrow> bool option \<times> u64 list" where
  "accept results = accept_loop 1 results"

text \<open>Where \<open>Listener::run\<close> is: waiting for a permit, accepting or sleeping with one, returned.\<close>

datatype listener = Acquiring | Accepting u64 | Sleeping u64 | Returned

datatype phase = Running | Draining | Stopped

text \<open>
  \<open>stalled\<close>: the handlers whose last step is still in one of its writes, because the socket has no room
  and the peer does not read. Such a handler is not at a \<open>select!\<close>, so nothing but room in the
  socket or an error of the write moves it on.
\<close>

record ('tx, 'w, 'n, 'm) server =
  sys :: "('tx, 'w, 'n) system"
  handlers :: "'m handler list"
  permits :: nat
  listen :: listener
  phase :: phase
  stalled :: "nat set"

definition server_new :: "'n notify \<Rightarrow> 'w \<Rightarrow> instant \<Rightarrow> ('tx, 'w, 'n, 'm) server" where
  "server_new N w t = \<lparr>sys = initial N w t, handlers = [], permits = MAX_CONNECTIONS,
     listen = Acquiring, phase = Running, stalled = {}\<rparr>"

fun live :: "'m handler \<Rightarrow> bool" where
  "live h = (case h_mode h of Ended _ \<Rightarrow> False | _ \<Rightarrow> True)"

definition live_count :: "('tx, 'w, 'n, 'm) server \<Rightarrow> nat" where
  "live_count s = length (filter live (handlers s))"

text \<open>The permit a listener holds while it accepts; dropping the future releases it.\<close>

fun held :: "listener \<Rightarrow> nat" where
  "held (Accepting _) = 1"
| "held (Sleeping _) = 1"
| "held _ = 0"

text \<open>Leaving the \<open>select!\<close> of \<open>run\<close>: the accept loop is gone, the two senders are dropped.\<close>

definition begin_shutdown :: "('tx, 'w, 'n, 'm) server \<Rightarrow> ('tx, 'w, 'n, 'm) server" where
  "begin_shutdown s = s\<lparr>permits := permits s + held (listen s), listen := Returned, phase := Draining\<rparr>"

text \<open>A task that has returned drops its permit.\<close>

definition put_handler :: "nat \<Rightarrow> 'm handler \<Rightarrow> ('tx, 'w, 'n, 'm) server \<Rightarrow> ('tx, 'w, 'n, 'm) server" where
  "put_handler i h s = s\<lparr>handlers := (handlers s)[i := h],
     permits := permits s + (if live h then 0 else 1)\<rparr>"

inductive server_step ::
    "env \<Rightarrow> ('w, 'tx, 'rx) broadcast \<Rightarrow> 'n notify \<Rightarrow> ('m, 'rx) stream_map \<Rightarrow>
     ('tx, 'w, 'n, 'm) server \<Rightarrow> ('tx, 'w, 'n, 'm) server \<Rightarrow> bool" for E B N M where
  acquire: "listen s = Acquiring \<Longrightarrow> permits s = Suc n \<Longrightarrow>
    server_step E B N M s (s\<lparr>permits := n, listen := Accepting 1\<rparr>)"
| accepted: "listen s = Accepting b \<Longrightarrow>
    server_step E B N M s (s\<lparr>handlers := handlers s @ [new_handler], listen := Acquiring\<rparr>)"
| accept_retry: "listen s = Accepting b \<Longrightarrow> b \<le> 64 \<Longrightarrow>
    server_step E B N M s (s\<lparr>listen := Sleeping b\<rparr>)"
| accept_wake: "listen s = Sleeping b \<Longrightarrow>
    server_step E B N M s (s\<lparr>listen := Accepting (b * 2)\<rparr>)"
| accept_fail: "listen s = Accepting b \<Longrightarrow> b > 64 \<Longrightarrow> server_step E B N M s (begin_shutdown s)"
| signal: "phase s = Running \<Longrightarrow> server_step E B N M s (begin_shutdown s)"
| deliver: "i < length (handlers s) \<Longrightarrow> h = handlers s ! i \<Longrightarrow>
    server_step E B N M s (s\<lparr>handlers := (handlers s)[i :=
      h\<lparr>h_conn := (h_conn h)\<lparr>inbound := inbound (h_conn h) @ [ev]\<rparr>\<rparr>]\<rparr>)"
| fault: "i < length (handlers s) \<Longrightarrow> h = handlers s ! i \<Longrightarrow>
    server_step E B N M s (s\<lparr>handlers := (handlers s)[i :=
      h\<lparr>h_conn := (h_conn h)\<lparr>write_fault := True\<rparr>\<rparr>]\<rparr>)"
| handle: "i < length (handlers s) \<Longrightarrow> live (handlers s ! i) \<Longrightarrow> i \<notin> stalled s \<Longrightarrow>
    (\<And>ch msg m. ev = SelMessage ch msg \<Longrightarrow> h_mode (handlers s ! i) = InSubscribe m \<Longrightarrow> ch \<in> set (sm_keys M m)) \<Longrightarrow>
    handler_select E B N M (phase s \<noteq> Running) ev (handlers s ! i) (sys s) = (h, sy) \<Longrightarrow>
    w = stalled s \<or> live h \<and> sent (h_conn h) \<noteq> sent (h_conn (handlers s ! i)) \<and> w = insert i (stalled s) \<Longrightarrow>
    server_step E B N M s (put_handler i h (s\<lparr>sys := sy, stalled := w\<rparr>))"
| room: "i \<in> stalled s \<Longrightarrow> server_step E B N M s (s\<lparr>stalled := stalled s - {i}\<rparr>)"
| write_fails: "i \<in> stalled s \<Longrightarrow> i < length (handlers s) \<Longrightarrow> live (handlers s ! i) \<Longrightarrow>
    after_apply (handlers s ! i) (Err IoError, sys s) = (h, sy) \<Longrightarrow>
    server_step E B N M s (put_handler i h (s\<lparr>sys := sy, stalled := stalled s - {i}\<rparr>))"
| background: "task_step N (sys s) sy \<Longrightarrow> server_step E B N M s (s\<lparr>sys := sy\<rparr>)"
| time: "clock (sys s) \<le> t \<Longrightarrow> server_step E B N M s (s\<lparr>sys := (sys s)\<lparr>clock := t\<rparr>\<rparr>)"
| stop: "phase s = Draining \<Longrightarrow> live_count s = 0 \<Longrightarrow> db_shutdown_notify N (sys s) = (r, sy) \<Longrightarrow>
    server_step E B N M s (s\<lparr>sys := sy, phase := Stopped\<rparr>)"

inductive server_reachable ::
    "env \<Rightarrow> ('w, 'tx, 'rx) broadcast \<Rightarrow> 'n notify \<Rightarrow> ('m, 'rx) stream_map \<Rightarrow>
     ('tx, 'w, 'n, 'm) server \<Rightarrow> bool" for E B N M where
  start: "server_reachable E B N M (server_new N w t)"
| step: "server_reachable E B N M s \<Longrightarrow> server_step E B N M s s' \<Longrightarrow> server_reachable E B N M s'"


section \<open>The server invariant\<close>

lemma after_apply_state [simp]: "snd (after_apply h rs) = snd rs"
  by (cases "(h, rs)" rule: after_apply.cases) simp_all

lemma in_subscribe_state [simp]: "snd (in_subscribe h rs) = snd rs"
  by (cases "(h, rs)" rule: in_subscribe.cases) simp_all

lemma handle_frame_client: "(client_step B N)\<^sup>*\<^sup>* s (snd (handle_frame E B N M f c h s))"
  by (cases "from_frame E f")
    (auto simp: handle_frame_def subscribe_enter_client intro!: command_apply_client)

lemma handler_select_client:
  "(client_step B N)\<^sup>*\<^sup>* s (snd (handler_select E B N M closed ev h s))"
proof (cases "h_mode h")
  case Serving
  then show ?thesis
    by (auto simp: handler_select_def handle_frame_client
        split: select.splits option.splits read_poll.splits res.splits)
next
  case (InSubscribe m)
  then show ?thesis
    by (auto simp: handler_select_def subscribe_select_client split: select.splits option.splits)
qed (simp add: handler_select_def)

definition server_inv ::
    "('w, 'tx, 'rx) broadcast \<Rightarrow> 'n notify \<Rightarrow> ('tx, 'w, 'n, 'm) server \<Rightarrow> bool" where
  "server_inv B N s \<longleftrightarrow>
     reachable B N (sys s) \<and>
     permits s + live_count s + held (listen s) = MAX_CONNECTIONS \<and>
     (phase s = Running \<longleftrightarrow> listen s \<noteq> Returned) \<and>
     (phase s = Stopped \<longrightarrow> live_count s = 0) \<and>
     (flag (sys s) \<longrightarrow> phase s = Stopped) \<and>
     (\<forall>i \<in> stalled s. i < length (handlers s) \<and> live (handlers s ! i))"

lemma filter_update_length:
  "i < length xs \<Longrightarrow> P (xs ! i) \<Longrightarrow>
     length (filter P (xs[i := x])) + (if P x then 0 else 1) = length (filter P xs)"
proof -
  assume i: "i < length xs" "P (xs ! i)"
  have "length (filter P xs) = length (filter P (take i xs @ xs ! i # drop (Suc i) xs))"
    using id_take_nth_drop [OF i(1)] by simp
  then show ?thesis using i by (simp add: upd_conv_take_nth_drop)
qed

lemma filter_update_same:
  assumes "P x = P (xs ! i)"
  shows "length (filter P (xs[i := x])) = length (filter P xs)"
proof (cases "i < length xs")
  case True
  then have "length (filter P xs) = length (filter P (take i xs @ xs ! i # drop (Suc i) xs))"
    using id_take_nth_drop [OF True] by simp
  with True assms show ?thesis by (simp add: upd_conv_take_nth_drop)
qed (simp add: not_less list_update_beyond)

lemma db_shutdown_notify_reachable:
  assumes "db_shutdown_notify N s = (r, s')" "reachable B N s"
  shows "reachable B N s'"
proof -
  obtain x sh where d: "db_shutdown (shared s) = (x, sh)" by fastforce
  note st = env_step.shutdown [OF d, of B N]
  show ?thesis
  proof (cases "x = Ok ()")
    case True
    let ?t = "s\<lparr>shared := sh, owed := owed s + 1\<rparr>"
    have "reachable B N ?t" using reachable.env [OF assms(2) st] True by simp
    moreover have "env_step B N ?t s'"
      using env_step.notify [of ?t "owed s" B N] assms(1) True d
      by (simp add: db_shutdown_notify_def run_db_def)
    ultimately show ?thesis by (rule reachable.env)
  next
    case False
    with assms(1) d have "s' = s\<lparr>shared := sh\<rparr>"
      by (cases x) (auto simp: db_shutdown_notify_def run_db_def)
    with reachable.env [OF assms(2) st] False show ?thesis by simp
  qed
qed

lemma task_step_flag: "task_step N s s' \<Longrightarrow> flag s' = flag s"
proof (induction rule: task_step.induct)
  case (purge s r sh)
  then show ?case using purge_expired_keys_flag [of "clock s" "shared s"] by (simp add: flag_def)
next
  case (purge_panic s p sh)
  then show ?case using purge_expired_keys_flag [of "clock s" "shared s"] by (simp add: flag_def)
qed (auto simp: flag_def is_shutdown_cases split: if_splits)

lemma put_handler_count:
  "i < length (handlers s) \<Longrightarrow> live (handlers s ! i) \<Longrightarrow>
     live_count (put_handler i h (s\<lparr>sys := sy, stalled := w\<rparr>)) + (if live h then 0 else 1) = live_count s"
  using filter_update_length [of i "handlers s" live h] by (simp add: live_count_def put_handler_def)

lemma server_inv_step: "server_step E B N M s s' \<Longrightarrow> server_inv B N s \<Longrightarrow> server_inv B N s'"
proof (induction rule: server_step.induct)
  case (deliver i s h ev)
  then have "live_count (s\<lparr>handlers := (handlers s)[i :=
      h\<lparr>h_conn := (h_conn h)\<lparr>inbound := inbound (h_conn h) @ [ev]\<rparr>\<rparr>]\<rparr>) = live_count s"
    unfolding live_count_def by (simp add: filter_update_same)
  with deliver show ?case by (auto simp: server_inv_def nth_list_update)
next
  case (fault i s h)
  then have "live_count (s\<lparr>handlers := (handlers s)[i :=
      h\<lparr>h_conn := (h_conn h)\<lparr>write_fault := True\<rparr>\<rparr>]\<rparr>) = live_count s"
    unfolding live_count_def by (simp add: filter_update_same)
  with fault show ?case by (auto simp: server_inv_def nth_list_update)
next
  case (handle i s ev h sy w)
  have "live_count (put_handler i h (s\<lparr>sys := sy, stalled := w\<rparr>)) + (if live h then 0 else 1) = live_count s"
    by (rule put_handler_count) (rule handle.hyps)+
  moreover have "reachable B N sy" "flag sy = flag (sys s)"
    using client_stepD [OF handler_select_client [of B N "sys s" E M "phase s \<noteq> Running" ev "handlers s ! i"]]
      handle.hyps(5) handle.prems by (simp_all add: server_inv_def)
  ultimately show ?case
    using handle.prems handle.hyps(1,3,6) by (auto simp: server_inv_def put_handler_def nth_list_update)
next
  case (write_fails i s h sy)
  have "live_count (put_handler i h (s\<lparr>sys := sy, stalled := stalled s - {i}\<rparr>)) + (if live h then 0 else 1) =
      live_count s"
    by (rule put_handler_count) (rule write_fails.hyps)+
  then show ?case
    using write_fails.prems write_fails.hyps(4) by (auto simp: server_inv_def put_handler_def nth_list_update)
next
  case (background s sy)
  then show ?case
    using task_step_flag [of N "sys s" sy] reachable.task [of B N "sys s" sy]
    by (auto simp: server_inv_def live_count_def)
next
  case (time s t)
  then show ?case
    using reachable.env [of B N "sys s" "(sys s)\<lparr>clock := t\<rparr>"] env_step.tick [of "sys s" t B N]
    by (auto simp: server_inv_def live_count_def flag_def)
next
  case (stop s r sy)
  then show ?case
    using db_shutdown_notify_reachable [of N "sys s" r sy B] by (auto simp: server_inv_def live_count_def)
qed (auto simp: server_inv_def live_count_def begin_shutdown_def new_handler_def nth_append)

lemma server_reachable_inv: "server_reachable E B N M s \<Longrightarrow> server_inv B N s"
proof (induction rule: server_reachable.induct)
  case (start w t)
  have "reachable B N (initial N w t)" by (rule reachable.init)
  then show ?case
    by (simp add: server_inv_def server_new_def live_count_def flag_def initial_def new_shared_def)
next
  case (step s s')
  from server_inv_step [OF step.hyps(2) step.IH] show ?case .
qed


section \<open>Draining\<close>

lemma handler_shutdown:
  assumes "live h"
  shows "\<exists>h'. handler_select E B N M True SelShutdown h s = (h', s) \<and> h_mode h' = Ended (Ok ())"
  using assms
  by (cases "h_mode h")
    (auto simp: handler_select_def shutdown_recv_def subscribe_select_def loop_top_def split: option.splits)

text \<open>The steps by which the server stops by itself: a handler that notices the shutdown, and the end of \<open>run\<close>.\<close>

inductive shutdown_step ::
    "env \<Rightarrow> ('w, 'tx, 'rx) broadcast \<Rightarrow> 'n notify \<Rightarrow> ('m, 'rx) stream_map \<Rightarrow>
     ('tx, 'w, 'n, 'm) server \<Rightarrow> ('tx, 'w, 'n, 'm) server \<Rightarrow> bool" for E B N M where
  shutdown_handler: "i < length (handlers s) \<Longrightarrow> live (handlers s ! i) \<Longrightarrow> i \<notin> stalled s \<Longrightarrow>
    handler_select E B N M (phase s \<noteq> Running) SelShutdown (handlers s ! i) (sys s) = (h, sy) \<Longrightarrow>
    shutdown_step E B N M s (put_handler i h (s\<lparr>sys := sy\<rparr>))"
| shutdown_stop: "phase s = Draining \<Longrightarrow> live_count s = 0 \<Longrightarrow> db_shutdown_notify N (sys s) = (r, sy) \<Longrightarrow>
    shutdown_step E B N M s (s\<lparr>sys := sy, phase := Stopped\<rparr>)"

lemma shutdown_step_server: "shutdown_step E B N M s s' \<Longrightarrow> server_step E B N M s s'"
proof (induction rule: shutdown_step.induct)
  case (shutdown_handler i s h sy)
  then have "server_step E B N M s (put_handler i h (s\<lparr>sys := sy, stalled := stalled s\<rparr>))"
    by (intro server_step.handle [where ev = SelShutdown]) simp_all
  then show ?case by simp
qed (rule server_step.stop)

lemma shutdown_possible:
  assumes "phase s = Draining" "stalled s = {}"
  shows "\<exists>u. shutdown_step E B N M s u"
proof (cases "live_count s = 0")
  case True
  obtain r sy where "db_shutdown_notify N (sys s) = (r, sy)" by fastforce
  with shutdown_step.shutdown_stop [OF assms(1) True this] show ?thesis by blast
next
  case False
  then obtain h where "h \<in> set (handlers s)" "live h" by (auto simp: live_count_def filter_empty_conv)
  then obtain i where i: "i < length (handlers s)" "live (handlers s ! i)" by (metis in_set_conv_nth)
  obtain h' sy where "handler_select E B N M (phase s \<noteq> Running) SelShutdown (handlers s ! i) (sys s) = (h', sy)"
    by fastforce
  with shutdown_step.shutdown_handler [OF i _ this] assms(2) show ?thesis by blast
qed

text \<open>How far the shutdown has come after \<open>n\<close> steps from \<open>s\<close>.\<close>

definition shut_to :: "('tx, 'w, 'n, 'm) server \<Rightarrow> nat \<Rightarrow> ('tx, 'w, 'n, 'm) server \<Rightarrow> bool" where
  "shut_to s n s' \<longleftrightarrow>
     list_all2 (\<lambda>h h'. h' = h \<or> live h \<and> h_mode h' = Ended (Ok ())) (handlers s) (handlers s') \<and>
     (phase s' = Draining \<and> stalled s' = {} \<and> n + live_count s' = live_count s \<or>
      phase s' = Stopped \<and> live_count s' = 0 \<and> n = Suc (live_count s))"

lemma shut_to_step:
  assumes "shutdown_step E B N M t u" "shut_to s n t"
  shows "shut_to s (Suc n) u"
  using assms(1)
proof cases
  case (shutdown_handler i h sy)
  have "handlers t ! i \<in> set (handlers t)" using shutdown_handler(2) by simp
  with shutdown_handler(3) have "live_count t \<noteq> 0" unfolding live_count_def length_0_conv filter_empty_conv by blast
  with assms(2) have d: "phase t = Draining" "stalled t = {}" "n + live_count t = live_count s"
    by (auto simp: shut_to_def)
  with handler_shutdown [OF shutdown_handler(3), of E B N M "sys t"] shutdown_handler(5)
  have h: "h_mode h = Ended (Ok ())" "sy = sys t" by auto
  have "live_count (put_handler i h (t\<lparr>sys := sy, stalled := stalled t\<rparr>)) + 1 = live_count t"
    using put_handler_count [OF shutdown_handler(2,3), where h = h and sy = sy and w = "stalled t"] h(1) by simp
  moreover have "list_all2 (\<lambda>h h'. h' = h \<or> live h \<and> h_mode h' = Ended (Ok ())) (handlers s) ((handlers t)[i := h])"
    using assms(2) h(1) shutdown_handler(2,3)
    by (auto simp: shut_to_def list_all2_conv_all_nth nth_list_update)
  ultimately show ?thesis using d shutdown_handler(1) by (simp add: shut_to_def put_handler_def live_count_def)
next
  case (shutdown_stop r sy)
  with assms(2) show ?thesis by (auto simp: shut_to_def live_count_def)
qed

lemma shutdown_run:
  assumes "phase s = Draining" "stalled s = {}" "(shutdown_step E B N M ^^ n) s s'"
  shows "(server_step E B N M)\<^sup>*\<^sup>* s s' \<and> shut_to s n s'"
  using assms(3)
proof (induction n arbitrary: s')
  case 0
  with assms(1,2) show ?case by (simp add: shut_to_def list_all2_same)
next
  case (Suc n)
  then obtain t where t: "(shutdown_step E B N M ^^ n) s t" "shutdown_step E B N M t s'" by auto
  from Suc.IH [OF t(1)] shut_to_step [OF t(2)] shutdown_step_server [OF t(2)] show ?case
    by (auto intro: rtranclp.rtrancl_into_rtrancl)
qed

section \<open>Serving a pipeline of requests\<close>

text \<open>A handler reading frame after frame.\<close>

fun serve ::
    "env \<Rightarrow> ('w, 'tx, 'rx) broadcast \<Rightarrow> 'n notify \<Rightarrow> ('m, 'rx) stream_map \<Rightarrow> nat \<Rightarrow>
     'm handler \<Rightarrow> ('tx, 'w, 'n) system \<Rightarrow> 'm handler \<times> ('tx, 'w, 'n) system" where
  "serve E B N M 0 h s = (h, s)"
| "serve E B N M (Suc n) h s =
     (let (h, s) = handler_select E B N M False SelFrame h s in serve E B N M n h s)"

fun replies ::
    "('w, 'tx, 'rx) broadcast \<Rightarrow> 'n notify \<Rightarrow> command list \<Rightarrow> ('tx, 'w, 'n) system \<Rightarrow>
     frame list \<times> ('tx, 'w, 'n) system" where
  "replies B N [] s = ([], s)"
| "replies B N (c # cs) s =
     (let (f, s) = reply B N c s; (fs, s) = replies B N cs s in (f # fs, s))"

lemma replies_Cons:
  "fst (replies B N (c # cs) s) = fst (reply B N c s) # fst (replies B N cs (snd (reply B N c s)))"
  "snd (replies B N (c # cs) s) = snd (replies B N cs (snd (reply B N c s)))"
  by (simp_all add: split_beta Let_def)

declare replies.simps(2) [simp del]

lemma reply_keeps:
  assumes "\<not> poisoned (shared s)" "fits_clock (clock s) c"
  shows "\<not> poisoned (shared (snd (reply B N c s))) \<and> clock (snd (reply B N c s)) = clock s"
proof (cases c)
  case (SetCmd x)
  with assms db_set_notify_Ok [of s "set_expire x" N "set_key x" "set_value x"] show ?thesis by auto
next
  case (PublishCmd x)
  with assms show ?thesis
    by (auto simp: run_pub_sub_def db_publish_def split: option.splits prod.splits)
qed (use assms in simp_all)

definition serving :: "'m handler \<Rightarrow> bool" where
  "serving h \<longleftrightarrow> h_mode h = Serving \<and> \<not> sd_flag (h_shutdown h) \<and> \<not> write_fault (h_conn h) \<and>
     pending_out (h_conn h) = []"

lemma serve_one:
  assumes "serving h" "read_frame E (h_conn h) = Ready (Ok (Some f, c))" "\<not> write_fault c"
    and "from_frame E f = Ok cmd" "answers cmd" "fits_clock (clock s) cmd" "\<not> poisoned (shared s)"
    and "flat (fst (reply B N cmd s))"
  shows "handler_select E B N M closed SelFrame h s =
    (h\<lparr>h_conn := wrote c (fst (reply B N cmd s))\<rparr>, snd (reply B N cmd s))"
proof -
  have "handler_select E B N M closed SelFrame h s = command_apply B N
      (\<lambda>cmd dst s. in_subscribe h (subscribe_enter B M cmd dst s)) (after_apply h) cmd c s"
    using assms(1,2,4) by (simp add: handler_select_def serving_def handle_frame_def)
  also have "\<dots> = after_apply h (Ok (wrote c (fst (reply B N cmd s))), snd (reply B N cmd s))"
    by (rule command_apply_reply) (use assms in simp_all)
  finally show ?thesis using assms(1) by (cases h) (simp add: loop_top_def serving_def)
qed

lemma pipeline:
  assumes "atoi_reads_decimal E"
  shows "list_all2 (\<lambda>f c. from_frame E f = Ok c \<and> answers c \<and> fits_clock (clock s) c) fs cs \<Longrightarrow>
    list_all flat fs \<Longrightarrow> list_all line_safe fs \<Longrightarrow> list_all flat (fst (replies B N cs s)) \<Longrightarrow>
    buffer (h_conn h) @ concat chunks = concat (map encode fs) @ zs \<Longrightarrow>
    length (buffer (h_conn h) @ concat chunks) \<le> isize_max \<Longrightarrow>
    inbound (h_conn h) = map Recv chunks @ evs \<Longrightarrow> [] \<notin> set chunks \<Longrightarrow>
    serving h \<Longrightarrow> \<not> poisoned (shared s) \<Longrightarrow>
    \<exists>h'. serve E B N M (length fs) h s = (h', snd (replies B N cs s)) \<and> serving h' \<and>
      sent (h_conn h') = sent (h_conn h) @ concat (map encode (fst (replies B N cs s)))"
proof (induction fs arbitrary: cs h s chunks)
  case Nil
  then show ?case by simp
next
  case (Cons f fs)
  from Cons.prems(1) obtain c cs' where cs: "cs = c # cs'" by (cases cs) auto
  let ?r = "fst (reply B N c s)" and ?s = "snd (reply B N c s)"
  have c: "from_frame E f = Ok c" "answers c" "fits_clock (clock s) c" using Cons.prems(1) cs by simp_all
  have keep: "\<not> poisoned (shared ?s)" "clock ?s = clock s"
    using reply_keeps [OF Cons.prems(10) c(3), of B N] by simp_all
  obtain used rest left where u: "chunks = used @ rest" "left @ concat rest = concat (map encode fs) @ zs"
    and rd: "read_frames E (length [f]) (h_conn h) =
      Some ([f], (h_conn h)\<lparr>buffer := left, inbound := map Recv rest @ evs\<rparr>)"
    using read_frames_encode [OF assms, of "[f]" "h_conn h" chunks "concat (map encode fs) @ zs" evs] Cons.prems
    by auto
  let ?c = "(h_conn h)\<lparr>buffer := left, inbound := map Recv rest @ evs\<rparr>"
  from rd have rf: "read_frame E (h_conn h) = Ready (Ok (Some f, ?c))"
    by (auto split: read_poll.splits res.splits option.splits)
  let ?h = "h\<lparr>h_conn := wrote ?c ?r\<rparr>"
  have step: "handler_select E B N M False SelFrame h s = (?h, ?s)"
    by (rule serve_one [OF Cons.prems(9) rf]) (use Cons.prems c cs in \<open>simp_all add: serving_def replies_Cons\<close>)
  have "length (left @ concat rest) \<le> length (buffer (h_conn h) @ concat chunks)"
    using u(2) Cons.prems(5) by (metis add_leD2 append.assoc concat.simps(2) le_add2 length_append list.simps(9))
  with Cons.prems(6) have len: "length (left @ concat rest) \<le> isize_max" by simp
  have "\<exists>h'. serve E B N M (length fs) ?h ?s = (h', snd (replies B N cs' ?s)) \<and> serving h' \<and>
      sent (h_conn h') = sent (h_conn ?h) @ concat (map encode (fst (replies B N cs' ?s)))"
    by (rule Cons.IH [where chunks = rest])
      (use Cons.prems u len keep cs in \<open>simp_all add: serving_def replies_Cons\<close>)
  then show ?case
    using step Cons.prems(9) by (auto simp: cs replies_Cons wrote_def serving_def)
qed


lemma requests_bulk: "requests c f \<Longrightarrow> \<exists>args. f = Array (map Bulk args)"
proof (cases c)
  case (GetCmd x)
  assume "requests c f"
  with GetCmd have "get_into_frame x = Ok f" by simp
  from get_codec.frame_is_array [OF this] show ?thesis by (rule exI)
next
  case (PublishCmd x)
  assume "requests c f"
  with PublishCmd have "publish_into_frame x = Ok f" by simp
  from publish_codec.frame_is_array [OF this] show ?thesis by (rule exI)
next
  case (SetCmd x)
  assume "requests c f"
  with SetCmd have "f = Array (map Bulk (''set'' # set_args x))" by (simp add: set_into_frame_args)
  then show ?thesis by (rule exI)
next
  case (SubscribeCmd x)
  assume "requests c f"
  with SubscribeCmd have "subscribe_into_frame x = Ok f" by simp
  from subscribe_codec.frame_is_array [OF this] show ?thesis by (rule exI)
next
  case (UnsubscribeCmd x)
  assume "requests c f"
  with UnsubscribeCmd have "unsubscribe_into_frame x = Ok f" by simp
  from unsubscribe_codec.frame_is_array [OF this] show ?thesis by (rule exI)
next
  case (PingCmd x)
  assume "requests c f"
  with PingCmd have "ping_into_frame x = Ok f" by simp
  from ping_codec.frame_is_array [OF this] show ?thesis by (rule exI)
next
  case (UnknownCmd x)
  assume "requests c f"
  with UnknownCmd show ?thesis by simp
qed

lemma requests_line_safe: "requests c f \<Longrightarrow> line_safe f"
  by (drule requests_bulk) (auto simp: list_all_iff)

lemma answers_on_wire: "answers (on_wire c) = answers c"
  by (cases c) simp_all

lemma pipelined_requests:
  assumes "ascii_case E" "atoi_reads_decimal E"
    and "list_all2 (\<lambda>f c. requests c f \<and> wf_command c \<and> answers c \<and> fits_clock (clock s) (on_wire c)) fs cs"
    and "list_all flat fs" "list_all flat (fst (replies B N (map on_wire cs) s))"
    and "concat chunks = concat (map encode fs)" "length (concat chunks) \<le> isize_max" "[] \<notin> set chunks"
    and "\<not> poisoned (shared s)" "h = new_handler\<lparr>h_conn := new_connection (map Recv chunks)\<rparr>"
  shows "\<exists>h'. serve E B N M (length cs) h s = (h', snd (replies B N (map on_wire cs) s)) \<and>
    h_mode h' = Serving \<and>
    sent (h_conn h') = concat (map encode (fst (replies B N (map on_wire cs) s)))"
proof -
  have "list_all2 (\<lambda>f c. from_frame E f = Ok c \<and> answers c \<and> fits_clock (clock s) c) fs (map on_wire cs)"
    using assms(3) from_frame_requests [OF assms(1,2)]
    by (auto simp: list_all2_map2 answers_on_wire elim!: list_all2_mono)
  moreover have "list_all line_safe fs"
    using assms(3) requests_line_safe by (auto simp: list_all2_conv_all_nth list_all_length)
  moreover have "serving h" "inbound (h_conn h) = map Recv chunks @ []" "sent (h_conn h) = []"
    "buffer (h_conn h) @ concat chunks = concat (map encode fs) @ []"
    using assms(6,10) by (simp_all add: serving_def new_handler_def new_connection_def shutdown_new_def)
  moreover have "length fs = length cs" using assms(3) by (rule list_all2_lengthD)
  ultimately show ?thesis
    using pipeline [OF assms(2), of s fs "map on_wire cs" B N h chunks "[]" "[]" M] assms(4,5,7,8,9,10)
    by (auto simp: serving_def new_handler_def new_connection_def)
qed

section \<open>Properties\<close>

text \<open>
  C2: pipelining, end to end. On a mutex that is not poisoned, a client sends the requests of a list of well-formed commands (none of them a
  subscription, no expiration beyond the clock); however the bytes are cut into packets, the handler answers with exactly one reply
  per command, in order, each computed on the database as the commands before it left it.
\<close>

theorem pipelined_requests_answered:
  assumes "ascii_case E" "atoi_reads_decimal E"
    and "list_all2 (\<lambda>f c. requests c f \<and> wf_command c \<and> answers c \<and> fits_clock (clock s) (on_wire c)) fs cs"
    and "list_all flat fs" "list_all flat (fst (replies B N (map on_wire cs) s))"
    and "concat chunks = concat (map encode fs)" "length (concat chunks) \<le> isize_max" "[] \<notin> set chunks"
    and "\<not> poisoned (shared s)" "h = new_handler\<lparr>h_conn := new_connection (map Recv chunks)\<rparr>"
  shows "\<exists>h'. serve E B N M (length cs) h s = (h', snd (replies B N (map on_wire cs) s)) \<and>
    h_mode h' = Serving \<and>
    sent (h_conn h') = concat (map encode (fst (replies B N (map on_wire cs) s)))"
  using assms by (rule pipelined_requests)

theorem pipelined_requests_answered_witness:
  "\<exists>h'. serve (ref_env True) ref_broadcast permit ref_stream_map (Suc (Suc 0))
      (new_handler\<lparr>h_conn := new_connection (map Recv [encode (Array [Bulk ''ping'']) @ encode (Array [Bulk ''get'', Bulk ''a''])])\<rparr>)
      due_state = (h', due_state) \<and>
    sent (h_conn h') = encode (Simple ''PONG'') @ encode (Bulk ''x'')"
proof -
  let ?f = "Array [Bulk ''ping'']" and ?g = "Array [Bulk ''get'', Bulk ''a'']"
  let ?cs = "[PingCmd \<lparr>ping_msg = None\<rparr>, GetCmd \<lparr>get_key = ''a''\<rparr>]"
  have r: "replies ref_broadcast permit (map on_wire ?cs) due_state = ([Simple ''PONG'', Bulk ''x''], due_state)"
    by (simp add: replies.simps due_state_simps)
  have p: "list_all2 (\<lambda>f c. requests c f \<and> wf_command c \<and> answers c \<and>
      fits_clock (clock due_state) (on_wire c)) [?f, ?g] ?cs"
    by (simp add: ping_into_frame_def get_into_frame_def array_def utf8_def)
  have e: "encode ?f \<noteq> []" by (rule wire.enc_nonempty) (simp add: isize_max_def)
  have "length (encode ?f @ encode ?g) \<le> isize_max"
    by (simp add: encode.simps isize_max_def CRLF_def dec.simps)
  then have len: "length (concat [encode ?f @ encode ?g]) \<le> isize_max" by simp
  have fl: "list_all flat [?f, ?g]" by (simp add: isize_max_def)
  have rl: "list_all flat (fst (replies ref_broadcast permit (map on_wire ?cs) due_state))"
    unfolding r by (simp add: isize_max_def)
  have cut: "concat [encode ?f @ encode ?g] = concat (map encode [?f, ?g])" by simp
  have ne: "[] \<notin> set [encode ?f @ encode ?g]" using e by simp
  from pipelined_requests_answered [OF ref_env_case [of True] ref_env_atoi p fl rl cut len ne
      due_state_simps(5) refl, of ref_stream_map]
  show ?thesis unfolding r by (auto simp del: serve.simps)
qed

text \<open>
  C9: the connection limit. In every reachable state the permits left, the running handlers and the
  permit the listener holds add up to \<open>MAX_CONNECTIONS\<close>; so at most 250 connections are served at
  once, and no permit is lost when a handler fails, panics or is stopped.
\<close>

theorem connection_limit:
  assumes "server_reachable E B N M s"
  shows "permits s + live_count s + held (listen s) = MAX_CONNECTIONS \<and> live_count s \<le> 250"
  using server_reachable_inv [OF assms] by (simp add: server_inv_def MAX_CONNECTIONS_def)

theorem connection_limit_witness:
  "permits ((server_new permit [] 0 :: (nat, nat list, bool, (bytes \<times> nat) list) server)\<lparr>permits := 249, listen := Accepting 1\<rparr>)
     + 0 + 1 = MAX_CONNECTIONS"
proof -
  let ?s = "server_new permit [] 0 :: (nat, nat list, bool, (bytes \<times> nat) list) server"
  have "server_step (ref_env True) ref_broadcast permit ref_stream_map ?s (?s\<lparr>permits := 249, listen := Accepting 1\<rparr>)"
    by (rule server_step.acquire) (simp_all add: server_new_def MAX_CONNECTIONS_def)
  from connection_limit [OF server_reachable.step [OF server_reachable.start this]] show ?thesis
    by (simp add: server_new_def live_count_def)
qed

text \<open>
  C32: the order of a shutdown. The database is told to stop its background task only when the
  server has stopped, and the server has stopped only when no handler runs any more.
\<close>

theorem shutdown_order:
  assumes "server_reachable E B N M s"
  shows "(flag (sys s) \<longrightarrow> phase s = Stopped) \<and> (phase s = Stopped \<longrightarrow> live_count s = 0) \<and>
    (phase s \<noteq> Running \<longrightarrow> listen s = Returned)"
  using server_reachable_inv [OF assms] by (auto simp: server_inv_def)

theorem shutdown_order_witness:
  "listen (begin_shutdown (server_new permit [] 0 :: (nat, nat list, bool, (bytes \<times> nat) list) server)) = Returned"
proof -
  let ?s = "server_new permit [] 0 :: (nat, nat list, bool, (bytes \<times> nat) list) server"
  have "server_step (ref_env True) ref_broadcast permit ref_stream_map ?s (begin_shutdown ?s)"
    by (rule server_step.signal) (simp add: server_new_def)
  from shutdown_order [OF server_reachable.step [OF server_reachable.start this]] show ?thesis
    by (simp add: begin_shutdown_def)
qed

text \<open>
  C33: a shutdown completes by itself. Once it has begun and no handler waits in a write, every run of
  the steps by which the handlers notice the shutdown and \<open>run\<close> returns, with no help and no fault of a peer, takes at most one step
  per running handler and one more; it can always go on until the server has stopped; and each
  handler that was running, idle, in the middle of a frame or subscribed, then has returned \<open>Ok\<close>. (A
  handler that waits in a write holds the shutdown up: lemma \<open>stalled_holds_shutdown\<close>.)
\<close>

theorem shutdown_completes:
  assumes "phase s = Draining" "stalled s = {}" "(shutdown_step E B N M ^^ n) s s'"
  shows "(server_step E B N M)\<^sup>*\<^sup>* s s' \<and> n \<le> Suc (live_count s) \<and>
    list_all2 (\<lambda>h h'. h' = h \<or> live h \<and> h_mode h' = Ended (Ok ())) (handlers s) (handlers s') \<and>
    ((\<exists>u. shutdown_step E B N M s' u) \<or> phase s' = Stopped \<and> live_count s' = 0)"
  using shutdown_run [OF assms] shutdown_possible [of s' E B N M] by (auto simp: shut_to_def)

theorem shutdown_completes_witness:
  "\<exists>s'. (shutdown_step (ref_env True) ref_broadcast permit ref_stream_map ^^ 1)
     ((server_new permit [] 0)\<lparr>handlers := [new_handler\<lparr>h_mode := InSubscribe []\<rparr>],
        listen := Returned, phase := Draining\<rparr>) s' \<and> list_all (\<lambda>h. h_mode h = Ended (Ok ())) (handlers s')"
proof -
  let ?R = "shutdown_step (ref_env True) ref_broadcast permit ref_stream_map"
  let ?h = "new_handler\<lparr>h_mode := InSubscribe []\<rparr> :: (bytes \<times> nat) list handler"
  let ?s = "(server_new permit [] 0)\<lparr>handlers := [?h], listen := Returned, phase := Draining\<rparr> ::
    (nat, nat list, bool, (bytes \<times> nat) list) server"
  have s: "phase ?s = Draining" "stalled ?s = {}" by (simp_all add: server_new_def)
  obtain u where u: "?R ?s u" using shutdown_possible [OF s] by blast
  have "shut_to ?s 0 ?s" using s by (simp add: shut_to_def list_all2_same)
  from shut_to_step [OF u this] have z: "live_count u = 0" by (auto simp: shut_to_def live_count_def)
  have r: "(?R ^^ 1) ?s u" using u by (simp only: relpowp_1)
  from shutdown_completes [OF s r] have "list_all2 (\<lambda>h h'. h' = h \<or> live h \<and> h_mode h' = Ended (Ok ())) [?h] (handlers u)"
    by simp
  then obtain h where "handlers u = [h]" "h = ?h \<or> h_mode h = Ended (Ok ())" by (auto simp: list_all2_Cons1)
  with z have "list_all (\<lambda>h. h_mode h = Ended (Ok ())) (handlers u)" by (auto simp: live_count_def)
  with r show ?thesis by blast
qed

text \<open>
  A handler that waits for a peer that does not read holds the shutdown up for as long: its write is
  not part of a \<open>select!\<close>, and \<open>run\<close> waits for every handler.
\<close>

lemma stalled_holds_shutdown:
  assumes "server_reachable E B N M s" "i \<in> stalled s"
  shows "phase s \<noteq> Stopped"
proof
  assume "phase s = Stopped"
  with server_reachable_inv [OF assms(1)] assms(2)
  have "live_count s = 0" "handlers s ! i \<in> set (handlers s)" "live (handlers s ! i)" by (auto simp: server_inv_def)
  then show False by (auto simp: live_count_def filter_empty_conv)
qed

text \<open>
  The accept back-off. Accepting gives up exactly after eight failures in a row, having slept 1,
  2, 4, 8, 16, 32 and 64 seconds between them, and returns the first connection that comes
  before that.
\<close>

theorem accept_backoff:
  "accept (replicate 8 False @ rs) = (Some False, [1, 2, 4, 8, 16, 32, 64]) \<and>
   list_all (\<lambda>n. accept (replicate n False @ True # rs) = (Some True, take n [1, 2, 4, 8, 16, 32, 64]) \<and>
     accept (replicate n False) = (None, take n [1, 2, 4, 8, 16, 32, 64])) [0..<8]"
proof -
  have n: "[0..<8] = [0, 1, 2, 3, 4, 5, 6, 7::nat]" by (simp add: upt_rec)
  have r: "replicate 8 False = [False, False, False, False, False, False, False, False]"
    by (simp add: eval_nat_numeral)
  show ?thesis unfolding n r by (simp add: accept_def replicate_numeral)
qed

text \<open>
  C31: the whole server keeps the database sound: with any number of connections, commands,
  disconnections and shutdowns interleaved with the background task, the index of expirations is
  consistent, and an expired entry never waits for a task that nobody will wake.
\<close>

theorem server_keeps_database:
  assumes "notify_stores N" "server_reachable E B N M s"
  shows "db_inv (state (shared (sys s))) \<and>
    (\<forall>r k e. pc (sys s) = Waiting r \<longrightarrow> entries (state (shared (sys s))) k = Some e \<longrightarrow>
       \<not> live_entry (clock (sys s)) e \<longrightarrow>
       (\<exists>w. r = Some w \<and> w \<le> clock (sys s)) \<or> pending N (sys s))"
proof -
  have "reachable B N (sys s)" using server_reachable_inv [OF assms(2)] by (simp add: server_inv_def)
  then have inv: "task_inv N (sys s)" by (rule reachable_inv [OF assms(1)])
  have "(\<exists>w. r = Some w \<and> w \<le> clock (sys s)) \<or> pending N (sys s)"
    if w: "pc (sys s) = Waiting r" and e: "entries (state (shared (sys s))) k = Some e"
      and x: "\<not> live_entry (clock (sys s)) e" for r k e
  proof -
    obtain t where t: "expires_at e = Some t" "t \<le> clock (sys s)"
      using x by (auto simp: live_entry_def split: option.splits)
    with e have "(t, k) \<in> set (expirations (state (shared (sys s))))"
      using db_invD(2) [OF task_invD(1) [OF inv]] by blast
    from task_invD(4) [OF inv w this] t(2) show ?thesis by (auto dest: le_trans)
  qed
  with task_invD(1) [OF inv] show ?thesis by blast
qed

theorem server_keeps_database_witness:
  "db_inv (state (shared (sys (server_new permit [] 0 :: (nat, nat list, bool, (bytes \<times> nat) list) server))))"
  using server_keeps_database [OF permit_stores server_reachable.start [of "ref_env True" ref_broadcast permit ref_stream_map "[]" 0]]
  by (rule conjunct1)

end
