(* ===== verification/Server_Panics.thy ===== *)
theory Server_Panics
  imports Server
begin

text \<open>
  How a connection handler of the server can panic. The handler of
  \<open>src/mini-redis/src/server.rs\<close> parses what a client sends, runs the commands and writes the
  replies; each of these has panics in the source (slices, \<open>unreachable!\<close>, \<open>unimplemented!\<close>,
  arithmetic, \<open>unwrap\<close> of a poisoned lock). Only two causes can be reached: the length of a bulk
  string that does not fit its counter, and a lock that an overflowing expiration has poisoned.
\<close>

section \<open>Reading\<close>

lemma line_no_panic:
  assumes "get_ref src \<noteq> []"
  shows "get_line E src \<noteq> Panic p" "get_decimal E src \<noteq> Panic p"
  using get_line_outcomes [OF assms, of E] by (auto simp: get_decimal_def res_conv split: option.splits)

lemma cursor_no_panic: "peek_u8 src \<noteq> Panic p" "skip src n \<noteq> Panic p"
  by (simp_all add: peek_u8_def skip_def)

lemma add_usize_panics: "add_usize E a b = Panic p \<Longrightarrow> p = ArithOverflow \<and> overflow_checks E"
  by (simp add: add_usize_def split: if_splits)

lemma check_panics:
  "check E src = Panic p \<Longrightarrow> p = ArithOverflow \<and> overflow_checks E"
  "check_loop E n src = Panic p \<Longrightarrow> p = ArithOverflow \<and> overflow_checks E"
proof (induction E src and E n src rule: check_induct)
  case (frame E src)
  have ne: "get_ref t \<noteq> []" if "get_u8 src = Ok (b, t)" for b t
    using that by (auto simp: get_u8_Ok)
  show ?case
  proof (cases src rule: type_byte_cases)
    case (array t)
    from frame.prems array line_no_panic [OF ne [OF array]] obtain len u where
      u: "get_decimal E t = Ok (len, u)" "check_loop E (unat len) u = Panic p"
      by (auto simp: check_at res_conv)
    from frame.IH [OF array u] show ?thesis .
  next
    case (bulk t)
    with frame.prems line_no_panic [OF ne [OF bulk]] show ?thesis
      by (auto simp: check_at res_conv cursor_no_panic dest: add_usize_panics split: if_splits)
  qed (use frame.prems line_no_panic [OF ne] in \<open>auto simp: check_at res_conv\<close>)
next
  case (cons E n src)
  then show ?case by (auto simp: res_conv)
qed simp

text \<open>
  An oversized bulk string: the length in its header leaves no room for the line break in a \<open>usize\<close>. It is
  the frame itself or, behind entries that pass, an entry of an array.
\<close>

inductive oversized :: "env \<Rightarrow> cursor \<Rightarrow> bool" for E where
  oversized_bulk: "get_u8 src = Ok (CHR ''$'', t) \<Longrightarrow> get_decimal E t = Ok (len, u) \<Longrightarrow>
    2 ^ 64 \<le> unat len + 2 \<Longrightarrow> oversized E src"
| oversized_item: "get_u8 src = Ok (CHR ''*'', t) \<Longrightarrow> get_decimal E t = Ok (len, u) \<Longrightarrow>
    k < unat len \<Longrightarrow> check_loop E k u = Ok v \<Longrightarrow> oversized E v \<Longrightarrow> oversized E src"

definition oversized_entry :: "env \<Rightarrow> nat \<Rightarrow> cursor \<Rightarrow> bool" where
  "oversized_entry E n src \<longleftrightarrow> (\<exists>k < n. \<exists>v. check_loop E k src = Ok v \<and> oversized E v)"

lemma oversized_array:
  "get_u8 src = Ok (CHR ''*'', t) \<Longrightarrow> get_decimal E t = Ok (len, u) \<Longrightarrow> oversized_entry E (unat len) u \<Longrightarrow>
     oversized E src"
  by (auto simp: oversized_entry_def intro: oversized_item)

lemma oversized_entry_Suc:
  "oversized E src \<Longrightarrow> oversized_entry E (Suc n) src"
  "check E src = Ok t \<Longrightarrow> oversized_entry E n t \<Longrightarrow> oversized_entry E (Suc n) src"
proof -
  show "oversized_entry E (Suc n) src" if "oversized E src"
    unfolding oversized_entry_def by (rule exI [of _ 0]) (use that in simp)
next
  assume "check E src = Ok t" "oversized_entry E n t"
  then obtain k v where "k < n" "check_loop E (Suc k) src = Ok v" "oversized E v"
    by (auto simp: oversized_entry_def)
  then show "oversized_entry E (Suc n) src" unfolding oversized_entry_def by (intro exI [of _ "Suc k"]) auto
qed

lemma add_usize_carry:
  "(add_usize E len 2 :: (usize, 'e) res) = Panic p \<Longrightarrow> 2 ^ 64 \<le> unat len + 2"
  by (auto simp: add_usize_def split: if_splits)

lemma check_oversized:
  "check E src = Panic p \<Longrightarrow> oversized E src"
  "check_loop E n src = Panic p \<Longrightarrow> oversized_entry E n src"
proof (induction E src and E n src rule: check_induct)
  case (frame E src)
  have ne: "get_ref t \<noteq> []" if "get_u8 src = Ok (b, t)" for b t
    using that by (auto simp: get_u8_Ok)
  show ?case
  proof (cases src rule: type_byte_cases)
    case (array t)
    from frame.prems array line_no_panic [OF ne [OF array]] obtain len u where
      u: "get_decimal E t = Ok (len, u)" "check_loop E (unat len) u = Panic p"
      by (auto simp: check_at res_conv)
    from oversized_array [OF array u(1) frame.IH [OF array u]] show ?thesis .
  next
    case (bulk t)
    with frame.prems line_no_panic [OF ne [OF bulk]] obtain len u where
      "get_decimal E t = Ok (len, u)" "(add_usize E len 2 :: (usize, frame_error) res) = Panic p"
      by (auto simp: check_at res_conv cursor_no_panic split: if_splits)
    from oversized_bulk [OF bulk this(1) add_usize_carry [OF this(2)]] show ?thesis .
  qed (use frame.prems line_no_panic [OF ne] in \<open>auto simp: check_at res_conv\<close>)
next
  case (cons E n src)
  show ?case
  proof (cases "check E src :: (cursor, frame_error) res")
    case (Ok t)
    with cons.prems have "check_loop E n t = Panic p" by simp
    from oversized_entry_Suc(2) [OF Ok cons.IH(2) [OF Ok this]] show ?thesis .
  next
    case (Panic q)
    with cons.prems have "check E src = Panic p" by simp
    from oversized_entry_Suc(1) [OF cons.IH(1) [OF this]] show ?thesis .
  qed (use cons.prems in simp)
qed simp

lemma parse_oversized:
  "check E src = Ok src' \<Longrightarrow> parse E src = Panic p \<Longrightarrow> oversized E src"
  "check_loop E n src = Ok src' \<Longrightarrow> parse_loop E n out src = Panic p \<Longrightarrow> oversized_entry E n src"
proof (induction E src and E n out src arbitrary: src' and src' rule: parse_induct)
  case (frame E src)
  show ?case
  proof (cases src rule: type_byte_cases)
    case (bulk t)
    then have "get_ref t \<noteq> []" by (auto simp: get_u8_Ok)
    note np = line_no_panic [OF this, of E]
    obtain q where q: "peek_u8 t = Ok q" using frame.prems(1) bulk by (auto simp: check_at res_conv)
    show ?thesis
    proof (cases "q = CHR ''-''")
      case True
      with frame.prems(2) bulk q np show ?thesis by (auto simp: parse_at res_conv split: if_splits)
    next
      case False
      with frame.prems(1) bulk q obtain len u n where u: "get_decimal E t = Ok (len, u)"
        "(add_usize E len 2 :: (usize, frame_error) res) = Ok n" "unat n \<le> remaining u"
        by (auto simp: check_at res_conv skip_Ok)
      with frame.prems(2) bulk q False have "unat n < unat len"
        by (auto simp: parse_at res_conv length_chunk skip_def split: if_splits)
      with u(2) unat_add_usize_fits [of len 2] have "\<not> unat len + 2 < 2 ^ 64"
        by (auto simp: add_usize_def split: if_splits)
      then have "2 ^ 64 \<le> unat len + 2" by (simp only: not_less)
      from oversized_bulk [OF bulk u(1) this] show ?thesis .
    qed
  next
    case (array t)
    then obtain len u where u: "get_decimal E t = Ok (len, u)" "check_loop E (unat len) u = Ok src'"
      using frame.prems(1) by (auto simp: check_at res_conv)
    with frame.prems(2) array have "parse_loop E (unat len) [] u = Panic p" by (auto simp: parse_at res_conv)
    from oversized_array [OF array u(1) frame.IH [OF array u(1) u(2) this]] show ?thesis .
  qed (use frame.prems in \<open>auto simp: parse_at check_at res_conv\<close>)
next
  case (cons E n out src)
  from cons.prems(1) obtain t where t: "check E src = Ok t" "check_loop E n t = Ok src'"
    by (auto simp: res_conv)
  show ?case
  proof (cases "parse E src")
    case (Ok a)
    then obtain f where f: "parse E src = Ok (f, t)"
      using parse_check(1) [of E src "fst a" "snd a"] t(1) by (cases a) auto
    with cons.prems(2) have "parse_loop E n (out @ [f]) t = Panic p" by simp
    from oversized_entry_Suc(2) [OF t(1) cons.IH(2) [OF f t(2) this]] show ?thesis .
  next
    case (Panic q)
    with cons.prems(2) have "parse E src = Panic p" by simp
    from oversized_entry_Suc(1) [OF cons.IH(1) [OF t(1) this]] show ?thesis .
  qed (use cons.prems(2) in simp)
qed simp

text \<open>It stays oversized when more bytes arrive.\<close>

lemma oversized_feed: "oversized E src \<Longrightarrow> oversized E (feed xs src)"
proof (induction rule: oversized.induct)
  case (oversized_bulk src t len u)
  then have "get_ref t \<noteq> []" by (auto simp: get_u8_Ok)
  with oversized_bulk(2) have "get_decimal E (feed xs t) = Ok (len, feed xs u)" by (simp add: get_decimal_feed)
  from oversized.oversized_bulk [OF get_u8_feed [OF oversized_bulk(1)] this oversized_bulk(3)] show ?case .
next
  case (oversized_item src t len u k v)
  then have "get_ref t \<noteq> []" by (auto simp: get_u8_Ok)
  with oversized_item(2) have d: "get_decimal E (feed xs t) = Ok (len, feed xs u)" by (simp add: get_decimal_feed)
  have "check_loop E k (feed xs u) = Ok (feed xs v)" using oversized_item(4) by (simp add: check_feed(2))
  from oversized.oversized_item [OF get_u8_feed [OF oversized_item(1)] d oversized_item(3) this oversized_item.IH]
  show ?case .
qed

lemma oversized_append: "oversized E (cur bs 0) \<Longrightarrow> oversized E (cur (bs @ xs) 0)"
  using oversized_feed [of E "cur bs 0" xs] by (simp add: feed_def)

text \<open>The panic of an oversized bulk header, in a debug and in a release build.\<close>

definition wire_panic :: "env \<Rightarrow> panic" where
  "wire_panic E = (if overflow_checks E then ArithOverflow else IndexOutOfBounds)"

lemma parse_frame_panics:
  assumes "parse_frame E c = Panic p"
  shows "p = wire_panic E \<and> oversized E (cur (buffer c) 0)"
proof (cases "check E \<lparr>get_ref = buffer c, position = 0\<rparr>")
  case (Ok buf)
  have pos: "get_ref buf = buffer c" using check_bounds(1) [OF Ok] by simp
  from assms Ok have "parse E (buf\<lparr>position := 0\<rparr>) = Panic p"
    by (auto simp: parse_frame_def Let_def res_conv map_err_def split: res.splits)
  moreover have "buf\<lparr>position := 0\<rparr> = \<lparr>get_ref = buffer c, position = 0\<rparr>" using pos by simp
  ultimately show ?thesis using parse_after_check(1) [OF Ok] parse_oversized(1) [OF Ok] by (simp add: wire_panic_def)
next
  case (Panic q)
  with assms check_panics(1) [OF Panic] check_oversized(1) [OF Panic] show ?thesis by (simp add: parse_frame_def wire_panic_def)
qed (use assms in \<open>simp add: parse_frame_def split: frame_error.splits\<close>)

text \<open>The bytes a client has sent and the server has not taken as frames start with an oversized bulk string.\<close>

definition oversized_input :: "env \<Rightarrow> connection \<Rightarrow> bool" where
  "oversized_input E c \<longleftrightarrow> oversized E (cur (unread c) 0)"

lemma read_frame_panics: "read_frame E c = Ready (Panic p) \<Longrightarrow> p = wire_panic E \<and> oversized_input E c"
proof (induction E c rule: read_frame.induct)
  case (1 E c)
  show ?case
  proof (cases "parse_frame E c")
    case (Ok r)
    obtain o' d where r: "r = (o', d)" by (cases r)
    with Ok "1.prems" have o: "o' = None" by (cases o') (simp_all add: read_frame.simps [of E c])
    with Ok r have d: "d = c" by (simp add: parse_frame_None)
    with "1.prems" Ok r o obtain bs evs where i: "inbound d = Recv bs # evs" "bs \<noteq> []"
      and p: "read_frame E (d\<lparr>buffer := buffer d @ bs, inbound := evs\<rparr>) = Ready (Panic p)"
      by (auto simp: read_frame.simps [of E c] split: list.splits read_event.splits if_splits)
    have "unread (d\<lparr>buffer := buffer d @ bs, inbound := evs\<rparr>) = unread c" using i d by (simp add: unread_def)
    with "1.IH" [OF Ok r [symmetric] o i(1) refl i(2) p] show ?thesis by (simp add: oversized_input_def)
  next
    case (Panic q)
    with "1.prems" parse_frame_panics [OF Panic] show ?thesis
      by (simp add: read_frame.simps [of E c] oversized_input_def unread_def oversized_append)
  qed (use "1.prems" in \<open>simp add: read_frame.simps [of E c]\<close>)
qed

section \<open>Writing\<close>

lemma write_no_panic: "write_all c bs \<noteq> Panic p" "flush c \<noteq> Panic p" "write_decimal c n \<noteq> Panic p"
  by (simp_all add: write_all_def flush_def write_decimal_def Let_def res_conv)

lemma write_value_no_panic: "\<not> is_array f \<Longrightarrow> write_value c f \<noteq> Panic p"
  by (cases f) (simp_all add: res_conv write_no_panic)

lemma write_entries_no_panic: "list_all (\<lambda>f. \<not> is_array f) fs \<Longrightarrow> write_entries c fs \<noteq> Panic p"
  by (induction fs arbitrary: c) (simp_all add: res_conv write_value_no_panic)

text \<open>A reply without an array in an array is written or refused, never a panic.\<close>

fun shallow :: "frame \<Rightarrow> bool" where
  "shallow (Array fs) = list_all (\<lambda>f. \<not> is_array f) fs"
| "shallow f = True"

lemma write_frame_no_panic: "shallow f \<Longrightarrow> write_frame c f \<noteq> Panic p"
proof (cases f)
  case (Array fs)
  assume "shallow f"
  with Array show ?thesis
    by (simp add: write_frame.simps res_conv write_no_panic write_entries_no_panic)
qed (simp_all add: write_frame.simps res_conv write_no_panic write_value_no_panic)

section \<open>The database\<close>

text \<open>A lock is never unpoisoned, and only an overflowing expiration poisons it.\<close>

definition db_panic :: "panic \<Rightarrow> ('tx, 'w, 'n) system \<Rightarrow> bool" where
  "db_panic p s \<longleftrightarrow> (p = InstantOverflow \<or> p = PoisonedLock) \<and> poisoned (shared s)"

lemma with_lock_poison:
  "with_lock f sh = (r, sh') \<Longrightarrow> poisoned sh \<Longrightarrow> poisoned sh'"
  by (simp add: with_lock_poisoned)

lemma db_set_panics: "db_set t k v e sh = (Panic p, sh') \<Longrightarrow> (p = InstantOverflow \<or> p = PoisonedLock) \<and> poisoned sh'"
  by (cases "poisoned sh")
    (auto simp: db_set_def with_lock_def expiry_def instant_add_def res_conv split: option.splits if_splits)

lemma env_step_poison: "env_step B N s s' \<Longrightarrow> poisoned (shared s) \<Longrightarrow> poisoned (shared s')"
  by (induction rule: env_step.induct)
    (auto simp: db_set_def db_shutdown_def db_get_def with_lock_poisoned db_subscribe_def db_publish_def)

lemma task_step_poison: "task_step N s s' \<Longrightarrow> poisoned (shared s) \<Longrightarrow> poisoned (shared s')"
  by (induction rule: task_step.induct)
    (auto simp: is_shutdown_def purge_expired_keys_def with_lock_poisoned)

lemma client_steps_poison: "(client_step B N)\<^sup>*\<^sup>* s s' \<Longrightarrow> poisoned (shared s) \<Longrightarrow> poisoned (shared s')"
  by (induction rule: rtranclp_induct) (auto simp: client_step_def dest: env_step_poison)

section \<open>Commands\<close>

lemma run_db_panics:
  assumes "run_db f s = (Panic p, s')" "\<And>sh sh' q. f sh = (Panic q, sh') \<Longrightarrow> (q = InstantOverflow \<or> q = PoisonedLock) \<and> poisoned sh'"
  shows "db_panic p s'"
  using assms by (auto simp: run_db_def db_panic_def split: prod.splits)

lemma run_pub_sub_panics:
  assumes "run_pub_sub f s = (Panic p, s')" "\<And>sh w q sh' w'. f (sh, w) = (Panic q, sh', w') \<Longrightarrow> q = PoisonedLock \<and> poisoned sh'"
  shows "db_panic p s'"
  using assms by (auto simp: run_pub_sub_def db_panic_def split: prod.splits)

lemma db_get_panics: "db_get k sh = (Panic p, sh') \<Longrightarrow> (p = InstantOverflow \<or> p = PoisonedLock) \<and> poisoned sh'"
  by (cases "poisoned sh") (auto simp: db_get_def with_lock_def split: prod.splits)

lemma pub_sub_panics:
  "db_publish B k v (sh, w) = (Panic p, sh', w') \<Longrightarrow> p = PoisonedLock \<and> poisoned sh'"
  "db_subscribe B k (sh, w) = (Panic p, sh', w') \<Longrightarrow> p = PoisonedLock \<and> poisoned sh'"
  by (auto simp: db_publish_def db_subscribe_def split: if_splits option.splits prod.splits)

lemma st_then_panics:
  assumes "st_then rs f = (Panic p, s')"
  obtains "rs = (Panic p, s')" | a s where "rs = (Ok a, s)" "f a s = (Panic p, s')"
  using assms by (cases rs; cases "fst rs") (auto simp: st_then_def)

lemma get_apply_panics: "get_apply c dst s = (Panic p, s') \<Longrightarrow> db_panic p s'"
  unfolding get_apply_def
  by (erule st_then_panics)
    (auto simp: write_frame_no_panic split: option.splits elim!: run_db_panics dest: db_get_panics)

lemma set_apply_panics: "set_apply N c dst s = (Panic p, s') \<Longrightarrow> db_panic p s'"
  unfolding set_apply_def db_set_notify_def
  by (elim st_then_panics)
    (auto simp: write_frame_no_panic elim!: run_db_panics dest: db_set_panics)

lemma publish_apply_panics: "publish_apply B c dst s = (Panic p, s') \<Longrightarrow> db_panic p s'"
  unfolding publish_apply_def
  by (erule st_then_panics)
    (auto simp: write_frame_no_panic elim!: run_pub_sub_panics dest: pub_sub_panics)

lemma ping_unknown_no_panic: "ping_apply c dst \<noteq> Panic p" "unknown_apply u dst \<noteq> Panic p"
  by (auto simp: ping_apply_def unknown_apply_def write_frame_no_panic split: option.splits)

lemma subscribe_channels_panics:
  "subscribe_channels B M chs m dst s = (Panic p, s') \<Longrightarrow> db_panic p s'"
proof (induction chs arbitrary: m dst s)
  case (Cons ch chs)
  from Cons.prems show ?case
    by (auto simp: subscribe_to_channel_def write_frame_no_panic res_conv Let_def
        elim!: st_then_panics run_pub_sub_panics dest: pub_sub_panics Cons.IH)
qed simp

section \<open>The handler\<close>

lemma iterate_panics: "iterate rs = (SubReturned (Panic p), s') \<Longrightarrow> rs = (Panic p, s')"
  by (cases rs rule: iterate.cases) simp_all

lemma subscribe_enter_panics: "subscribe_enter B M c dst s = (SubReturned (Panic p), s') \<Longrightarrow> db_panic p s'"
  by (auto simp: subscribe_enter_def dest!: iterate_panics subscribe_channels_panics)

lemma unsubscribe_loop_no_panic: "unsubscribe_loop M chs m dst \<noteq> Panic p"
  by (induction chs arbitrary: m dst) (simp_all add: Let_def res_conv write_frame_no_panic)

lemma handle_command_no_panic: "handle_command E M f chs m dst \<noteq> Panic p"
  by (auto simp: handle_command_def res_conv from_frame_no_panic unsubscribe_loop_no_panic
      ping_unknown_no_panic Let_def split: command.splits)

lemma subscribe_select_panics:
  assumes "subscribe_select E B M ev m dst s = (SubReturned (Panic p), s')"
  shows "p = wire_panic E \<and> oversized_input E dst \<or> db_panic p s'"
proof (cases ev)
  case (SelMessage ch msg)
  with assms show ?thesis
    by (auto simp: subscribe_select_def res_conv write_frame_no_panic dest!: iterate_panics)
next
  case SelFrame
  with assms show ?thesis
    by (auto simp: subscribe_select_def handle_command_no_panic
        split: read_poll.splits res.splits option.splits prod.splits
        dest!: iterate_panics subscribe_channels_panics read_frame_panics elim!: st_then_panics)
qed (use assms in \<open>simp add: subscribe_select_def\<close>)

lemma after_apply_panics:
  assumes "after_apply h rs = (h', s')" "h_mode h' = Ended (Panic p)"
  shows "rs = (Panic p, s')"
  using assms by (cases "(h, rs)" rule: after_apply.cases) (auto simp: loop_top_def split: if_splits)

lemma in_subscribe_panics:
  assumes "in_subscribe h rs = (h', s')" "h_mode h' = Ended (Panic p)"
  shows "rs = (SubReturned (Panic p), s')"
  using assms by (cases "(h, rs)" rule: in_subscribe.cases) (auto dest: after_apply_panics)

lemma handle_frame_panics:
  assumes "handle_frame E B N M f conn h s = (h', s')" "h_mode h' = Ended (Panic p)"
  shows "db_panic p s'"
proof (cases "from_frame E f")
  case (Ok cmd)
  show ?thesis
  proof (cases cmd)
    case (SubscribeCmd c)
    with assms Ok have "subscribe_enter B M c conn s = (SubReturned (Panic p), s')"
      by (auto simp: handle_frame_def command_apply_def dest: in_subscribe_panics)
    then show ?thesis by (rule subscribe_enter_panics)
  qed (use assms Ok ping_unknown_no_panic in \<open>auto simp: handle_frame_def command_apply_def
      dest!: after_apply_panics get_apply_panics set_apply_panics publish_apply_panics\<close>)
qed (use assms from_frame_no_panic in \<open>auto simp: handle_frame_def\<close>)

lemma after_apply_conn: "h_mode (fst (after_apply h rs)) = Ended (Panic p) \<Longrightarrow> h_conn (fst (after_apply h rs)) = h_conn h"
  by (cases "(h, rs)" rule: after_apply.cases) (auto simp: loop_top_def split: if_splits)

lemma in_subscribe_conn: "h_mode (fst (in_subscribe h rs)) = Ended (Panic p) \<Longrightarrow> h_conn (fst (in_subscribe h rs)) = h_conn h"
  by (cases "(h, rs)" rule: in_subscribe.cases) (auto dest: after_apply_conn)

lemma handler_select_panics:
  assumes "handler_select E B N M closed ev h s = (h', s')" "h_mode h' = Ended (Panic p)" "live h"
  shows "p = wire_panic E \<and> oversized_input E (h_conn h') \<or> db_panic p s'"
proof (cases "h_mode h")
  case Serving
  show ?thesis
  proof (cases ev)
    case SelFrame
    show ?thesis
    proof (cases "read_frame E (h_conn h)")
      case (Ready r)
      with SelFrame Serving assms show ?thesis
        by (auto simp: handler_select_def split: res.splits option.splits
            dest: read_frame_panics handle_frame_panics)
    qed (use SelFrame Serving assms in \<open>auto simp: handler_select_def\<close>)
  qed (use Serving assms in \<open>auto simp: handler_select_def split: option.splits\<close>)
next
  case (InSubscribe m)
  let ?in = "\<lambda>hh. handler_select E B N M closed ev h s = in_subscribe hh (subscribe_select E B M ev m (h_conn h) s)"
  consider "handler_select E B N M closed ev h s = (h, s)" | "?in h" | sd where "?in (h\<lparr>h_shutdown := sd\<rparr>)"
    using InSubscribe by (cases ev; cases "shutdown_recv closed (h_shutdown h)") (auto simp: handler_select_def)
  then obtain hh where hh: "h_conn hh = h_conn h" "handler_select E B N M closed ev h s = (h, s) \<or> ?in hh"
  proof cases
    case (3 sd)
    then show thesis by (intro that [of "h\<lparr>h_shutdown := sd\<rparr>"]) simp_all
  qed (use that [of h] in simp_all)
  with assms InSubscribe have i: "in_subscribe hh (subscribe_select E B M ev m (h_conn h) s) = (h', s')" by auto
  from in_subscribe_conn [of hh "subscribe_select E B M ev m (h_conn h) s" p] i assms(2) hh(1)
  have "h_conn h' = h_conn h" by simp
  with subscribe_select_panics [OF in_subscribe_panics [OF i assms(2)]] show ?thesis by simp
qed (use assms(3) in simp)

text \<open>What a panicked handler says about its client and the server.\<close>

definition panic_explained :: "env \<Rightarrow> ('tx, 'w, 'n) system \<Rightarrow> 'm handler \<Rightarrow> bool" where
  "panic_explained E s h \<longleftrightarrow>
     (\<forall>p. h_mode h = Ended (Panic p) \<longrightarrow> p = wire_panic E \<and> oversized_input E (h_conn h) \<or> db_panic p s)"

lemma explained_mono:
  assumes "panic_explained E s h" "poisoned (shared s) \<Longrightarrow> poisoned (shared s')"
  shows "panic_explained E s' h"
  using assms by (auto simp: panic_explained_def db_panic_def)

lemma explained_update:
  assumes "list_all (panic_explained E s) hs" "poisoned (shared s) \<Longrightarrow> poisoned (shared s')" "panic_explained E s' h"
  shows "list_all (panic_explained E s') (hs[i := h])"
  using assms by (auto simp: list_all_iff dest!: set_update_subset_insert [THEN subsetD] intro: explained_mono)

lemma oversized_deliver:
  "oversized_input E c \<Longrightarrow> oversized_input E (c\<lparr>inbound := inbound c @ [ev]\<rparr>)"
proof -
  obtain bs where "arriving (inbound c @ [ev]) = arriving (inbound c) @ bs" using arriving_append by blast
  then show "oversized_input E c \<Longrightarrow> oversized_input E (c\<lparr>inbound := inbound c @ [ev]\<rparr>)"
    using oversized_append [of E "unread c" bs] by (simp add: oversized_input_def unread_def)
qed

lemma server_step_explained:
  assumes "server_step E B N M s s'" "list_all (panic_explained E (sys s)) (handlers s)"
  shows "list_all (panic_explained E (sys s')) (handlers s')"
  using assms
proof (induction rule: server_step.induct)
  case (handle i s ev h sy w)
  have st: "(client_step B N)\<^sup>*\<^sup>* (sys s) sy"
    using handler_select_client [of B N "sys s" E M "phase s \<noteq> Running" ev "handlers s ! i"] handle.hyps(5) by simp
  have "panic_explained E sy h"
    using handler_select_panics [OF handle.hyps(5) _ handle.hyps(2)] by (simp add: panic_explained_def)
  from explained_update [OF handle.prems client_steps_poison [OF st] this] show ?case by (simp add: put_handler_def)
next
  case (write_fails i s h sy)
  then have "panic_explained E sy h" "sy = sys s" by (auto simp: panic_explained_def)
  with explained_update [OF write_fails.prems, of sy h i] show ?case by (simp add: put_handler_def)
next
  case (deliver i s h ev)
  then have "panic_explained E (sys s) h" by (simp add: list_all_length)
  then have "panic_explained E (sys s) (h\<lparr>h_conn := (h_conn h)\<lparr>inbound := inbound (h_conn h) @ [ev]\<rparr>\<rparr>)"
    using oversized_deliver by (auto simp: panic_explained_def)
  from explained_update [OF deliver.prems _ this] show ?case by simp
next
  case (fault i s h)
  then have "panic_explained E (sys s) h" by (simp add: list_all_length)
  then have "panic_explained E (sys s) (h\<lparr>h_conn := (h_conn h)\<lparr>write_fault := True\<rparr>\<rparr>)"
    by (simp add: panic_explained_def oversized_input_def unread_def)
  from explained_update [OF fault.prems _ this] show ?case by simp
next
  case (background s sy)
  then show ?case using task_step_poison [OF background.hyps]
    by (auto simp: list_all_iff intro: explained_mono)
next
  case (stop s r sy)
  then have "poisoned (shared (sys s)) \<Longrightarrow> poisoned (shared sy)"
    by (auto simp: db_shutdown_notify_def run_db_def db_shutdown_def with_lock_poisoned)
  with stop.prems show ?case by (auto simp: list_all_iff intro: explained_mono)
qed (auto simp: list_all_iff begin_shutdown_def panic_explained_def new_handler_def db_panic_def)

lemma read_after_recv:
  assumes "parse_frame E c = Ok (None, c)" "inbound c = Recv bs # evs" "bs \<noteq> []"
  shows "read_frame E c = read_frame E (c\<lparr>buffer := buffer c @ bs, inbound := evs\<rparr>)"
  using assms by (subst read_frame.simps) simp

lemma read_panic: "parse_frame E c = Panic p \<Longrightarrow> read_frame E c = Ready (Panic p)"
  by (subst read_frame.simps) simp

text \<open>
  C10: whatever clients send, a connection handler panics for two causes only. Either the bytes its client has
  sent and it has not yet taken as frames start with an oversized bulk string, alone or as an entry of an array
  (\<open>oversized\<close>: the length does not fit the counter), and the panic is an
  overflow in a debug build and a slice out of range in a release build; or it panics in the
  database, and then the database is poisoned. So with neither, no slice, no arithmetic, no \<open>unwrap\<close> and no
  \<open>unreachable!\<close> or \<open>unimplemented!\<close> on the path of a handler ever panics.
\<close>

theorem handler_panics_explained:
  assumes "server_reachable E B N M s" "h \<in> set (handlers s)" "h_mode h = Ended (Panic p)"
  shows "p = (if overflow_checks E then ArithOverflow else IndexOutOfBounds) \<and>
      oversized E (cur (unread (h_conn h)) 0) \<or>
    (p = InstantOverflow \<or> p = PoisonedLock) \<and> poisoned (shared (sys s))"
proof -
  have "list_all (panic_explained E (sys s)) (handlers s)"
    using assms(1)
  proof (induction rule: server_reachable.induct)
    case (step s s')
    from server_step_explained [OF step.hyps(2) step.IH] show ?case .
  qed (simp add: server_new_def)
  with assms(2,3) show ?thesis
    by (auto simp: list_all_iff panic_explained_def wire_panic_def db_panic_def oversized_input_def)
qed

theorem handler_panics_explained_witness:
  "\<exists>(s :: (nat, nat list, bool, (bytes \<times> nat) list) server) h p.
     server_reachable (ref_env True) ref_broadcast permit ref_stream_map s \<and> h \<in> set (handlers s) \<and>
     h_mode h = Ended (Panic p) \<and> oversized (ref_env True) (cur (unread (h_conn h)) 0)"
proof -
  let ?E = "ref_env True"
  define bs where "bs = ''$'' @ dec (2 ^ 64 - 1) @ CRLF @ ''x''"
  let ?s = "server_new permit [] 0 :: (nat, nat list, bool, (bytes \<times> nat) list) server"
  let ?h = "new_handler :: (bytes \<times> nat) list handler"
  let ?g = "?h\<lparr>h_conn := new_connection [Recv bs]\<rparr>"
  let ?a = "?s\<lparr>permits := 249, listen := Accepting 1\<rparr>"
  let ?b = "?a\<lparr>handlers := [?h], listen := Acquiring\<rparr>"
  let ?c = "?b\<lparr>handlers := [?g]\<rparr>"
  let ?f = "?g\<lparr>h_mode := Ended (Panic ArithOverflow)\<rparr>"
  let ?d = "put_handler 0 ?f (?c\<lparr>sys := sys ?c, stalled := stalled ?c\<rparr>)"
  have len: "length (dec (2 ^ 64 - 1)) \<le> 20" by (rule dec_length_bound) simp_all
  have "parse_frame ?E (new_connection [Recv bs]) = Ok (None, new_connection [Recv bs])"
    by (simp add: parse_frame_def new_connection_def check_at(1) get_u8_def remaining_def Let_def)
  moreover have "parse_frame ?E (new_connection []\<lparr>buffer := bs\<rparr>) = Panic ArithOverflow"
    using bulk_length_overflow [OF ref_env_atoi, of "new_connection []\<lparr>buffer := bs\<rparr>" "CHR ''x''" "[]" True] len
    by (simp add: isize_max_def CRLF_def ref_env_def bs_def)
  moreover have "bs \<noteq> []" by (simp add: bs_def)
  ultimately have r: "read_frame ?E (new_connection [Recv bs]) = Ready (Panic ArithOverflow)"
    using read_after_recv [of ?E "new_connection [Recv bs]" bs "[]"] read_panic
    by (simp add: new_connection_def)
  have "server_step ?E ref_broadcast permit ref_stream_map ?s ?a"
    by (rule server_step.acquire) (simp_all add: server_new_def MAX_CONNECTIONS_def)
  moreover have "server_step ?E ref_broadcast permit ref_stream_map ?a ?b"
    using server_step.accepted [of ?a 1] by (simp add: server_new_def)
  moreover have "server_step ?E ref_broadcast permit ref_stream_map ?b ?c"
    using server_step.deliver [of 0 ?b ?h ?E ref_broadcast permit ref_stream_map "Recv bs"]
    by (simp add: new_handler_def new_connection_def)
  moreover have "server_step ?E ref_broadcast permit ref_stream_map ?c ?d"
  proof (rule server_step.handle)
    show "handler_select ?E ref_broadcast permit ref_stream_map (phase ?c \<noteq> Running) SelFrame
        (handlers ?c ! 0) (sys ?c) = (?f, sys ?c)"
      by (simp add: handler_select_def new_handler_def r)
  qed (simp_all add: new_handler_def server_new_def)
  ultimately have "server_reachable ?E ref_broadcast permit ref_stream_map ?d"
    by (meson server_reachable.intros)
  moreover have "?f \<in> set (handlers ?d)" "h_mode ?f = Ended (Panic ArithOverflow)"
    by (simp_all add: put_handler_def)
  ultimately show ?thesis
    using handler_panics_explained [of ?E ref_broadcast permit ref_stream_map ?d ?f ArithOverflow] by blast
qed

end
