(* ===== verification/Client.thy ===== *)
theory Client
  imports Connection Commands
begin

text \<open>
  \<open>src/mini-redis/src/clients/client.rs\<close>: the client's operations over a connection. Each writes
  one request and waits for the reply; \<open>Blocked\<close> is an operation that still waits for bytes of
  the server. The lemmas say what an operation sends and how it reads the reply, whatever packets
  bring it.
\<close>

section \<open>Operations\<close>

text \<open>The struct \<open>Client\<close> is its connection.\<close>

datatype 'a call = Done "('a \<times> connection, crate_error) res" | Blocked connection

text \<open>The \<open>.await?\<close> of an operation inside another.\<close>

fun await_then :: "'a call \<Rightarrow> ('a \<Rightarrow> connection \<Rightarrow> 'b call) \<Rightarrow> 'b call" where
  "await_then (Done (Ok (a, c))) f = f a c"
| "await_then (Done (Err e)) f = Done (Err e)"
| "await_then (Done (Panic p)) f = Done (Panic p)"
| "await_then (Blocked c) f = Blocked c"

definition read_response :: "env \<Rightarrow> connection \<Rightarrow> frame call" where
  "read_response E self =
     (case read_frame E self of
        Pending c \<Rightarrow> Blocked c
      | Ready (Err e) \<Rightarrow> Done (Err e)
      | Ready (Panic p) \<Rightarrow> Done (Panic p)
      | Ready (Ok (Some frame, c)) \<Rightarrow>
          (case frame of Error msg \<Rightarrow> Done (Err (Text msg)) | _ \<Rightarrow> Done (Ok (frame, c)))
      | Ready (Ok (None, c)) \<Rightarrow> Done (Err (Text ''connection reset by server'')))"

text \<open>Build the request frame and write it.\<close>

definition send_request :: "(frame, crate_error) res \<Rightarrow> connection \<Rightarrow> unit call" where
  "send_request into_frame self =
     Done (and_then into_frame (\<lambda>frame. and_then (write_frame self frame) (\<lambda>c. Ok ((), c))))"

definition client_ping :: "env \<Rightarrow> bytes option \<Rightarrow> connection \<Rightarrow> bytes call" where
  "client_ping E msg self =
     await_then (send_request (ping_into_frame \<lparr>ping_msg = msg\<rparr>) self) (\<lambda>_ self.
     await_then (read_response E self) (\<lambda>frame self.
       case frame of
         Simple val \<Rightarrow> Done (Ok (val, self))
       | Bulk val \<Rightarrow> Done (Ok (val, self))
       | frame \<Rightarrow> Done (Err (to_error E frame))))"

definition client_get :: "env \<Rightarrow> bytes \<Rightarrow> connection \<Rightarrow> bytes option call" where
  "client_get E key self =
     await_then (send_request (get_into_frame \<lparr>get_key = key\<rparr>) self) (\<lambda>_ self.
     await_then (read_response E self) (\<lambda>frame self.
       case frame of
         Simple val \<Rightarrow> Done (Ok (Some val, self))
       | Bulk val \<Rightarrow> Done (Ok (Some val, self))
       | Null \<Rightarrow> Done (Ok (None, self))
       | frame \<Rightarrow> Done (Err (to_error E frame))))"

definition set_cmd :: "env \<Rightarrow> Set \<Rightarrow> connection \<Rightarrow> unit call" where
  "set_cmd E cmd self =
     await_then (send_request (set_into_frame cmd) self) (\<lambda>_ self.
     await_then (read_response E self) (\<lambda>frame self.
       if frame = Simple ''OK'' then Done (Ok ((), self)) else Done (Err (to_error E frame))))"

definition client_set :: "env \<Rightarrow> bytes \<Rightarrow> bytes \<Rightarrow> connection \<Rightarrow> unit call" where
  "client_set E key val self = set_cmd E \<lparr>set_key = key, set_value = val, set_expire = None\<rparr> self"

definition client_set_expires ::
    "env \<Rightarrow> bytes \<Rightarrow> bytes \<Rightarrow> duration \<Rightarrow> connection \<Rightarrow> unit call" where
  "client_set_expires E key val expiration self =
     set_cmd E \<lparr>set_key = key, set_value = val, set_expire = Some expiration\<rparr> self"

definition client_publish :: "env \<Rightarrow> bytes \<Rightarrow> bytes \<Rightarrow> connection \<Rightarrow> u64 call" where
  "client_publish E channel message self =
     await_then (send_request (publish_into_frame \<lparr>pub_channel = channel, pub_message = message\<rparr>) self)
       (\<lambda>_ self.
     await_then (read_response E self) (\<lambda>frame self.
       case frame of
         Integer response \<Rightarrow> Done (Ok (response, self))
       | frame \<Rightarrow> Done (Err (to_error E frame))))"

section \<open>The subscriber\<close>

text \<open>The loop \<open>for channel in channels\<close> of \<open>subscribe_cmd\<close>.\<close>

fun confirm_channels :: "env \<Rightarrow> bytes list \<Rightarrow> connection \<Rightarrow> unit call" where
  "confirm_channels E [] self = Done (Ok ((), self))"
| "confirm_channels E (channel # channels) self =
     await_then (read_response E self) (\<lambda>response self.
       case response of
         Array (subscribe # schannel # _) \<Rightarrow>
           if frame_eq_str subscribe ''subscribe'' \<and> frame_eq_str schannel channel
           then confirm_channels E channels self
           else Done (Err (to_error E response))
       | frame \<Rightarrow> Done (Err (to_error E frame)))"

definition subscribe_cmd :: "env \<Rightarrow> bytes list \<Rightarrow> connection \<Rightarrow> unit call" where
  "subscribe_cmd E channels self =
     await_then (send_request (subscribe_into_frame \<lparr>sub_channels = channels\<rparr>) self) (\<lambda>_ self.
       confirm_channels E channels self)"

text \<open>\<open>Subscriber\<close> is the connection and the list \<open>subscribed_channels\<close>.\<close>

definition client_subscribe :: "env \<Rightarrow> bytes list \<Rightarrow> connection \<Rightarrow> bytes list call" where
  "client_subscribe E channels self =
     await_then (subscribe_cmd E channels self) (\<lambda>_ self. Done (Ok (channels, self)))"

definition subscriber_subscribe ::
    "env \<Rightarrow> bytes list \<Rightarrow> bytes list \<Rightarrow> connection \<Rightarrow> bytes list call" where
  "subscriber_subscribe E channels subscribed self =
     await_then (subscribe_cmd E channels self) (\<lambda>_ self. Done (Ok (subscribed @ channels, self)))"

record message =
  msg_channel :: bytes
  msg_content :: bytes

definition next_message :: "env \<Rightarrow> connection \<Rightarrow> message option call" where
  "next_message E self =
     (case read_frame E self of
        Pending c \<Rightarrow> Blocked c
      | Ready (Err e) \<Rightarrow> Done (Err e)
      | Ready (Panic p) \<Rightarrow> Done (Panic p)
      | Ready (Ok (None, c)) \<Rightarrow> Done (Ok (None, c))
      | Ready (Ok (Some mframe, c)) \<Rightarrow>
          (case mframe of
             Array [message, channel, content] \<Rightarrow>
               if frame_eq_str message ''message''
               then Done (Ok (Some \<lparr>msg_channel = display_frame E channel,
                                    msg_content = display_frame E content\<rparr>, c))
               else Done (Err (to_error E mframe))
           | frame \<Rightarrow> Done (Err (to_error E frame))))"

text \<open>The loop \<open>for _ in 0..num\<close> of \<open>unsubscribe\<close> over the list of subscribed channels.\<close>

fun unsubscribe_confirms ::
    "env \<Rightarrow> nat \<Rightarrow> bytes list \<Rightarrow> connection \<Rightarrow> bytes list call" where
  "unsubscribe_confirms E 0 subscribed self = Done (Ok (subscribed, self))"
| "unsubscribe_confirms E (Suc num) subscribed self =
     await_then (read_response E self) (\<lambda>response self.
       case response of
         Array (unsubscribe # channel # _) \<Rightarrow>
           if frame_eq_str unsubscribe ''unsubscribe'' then
             (let len = length subscribed in
              if len = 0 then Done (Err (to_error E response))
              else
                let subscribed = filter (\<lambda>c. \<not> frame_eq_str channel c) subscribed in
                if length subscribed \<noteq> len - 1 then Done (Err (to_error E response))
                else unsubscribe_confirms E num subscribed self)
           else Done (Err (to_error E response))
       | frame \<Rightarrow> Done (Err (to_error E frame)))"

definition subscriber_unsubscribe ::
    "env \<Rightarrow> bytes list \<Rightarrow> bytes list \<Rightarrow> connection \<Rightarrow> bytes list call" where
  "subscriber_unsubscribe E channels subscribed self =
     await_then (send_request (unsubscribe_into_frame \<lparr>unsub_channels = channels\<rparr>) self) (\<lambda>_ self.
       let num = (if channels = [] then length subscribed else length channels)
       in unsubscribe_confirms E num subscribed self)"

section \<open>The connection after a read\<close>

text \<open>
  The connection after \<open>read_frame\<close>, also when that fails: bytes that do not parse stay in the
  buffer, and a closed stream stays closed.
\<close>

function read_frame_conn :: "env \<Rightarrow> connection \<Rightarrow> connection" where
  "read_frame_conn E self =
     (case parse_frame E self of
        Err e \<Rightarrow> self
      | Panic p \<Rightarrow> self
      | Ok (Some frame, self') \<Rightarrow> self'
      | Ok (None, self') \<Rightarrow>
          (case inbound self' of
             [] \<Rightarrow> self'
           | RecvErr # evs \<Rightarrow> self'\<lparr>inbound := evs\<rparr>
           | Recv bs # evs \<Rightarrow>
               if bs = [] then self'
               else read_frame_conn E (self'\<lparr>buffer := buffer self' @ bs, inbound := evs\<rparr>)))"
  by pat_completeness auto
termination
  by (relation "measure (\<lambda>(E, c). length (inbound c))") (auto dest: parse_frame_None)

declare read_frame_conn.simps [simp del]

lemma read_frame_conn_found: "read_frame E c = Ready (Ok (Some f, c')) \<Longrightarrow> read_frame_conn E c = c'"
proof (induction E c rule: read_frame.induct)
  case (1 E c)
  show ?case
  proof (cases "parse_frame E c")
    case (Ok p)
    obtain o' d where p: "p = (o', d)" by (cases p)
    show ?thesis
    proof (cases o')
      case None
      with "1.prems" Ok p obtain bs evs where i: "inbound d = Recv bs # evs" "bs \<noteq> []"
        and r: "read_frame E (d\<lparr>buffer := buffer d @ bs, inbound := evs\<rparr>) = Ready (Ok (Some f, c'))"
        by (auto simp: read_frame.simps [of E c] split: list.splits read_event.splits if_splits)
      from "1.IH" [OF Ok p [symmetric] None i(1) refl i(2) r] Ok p None i show ?thesis
        by (simp add: read_frame_conn.simps [of E c])
    qed (use "1.prems" Ok p in \<open>simp add: read_frame.simps [of E c] read_frame_conn.simps [of E c]\<close>)
  qed (use "1.prems" in \<open>simp_all add: read_frame.simps [of E c]\<close>)
qed

section \<open>Replies in any packets\<close>

text \<open>
  A connection whose peer has sent the frames \<open>fs\<close>, in some packets not yet received or in part
  received already.
\<close>

definition expects :: "frame list \<Rightarrow> connection \<Rightarrow> bool" where
  "expects fs c \<longleftrightarrow>
     (\<exists>chunks. inbound c = map Recv chunks \<and> [] \<notin> set chunks \<and>
        buffer c @ concat chunks = concat (map encode fs)) \<and>
     length (concat (map encode fs)) \<le> isize_max \<and> list_all flat fs \<and> list_all line_safe fs \<and>
     \<not> write_fault c \<and> pending_out c = []"

lemma expects_read:
  assumes "atoi_reads_decimal E" "expects (f # fs) c"
  obtains c' where "read_frame E c = Ready (Ok (Some f, c'))" "expects fs c'" "sent c' = sent c"
proof -
  from assms(2) obtain chunks where c: "inbound c = map Recv chunks @ []" "[] \<notin> set chunks"
    "buffer c @ concat chunks = concat (map encode [f]) @ concat (map encode fs)"
    "length (buffer c @ concat chunks) \<le> isize_max"
    by (auto simp: expects_def)
  have ok: "list_all flat [f]" "list_all line_safe [f]" using assms(2) by (simp_all add: expects_def)
  from read_frames_encode [OF assms(1) ok c(3,4,1,2)] obtain used rest left where
    u: "left @ concat rest = concat (map encode fs)" "chunks = used @ rest"
    and r: "read_frames E (length [f]) c = Some ([f], c\<lparr>buffer := left, inbound := map Recv rest @ []\<rparr>)"
    by blast
  let ?c = "c\<lparr>buffer := left, inbound := map Recv rest\<rparr>"
  from r have "read_frame E c = Ready (Ok (Some f, ?c))"
    by (auto split: read_poll.splits res.splits option.splits)
  moreover have "expects fs ?c"
    using assms(2) u c(2) by (auto simp: expects_def)
  ultimately show thesis by (rule that) simp
qed

lemma expects_response:
  assumes "atoi_reads_decimal E" "expects (f # fs) c" "\<forall>msg. f \<noteq> Error msg"
  obtains c' where "read_response E c = Done (Ok (f, c'))" "expects fs c'" "sent c' = sent c"
proof -
  obtain c' where "read_frame E c = Ready (Ok (Some f, c'))" "expects fs c'" "sent c' = sent c"
    using expects_read [OF assms(1,2)] by blast
  with assms(3) show thesis by (intro that [of c']) (auto simp: read_response_def split: frame.splits)
qed

lemma send_request_sends:
  assumes "expects fs c" "into = Ok f" "flat f"
  shows "\<exists>c'. send_request into c = Done (Ok ((), c')) \<and> expects fs c' \<and> sent c' = sent c @ encode f"
proof -
  have "write_frame c f = Ok (c\<lparr>sent := sent c @ encode f, pending_out := []\<rparr>)"
    using write_frame_encode [of c f] assms(1,3) by (simp add: expects_def)
  with assms show ?thesis by (simp add: send_request_def expects_def)
qed


section \<open>The contract of a request\<close>

text \<open>
  The four request operations have one shape: write the request, read one reply, and accept some
  replies as a result. The lemmas hold for every operation of that shape.
\<close>

locale client_operation =
  fixes E :: env
    and op :: "connection \<Rightarrow> 'a call"
    and request :: frame
    and accepts :: "frame \<Rightarrow> 'a option"
  assumes shape: "op c = await_then (send_request (Ok request) c) (\<lambda>_ c.
    await_then (read_response E c) (\<lambda>f c.
      case accepts f of Some a \<Rightarrow> Done (Ok (a, c)) | None \<Rightarrow> Done (Err (to_error E f))))"
begin

lemma answered:
  assumes "atoi_reads_decimal E" "expects (f # fs) c" "flat request"
    and "accepts f = Some a" "\<forall>msg. f \<noteq> Error msg"
  shows "\<exists>c'. op c = Done (Ok (a, c')) \<and> expects fs c' \<and> sent c' = sent c @ encode request"
proof -
  obtain d where d: "send_request (Ok request) c = Done (Ok ((), d))" "expects (f # fs) d"
    "sent d = sent c @ encode request"
    using send_request_sends [OF assms(2) refl assms(3)] by blast
  obtain c' where "read_response E d = Done (Ok (f, c'))" "expects fs c'" "sent c' = sent d"
    using expects_response [OF assms(1) d(2) assms(5)] by blast
  with d assms(4) show ?thesis by (simp add: shape)
qed

lemma unexpected:
  assumes "atoi_reads_decimal E" "expects (f # fs) c" "flat request"
    and "accepts f = None" "\<forall>msg. f \<noteq> Error msg"
  shows "op c = Done (Err (to_error E f))"
proof -
  obtain d where d: "send_request (Ok request) c = Done (Ok ((), d))" "expects (f # fs) d"
    using send_request_sends [OF assms(2) refl assms(3)] by blast
  obtain c' where "read_response E d = Done (Ok (f, c'))"
    using expects_response [OF assms(1) d(2) assms(5)] by blast
  with d assms(4) show ?thesis by (simp add: shape)
qed

lemma refused:
  assumes "atoi_reads_decimal E" "expects (Error msg # fs) c" "flat request"
  shows "op c = Done (Err (Text msg))"
proof -
  obtain d where d: "send_request (Ok request) c = Done (Ok ((), d))" "expects (Error msg # fs) d"
    using send_request_sends [OF assms(2) refl assms(3)] by blast
  obtain c' where "read_frame E d = Ready (Ok (Some (Error msg), c'))"
    using expects_read [OF assms(1) d(2)] by blast
  with d show ?thesis by (simp add: shape read_response_def)
qed

end

fun value_reply :: "frame \<Rightarrow> bytes option" where
  "value_reply (Simple v) = Some v"
| "value_reply (Bulk v) = Some v"
| "value_reply _ = None"

fun get_reply :: "frame \<Rightarrow> bytes option option" where
  "get_reply Null = Some None"
| "get_reply f = map_option Some (value_reply f)"

fun count_reply :: "frame \<Rightarrow> u64 option" where
  "count_reply (Integer n) = Some n"
| "count_reply _ = None"

fun ok_reply :: "frame \<Rightarrow> unit option" where
  "ok_reply f = (if f = Simple ''OK'' then Some () else None)"

interpretation get_op: client_operation E "client_get E key" "Array (map Bulk [''get'', key])" get_reply
  for E key
proof (unfold_locales, goal_cases)
  case (1 c)
  show ?case unfolding client_get_def get_codec.frame
    by (intro arg_cong2 [of _ _ _ _ await_then] ext) (auto split: frame.splits)
qed

interpretation ping_op: client_operation E "client_ping E msg"
    "Array (map Bulk (''ping'' # (case msg of Some m \<Rightarrow> [m] | None \<Rightarrow> [])))" value_reply for E msg
proof (unfold_locales, goal_cases)
  case (1 c)
  show ?case unfolding client_ping_def ping_codec.frame
    by (intro arg_cong2 [of _ _ _ _ await_then] ext) (auto split: frame.splits)
qed

interpretation publish_op: client_operation E "client_publish E channel message"
    "Array (map Bulk [''publish'', channel, message])" count_reply for E channel message
proof (unfold_locales, goal_cases)
  case (1 c)
  show ?case unfolding client_publish_def publish_codec.frame
    by (intro arg_cong2 [of _ _ _ _ await_then] ext) (auto split: frame.splits)
qed

interpretation set_op: client_operation E "set_cmd E cmd" "Array (map Bulk (''set'' # set_args cmd))"
    ok_reply for E cmd
  by unfold_locales (simp add: set_cmd_def set_into_frame_args if_distrib cong: if_cong)


text \<open>One frame in one packet.\<close>

lemma expects_one:
  assumes "flat f" "line_safe f" "length (encode f) \<le> isize_max"
  shows "expects [f] (new_connection [Recv (encode f)])"
proof -
  have "encode f \<noteq> []" using assms by (intro wire.enc_nonempty) simp
  with assms show ?thesis
    unfolding expects_def
    by (intro conjI exI [of _ "[encode f]"]) (simp_all add: new_connection_def)
qed

section \<open>Unsubscribing\<close>

lemma unsubscribe_confirms_ok:
  assumes "atoi_reads_decimal E"
  shows "list_all2 (\<lambda>f ch. \<exists>n. f = Array [Bulk ''unsubscribe'', Bulk ch, Integer n]) fs chs \<Longrightarrow>
    expects fs c \<Longrightarrow> distinct chs \<Longrightarrow> distinct subscribed \<Longrightarrow> set chs \<subseteq> set subscribed \<Longrightarrow>
    \<exists>c'. unsubscribe_confirms E (length chs) subscribed c =
        Done (Ok (filter (\<lambda>x. x \<notin> set chs) subscribed, c')) \<and> expects [] c' \<and> sent c' = sent c"
proof (induction fs arbitrary: chs subscribed c)
  case Nil
  then show ?case by simp
next
  case (Cons f fs)
  from Cons.prems(1) obtain ch chs' n where chs: "chs = ch # chs'"
    and f: "f = Array [Bulk ''unsubscribe'', Bulk ch, Integer n]" by (cases chs) auto
  obtain d where d: "read_response E c = Done (Ok (f, d))" "expects fs d" "sent d = sent c"
    using expects_response [OF assms Cons.prems(2)] f by blast
  let ?s = "filter (\<lambda>x. x \<noteq> ch) subscribed"
  have mem: "ch \<in> set subscribed" using Cons.prems(5) chs by simp
  have len: "length ?s = length subscribed - 1"
    using length_filter_neq [of ch subscribed] distinct_count_one [OF Cons.prems(4) mem] by simp
  have "unsubscribe_confirms E (length chs) subscribed c = unsubscribe_confirms E (length chs') ?s d"
    using d(1) f len mem by (auto simp: chs Let_def eq_commute [of ch])
  moreover obtain c' where "unsubscribe_confirms E (length chs') ?s d =
      Done (Ok (filter (\<lambda>x. x \<notin> set chs') ?s, c'))" "expects [] c'" "sent c' = sent d"
    using Cons.IH [of chs' d ?s] Cons.prems d(2) chs by auto
  ultimately show ?case using d(3) by (auto simp: chs intro: filter_cong)
qed

section \<open>Properties\<close>

text \<open>
  An error reply of the server surfaces as the error of the operation, with the text the server
  sent, whichever operation was called and whatever packets bring the reply.
\<close>

theorem error_reply_surfaces:
  assumes "atoi_reads_decimal E" "expects (Error msg # fs) c"
    and "length key \<le> isize_max" "length val \<le> isize_max"
  shows "client_get E key c = Done (Err (Text msg)) \<and> client_set E key val c = Done (Err (Text msg)) \<and>
    client_publish E key val c = Done (Err (Text msg)) \<and> client_ping E (Some val) c = Done (Err (Text msg))"
proof -
  have f: "flat (Array (map Bulk [''get'', key]))" "flat (Array (map Bulk [''publish'', key, val]))"
    "flat (Array (map Bulk (''ping'' # (case Some val of Some m \<Rightarrow> [m] | None \<Rightarrow> []))))"
    "flat (Array (map Bulk (''set'' # set_args \<lparr>set_key = key, set_value = val, set_expire = None\<rparr>)))"
    using assms(3,4) by (simp_all add: isize_max_def set_args_def)
  show ?thesis
    using get_op.refused [OF assms(1,2) f(1)] publish_op.refused [OF assms(1,2) f(2)]
      ping_op.refused [OF assms(1,2) f(3)] set_op.refused [OF assms(1,2) f(4)]
    by (simp add: client_set_def)
qed

theorem error_reply_surfaces_witness:
  "client_get (ref_env True) ''k'' (new_connection [Recv (encode (Error ''ERR no''))]) = Done (Err (Text ''ERR no''))"
proof -
  have ok: "flat (Error ''ERR no'') \<and> line_safe (Error ''ERR no'')"
    by (simp add: utf8_def)
  have "expects [Error ''ERR no''] (new_connection [Recv (encode (Error ''ERR no''))])"
    by (rule expects_one) (use ok in \<open>simp_all add: isize_max_def CRLF_def\<close>)
  from error_reply_surfaces [OF ref_env_atoi this, of "''k''" "''v''" True] show ?thesis
    by (simp add: isize_max_def)
qed

text \<open>
  A published message reaches the subscriber's \<open>next_message\<close> with its channel and content when
  they are valid UTF-8; bytes that are not come out as the debug rendering of the payload instead
  of the payload.
\<close>

theorem message_received:
  assumes "atoi_reads_decimal E" "expects (Array [Bulk ''message'', Bulk ch, Bulk m] # fs) c"
  shows "\<exists>c'. next_message E c = Done (Ok (Some
      \<lparr>msg_channel = if utf8 ch then ch else debug_bytes E ch,
       msg_content = if utf8 m then m else debug_bytes E m\<rparr>, c')) \<and> expects fs c'"
proof -
  obtain c' where "read_frame E c = Ready (Ok (Some (Array [Bulk ''message'', Bulk ch, Bulk m]), c'))"
    "expects fs c'" using expects_read [OF assms] by blast
  then show ?thesis by (simp add: next_message_def from_utf8_def)
qed

theorem message_received_witness:
  "\<exists>c'. next_message (ref_env True) (new_connection [Recv (encode (Array [Bulk ''message'', Bulk ''c'', Bulk [CHR 0xFF]]))]) =
     Done (Ok (Some \<lparr>msg_channel = ''c'', msg_content = ''b'' @ [CHR 0x22, CHR 0xFF, CHR 0x22]\<rparr>, c'))"
proof -
  let ?f = "Array [Bulk ''message'', Bulk ''c'', Bulk [CHR 0xFF]]"
  have ok: "flat ?f \<and> line_safe ?f" by (simp add: isize_max_def)
  have "expects [?f] (new_connection [Recv (encode ?f)])"
    by (rule expects_one) (use ok in \<open>simp_all add: isize_max_def CRLF_def dec.simps\<close>)
  moreover have "utf8 ''c''" "\<not> utf8 [CHR 0xFF]" by (simp_all add: utf8_def)
  ultimately show ?thesis
    using message_received [OF ref_env_atoi, of "''c''" "[CHR 0xFF]" "[]" "new_connection [Recv (encode ?f)]" True]
    by (auto simp: ref_env_def)
qed

text \<open>
  Unsubscribing from channels the client holds, none named twice, succeeds on the confirmations
  of the server and leaves exactly the other channels in the client's list.
\<close>

theorem unsubscribe_keeps_rest:
  assumes "atoi_reads_decimal E" "expects fs c" "list_all (\<lambda>ch. length ch \<le> isize_max) chs" "length chs < isize_max"
    and "list_all2 (\<lambda>f ch. \<exists>n. f = Array [Bulk ''unsubscribe'', Bulk ch, Integer n]) fs chs"
    and "chs \<noteq> []" "distinct chs" "distinct subscribed" "set chs \<subseteq> set subscribed"
  shows "\<exists>c'. subscriber_unsubscribe E chs subscribed c =
      Done (Ok (filter (\<lambda>x. x \<notin> set chs) subscribed, c')) \<and> sent c' = sent c @ encode (Array (map Bulk (''unsubscribe'' # chs)))"
proof -
  have "flat (Array (map Bulk (''unsubscribe'' # chs)))"
    using assms(3,4) by (simp add: list_all_iff isize_max_def)
  then obtain d where d: "send_request (unsubscribe_into_frame \<lparr>unsub_channels = chs\<rparr>) c = Done (Ok ((), d))"
    "expects fs d" "sent d = sent c @ encode (Array (map Bulk (''unsubscribe'' # chs)))"
    using send_request_sends [OF assms(2) unsubscribe_codec.frame, of "\<lparr>unsub_channels = chs\<rparr>"] by auto
  from unsubscribe_confirms_ok [OF assms(1,5) d(2) assms(7-9)] d assms(6) show ?thesis
    by (auto simp: subscriber_unsubscribe_def)
qed

theorem unsubscribe_keeps_rest_witness:
  "\<exists>c'. subscriber_unsubscribe (ref_env True) [''b''] [''a'', ''b'']
     (new_connection [Recv (encode (Array [Bulk ''unsubscribe'', Bulk ''b'', Integer 1]))]) = Done (Ok ([''a''], c'))"
proof -
  let ?f = "Array [Bulk ''unsubscribe'', Bulk ''b'', Integer 1]"
  have ok: "flat ?f \<and> line_safe ?f" by (simp add: isize_max_def)
  have "expects [?f] (new_connection [Recv (encode ?f)])"
    by (rule expects_one) (use ok in \<open>simp_all add: isize_max_def CRLF_def dec.simps\<close>)
  from unsubscribe_keeps_rest [OF ref_env_atoi this, of "[''b'']" "[''a'', ''b'']" True] show ?thesis
    by (auto simp: isize_max_def)
qed

text \<open>
  A client that subscribed to the same channel twice cannot leave it: the server's confirmation
  removes both entries from its list, which it takes for a protocol error.
\<close>

theorem duplicate_unsubscribe_fails:
  assumes "atoi_reads_decimal E" "expects (Array [Bulk ''unsubscribe'', Bulk ch, Integer n] # fs) c"
    and "length ch \<le> isize_max" "1 < count_list subscribed ch"
  shows "\<exists>e. subscriber_unsubscribe E [ch] subscribed c = Done (Err e)"
proof -
  let ?f = "Array [Bulk ''unsubscribe'', Bulk ch, Integer n]"
  have "flat (Array (map Bulk (''unsubscribe'' # [ch])))"
    using assms(3) by (simp add: isize_max_def)
  then obtain d where d: "send_request (unsubscribe_into_frame \<lparr>unsub_channels = [ch]\<rparr>) c = Done (Ok ((), d))"
    "expects (?f # fs) d"
    using send_request_sends [OF assms(2) unsubscribe_codec.frame, of "\<lparr>unsub_channels = [ch]\<rparr>"] by auto
  obtain d' where r: "read_response E d = Done (Ok (?f, d'))"
    using expects_response [OF assms(1) d(2)] by blast
  have "length (filter (\<lambda>x. x \<noteq> ch) subscribed) \<noteq> length subscribed - 1"
    using length_filter_neq [of ch subscribed] assms(4) by simp
  with d(1) r show ?thesis by (auto simp: subscriber_unsubscribe_def Let_def eq_commute [of ch])
qed

theorem duplicate_unsubscribe_fails_witness:
  "\<exists>e. subscriber_unsubscribe (ref_env True) [''b''] [''b'', ''b'']
     (new_connection [Recv (encode (Array [Bulk ''unsubscribe'', Bulk ''b'', Integer 0]))]) = Done (Err e)"
proof -
  let ?f = "Array [Bulk ''unsubscribe'', Bulk ''b'', Integer 0]"
  have ok: "flat ?f \<and> line_safe ?f" by (simp add: isize_max_def)
  have "expects [?f] (new_connection [Recv (encode ?f)])"
    by (rule expects_one) (use ok in \<open>simp_all add: isize_max_def CRLF_def dec.simps\<close>)
  from duplicate_unsubscribe_fails [OF ref_env_atoi this, of "[''b'', ''b'']"] show ?thesis
    by (simp add: isize_max_def)
qed

end
