(* ===== verification/Atomic_Server.thy ===== *)
theory Atomic_Server
  imports Server Client
begin

text \<open>
  What the server promises, without packets, buffers, locks, tasks and the index of expirations:
  an atomic key-value server. It has a map from keys to entries and, for every connection, the bytes
  that have arrived and are not yet read and the bytes sent. One of its steps takes one request off
  the front of one connection, performs it on the map and appends the reply. Every step of the
  server (\<open>src/mini-redis/src/server.rs\<close>, with \<open>db.rs\<close>, \<open>connection.rs\<close> and \<open>cmd/*.rs\<close> below it) is such
  a step.
\<close>

declare write_frame.simps [simp del] encode.simps [simp del]

section \<open>The atomic server\<close>

datatype talk = Open | Subscribed | Closed

record peer_view =
  v_in :: bytes
  v_out :: bytes
  v_talk :: talk

text \<open>\<open>a_down\<close>: the mutex of the database is poisoned.\<close>

record atomic =
  a_kv :: "bytes \<rightharpoonup> entry"
  a_now :: instant
  a_down :: bool
  a_conns :: "peer_view list"

fun kv_after :: "instant \<Rightarrow> command \<Rightarrow> (bytes \<rightharpoonup> entry) \<Rightarrow> bytes \<rightharpoonup> entry" where
  "kv_after t (SetCmd c) kv =
     kv(set_key c \<mapsto> \<lparr>data = set_value c, expires_at = map_option (\<lambda>d. t + d) (set_expire c)\<rparr>)"
| "kv_after t _ kv = kv"

text \<open>The number that answers a \<open>PUBLISH\<close> is left open here.\<close>

fun kv_answers :: "(bytes \<rightharpoonup> entry) \<Rightarrow> command \<Rightarrow> frame \<Rightarrow> bool" where
  "kv_answers kv (GetCmd c) f \<longleftrightarrow> f = (case kv (get_key c) of Some e \<Rightarrow> Bulk (data e) | None \<Rightarrow> Null)"
| "kv_answers kv (SetCmd c) f \<longleftrightarrow> f = Simple ''OK''"
| "kv_answers kv (PublishCmd c) f \<longleftrightarrow> (\<exists>n. f = Integer n)"
| "kv_answers kv (PingCmd c) f \<longleftrightarrow> f = (case ping_msg c of None \<Rightarrow> Simple ''PONG'' | Some m \<Rightarrow> Bulk m)"
| "kv_answers kv (UnknownCmd c) f \<longleftrightarrow>
     f = Error (''ERR unknown command '' @ [CHR 0x27] @ command_name c @ [CHR 0x27])"
| "kv_answers kv _ f \<longleftrightarrow> False"

fun uses_db :: "command \<Rightarrow> bool" where
  "uses_db (PingCmd _) = False"
| "uses_db (UnknownCmd _) = False"
| "uses_db _ = True"

text \<open>The bytes start with a frame that denotes the command \<open>c\<close>; \<open>rest\<close> comes after it.\<close>

definition next_request :: "env \<Rightarrow> bytes \<Rightarrow> command \<Rightarrow> bytes \<Rightarrow> bool" where
  "next_request E bs c rest \<longleftrightarrow>
     (\<exists>f t. parse E (cur bs 0) = Ok (f, t) \<and> denotes E f c \<and> rest = drop (position t) bs)"

definition hang_up :: "peer_view \<Rightarrow> peer_view" where
  "hang_up v = v\<lparr>v_in := [], v_talk := Closed\<rparr>"

text \<open>
  What one connection does: a request with its reply, or with the reply lost because the socket fails;
  an expiration beyond the range of the clock; anything that ends the connection; or
  something of a subscriber (theory Pub\_Sub says what), which never touches the map.
\<close>

inductive conn_step ::
    "env \<Rightarrow> instant \<Rightarrow> (bytes \<rightharpoonup> entry) \<times> bool \<Rightarrow> peer_view \<Rightarrow> (bytes \<rightharpoonup> entry) \<times> bool \<Rightarrow> peer_view \<Rightarrow> bool"
  for E now where
  conn_replies: "v_talk v = Open \<Longrightarrow> next_request E (v_in v) c rest \<Longrightarrow> (uses_db c \<Longrightarrow> \<not> down) \<Longrightarrow>
    fits_clock now c \<Longrightarrow> kv_answers kv c f \<Longrightarrow> (flat f \<Longrightarrow> bs = encode f) \<Longrightarrow>
    w = \<lparr>v_in = rest, v_out = v_out v @ bs, v_talk = Open\<rparr> \<Longrightarrow> v' = w \<or> v' = hang_up w \<Longrightarrow>
    conn_step E now (kv, down) v (kv_after now c kv, down) v'"
| conn_reply_lost: "v_talk v = Open \<Longrightarrow> next_request E (v_in v) c rest \<Longrightarrow> \<not> down \<Longrightarrow> fits_clock now c \<Longrightarrow>
    conn_step E now (kv, down) v (kv_after now c kv, down) (hang_up v)"
| conn_overflow: "v_talk v = Open \<Longrightarrow> next_request E (v_in v) (SetCmd c) rest \<Longrightarrow> \<not> fits_clock now (SetCmd c) \<Longrightarrow>
    conn_step E now (kv, False) v (kv, True) (hang_up v)"
| conn_ends: "conn_step E now (kv, down) v (kv, down) (hang_up v)"
| conn_subscriber: "v_talk v = Subscribed \<or> v_talk v = Open \<and> (\<exists>c rest. next_request E (v_in v) (SubscribeCmd c) rest) \<Longrightarrow>
    w = \<lparr>v_in = drop n (v_in v) @ fresh, v_out = v_out v @ bs, v_talk = m\<rparr> \<Longrightarrow> v' = w \<or> v' = hang_up w \<Longrightarrow>
    conn_step E now (kv, down) v (kv, down) v'"

text \<open>All connections, arriving bytes, time, and the sweep that drops what has expired.\<close>

inductive atomic_step :: "env \<Rightarrow> atomic \<Rightarrow> atomic \<Rightarrow> bool" for E where
  a_quiet: "atomic_step E a a"
| a_opens: "atomic_step E a (a\<lparr>a_conns := a_conns a @ [\<lparr>v_in = [], v_out = [], v_talk = Open\<rparr>]\<rparr>)"
| a_receives: "i < length (a_conns a) \<Longrightarrow> v = a_conns a ! i \<Longrightarrow>
    atomic_step E a (a\<lparr>a_conns := (a_conns a)[i := v\<lparr>v_in := v_in v @ bs\<rparr>]\<rparr>)"
| a_ticks: "a_now a \<le> t \<Longrightarrow> atomic_step E a (a\<lparr>a_now := t\<rparr>)"
| a_sweeps: "\<not> a_down a \<Longrightarrow> atomic_step E a (a\<lparr>a_kv := unexpired (a_now a) (a_kv a)\<rparr>)"
| a_connection: "i < length (a_conns a) \<Longrightarrow>
    conn_step E (a_now a) (a_kv a, a_down a) (a_conns a ! i) (kv, down) v \<Longrightarrow>
    atomic_step E a (a\<lparr>a_kv := kv, a_down := down, a_conns := (a_conns a)[i := v]\<rparr>)"

section \<open>The abstraction\<close>

definition view_of :: "'m handler \<Rightarrow> peer_view" where
  "view_of h =
     (case h_mode h of
        Serving \<Rightarrow> \<lparr>v_in = unread (h_conn h), v_out = sent (h_conn h), v_talk = Open\<rparr>
      | InSubscribe m \<Rightarrow> \<lparr>v_in = unread (h_conn h), v_out = sent (h_conn h), v_talk = Subscribed\<rparr>
      | Ended r \<Rightarrow> \<lparr>v_in = [], v_out = sent (h_conn h), v_talk = Closed\<rparr>)"

definition atomic_of :: "('tx, 'w, 'n, 'm) server \<Rightarrow> atomic" where
  "atomic_of s =
     \<lparr>a_kv = entries (state (shared (sys s))), a_now = clock (sys s), a_down = poisoned (shared (sys s)),
      a_conns = map view_of (handlers s)\<rparr>"

section \<open>Reading and writing\<close>

lemma unread_read:
  assumes "read_frame E c = Ready (Ok (Some f, c'))"
  shows "\<exists>t. parse E (cur (unread c) 0) = Ok (f, t) \<and> unread c' = drop (position t) (unread c) \<and>
    sent c' = sent c \<and> pending_out c' = pending_out c \<and> write_fault c' = write_fault c"
  using assms
proof (induction E c rule: read_frame.induct)
  case (1 E c)
  show ?case
  proof (cases "parse_frame E c")
    case (Ok p)
    obtain o' d where p: "p = (o', d)" by (cases p)
    show ?thesis
    proof (cases o')
      case None
      with Ok p have d: "d = c" by (simp add: parse_frame_None)
      with "1.prems" Ok p None obtain bs evs where i: "inbound d = Recv bs # evs" "bs \<noteq> []"
        and r: "read_frame E (d\<lparr>buffer := buffer d @ bs, inbound := evs\<rparr>) = Ready (Ok (Some f, c'))"
        by (auto simp: read_frame.simps [of E c] split: list.splits read_event.splits if_splits)
      have "unread (d\<lparr>buffer := buffer d @ bs, inbound := evs\<rparr>) = unread c" using i d by (simp add: unread_def)
      with "1.IH" [OF Ok p [symmetric] None i(1) refl i(2) r] d show ?thesis by simp
    next
      case (Some g)
      with "1.prems" Ok p have g: "g = f" "d = c'" by (simp_all add: read_frame.simps [of E c])
      with Ok p Some obtain t u where t: "check E (cur (buffer c) 0) = Ok t" "parse E (t\<lparr>position := 0\<rparr>) = Ok (f, u)"
        "c' = c\<lparr>buffer := drop (position t) (buffer c)\<rparr>"
        by (auto simp: parse_frame_def Let_def res_conv split: res.splits frame_error.splits)
      have b: "get_ref t = buffer c" "position t \<le> length (buffer c)" using check_bounds(1) [OF t(1)] by simp_all
      then have z: "t\<lparr>position := 0\<rparr> = cur (buffer c) 0" by (cases t) simp
      with t parse_check(1) [of E "cur (buffer c) 0" f u] have "u = t" by simp
      with parse_feed(1) [of E "cur (buffer c) 0" f t "arriving (inbound c)"] t z
      have "parse E (cur (unread c) 0) = Ok (f, feed (arriving (inbound c)) t)" by (simp add: unread_def)
      with t(3) b show ?thesis by (intro exI [of _ "feed (arriving (inbound c)) t"]) (simp add: unread_def)
    qed
  qed (use "1.prems" in \<open>simp_all add: read_frame.simps [of E c]\<close>)
qed

lemma unread_waits:
  "read_frame E c = Pending c' \<Longrightarrow>
     unread c' = unread c \<and> sent c' = sent c \<and> pending_out c' = pending_out c \<and> write_fault c' = write_fault c"
proof (induction E c rule: read_frame.induct)
  case (1 E c)
  show ?case
  proof (cases "parse_frame E c")
    case (Ok p)
    obtain o' d where p: "p = (o', d)" by (cases p)
    with Ok "1.prems" have o: "o' = None" by (cases o') (simp_all add: read_frame.simps [of E c])
    with Ok p have d: "d = c" by (simp add: parse_frame_None)
    show ?thesis
    proof (cases "inbound d")
      case (Cons ev evs)
      with "1.prems" Ok p o d obtain bs where i: "inbound d = Recv bs # evs" "bs \<noteq> []"
        and r: "read_frame E (d\<lparr>buffer := buffer d @ bs, inbound := evs\<rparr>) = Pending c'"
        by (auto simp: read_frame.simps [of E c] split: read_event.splits if_splits)
      have "unread (d\<lparr>buffer := buffer d @ bs, inbound := evs\<rparr>) = unread c" using i d by (simp add: unread_def)
      with "1.IH" [OF Ok p [symmetric] o i(1) refl i(2) r] d show ?thesis by simp
    qed (use "1.prems" Ok p o d in \<open>simp add: read_frame.simps [of E c]\<close>)
  qed (use "1.prems" in \<open>simp_all add: read_frame.simps [of E c]\<close>)
qed

lemma write_frame_appends:
  assumes "write_frame c f = Ok c'"
  obtains bs where "c' = c\<lparr>sent := sent c @ pending_out c @ bs, pending_out := []\<rparr>" "flat f \<Longrightarrow> bs = encode f"
proof (cases "flat f")
  case True
  have "\<not> write_fault c" using assms by (cases f) (auto simp: write_frame.simps write_all_def flush_def res_conv)
  with assms True write_frame_encode [of c f] that show thesis by simp
next
  case False
  have nf: "\<not> write_fault c" using assms by (cases f) (auto simp: write_frame.simps write_all_def flush_def res_conv)
  have "\<exists>bs. c' = c\<lparr>sent := sent c @ pending_out c @ bs, pending_out := []\<rparr>"
  proof (cases "is_array f")
    case True
    then obtain fs where f: "f = Array fs" by (cases f) simp_all
    let ?d = "put (dec (unat (of_nat (length fs) :: u64)) @ CRLF) (put ''*'' c)"
    have "\<not> write_fault ?d" using nf by simp
    from write_entries_outcome [OF this, of fs] assms f nf obtain bs where "write_entries ?d fs = Ok (put bs ?d)"
      by (auto simp: write_frame.simps write_all_put write_decimal_put split: if_splits)
    with assms f nf show ?thesis
      by (auto simp: write_frame.simps write_all_put write_decimal_put flush_def put_def)
  next
    case na: False
    from write_value_outcome [OF nf na] obtain bs where "write_value c f = Ok (put bs c)" by blast
    with assms na nf show ?thesis by (cases f) (auto simp: write_frame.simps flush_def put_def)
  qed
  with False that show thesis by blast
qed

section \<open>Requests\<close>

abbreviation kv_of :: "('tx, 'w, 'n) system \<Rightarrow> (bytes \<rightharpoonup> entry) \<times> bool" where
  "kv_of s \<equiv> (entries (state (shared s)), poisoned (shared s))"

definition settled :: "'m handler \<Rightarrow> bool" where
  "settled h \<longleftrightarrow> live h \<longrightarrow> pending_out (h_conn h) = []"

lemma view_ended: "view_of (h\<lparr>h_mode := Ended r\<rparr>) = hang_up (view_of h)" "settled (h\<lparr>h_mode := Ended r\<rparr>)"
  by (auto simp: view_of_def hang_up_def settled_def split: mode.splits)

lemma after_apply_view:
  "view_of (fst (after_apply h (Ok c, s))) = \<lparr>v_in = unread c, v_out = sent c, v_talk = Open\<rparr> \<or>
     view_of (fst (after_apply h (Ok c, s))) = hang_up \<lparr>v_in = unread c, v_out = sent c, v_talk = Open\<rparr>"
  "view_of (fst (after_apply h (Err e, s))) = hang_up (view_of h)"
  "view_of (fst (after_apply h (Panic p, s))) = hang_up (view_of h)"
  "settled (fst (after_apply h (Err e, s)))" "settled (fst (after_apply h (Panic p, s)))"
  "pending_out c = [] \<Longrightarrow> settled (fst (after_apply h (Ok c, s)))"
  by (auto simp: view_of_def hang_up_def loop_top_def settled_def split: mode.splits)

text \<open>A reply is written, or the socket fails.\<close>

lemma reply_step:
  assumes v: "view_of h = \<lparr>v_in = bs, v_out = sent conn, v_talk = Open\<rparr>" "next_request E bs c (unread conn)"
    and down: "uses_db c \<Longrightarrow> \<not> down" and c: "fits_clock t c" "kv_answers kv c f" and p: "pending_out conn = []"
    and u: "kv' = kv_after t c kv"
  shows "conn_step E t (kv, down) (view_of h) (kv', down) (view_of (fst (after_apply h (write_frame conn f, s)))) \<and>
    settled (fst (after_apply h (write_frame conn f, s)))"
proof (cases "write_frame conn f")
  case (Ok d)
  then obtain out where d: "d = conn\<lparr>sent := sent conn @ pending_out conn @ out, pending_out := []\<rparr>"
    and out: "flat f \<Longrightarrow> out = encode f" by (rule write_frame_appends) blast
  let ?w = "\<lparr>v_in = unread d, v_out = sent d, v_talk = Open\<rparr>"
  have w: "?w = \<lparr>v_in = unread conn, v_out = v_out (view_of h) @ out, v_talk = Open\<rparr>"
    unfolding d using p v(1) by (simp add: unread_def)
  have "conn_step E t (kv, down) (view_of h) (kv_after t c kv, down) (view_of (fst (after_apply h (Ok d, s))))"
    by (rule conn_step.conn_replies [OF _ _ down c out w after_apply_view(1)]) (simp_all add: v)
  with Ok u after_apply_view(6) [of d h s] d show ?thesis by simp
next
  case (Err e)
  show ?thesis
  proof (cases "\<not> down \<or> kv' = kv")
    case True
    have "conn_step E t (kv, down) (view_of h) (kv', down) (hang_up (view_of h))"
    proof (cases "\<not> down")
      case True
      with conn_step.conn_reply_lost [of "view_of h" E c "unread conn" down t kv] v c(1) u show ?thesis by simp
    next
      case False
      with \<open>\<not> down \<or> kv' = kv\<close> conn_step.conn_ends [of E t kv down "view_of h"] show ?thesis by simp
    qed
    with Err after_apply_view(2,4) [of h e s] show ?thesis by simp
  next
    case False
    with down u have "kv' = kv" by (cases c) auto
    with False show ?thesis by simp
  qed
next
  case (Panic q)
  have nf: "\<not> is_array f" using c(2) by (cases c) (auto split: option.splits)
  have "write_frame conn f \<noteq> Panic q"
  proof (cases "write_fault conn")
    case True
    with nf show ?thesis by (cases f) (auto simp: write_frame.simps write_all_def)
  next
    case False
    with write_value_outcome [OF False nf] nf show ?thesis by (cases f) (auto simp: write_frame.simps flush_def)
  qed
  with Panic show ?thesis by simp
qed

section \<open>Subscribers\<close>

definition extends :: "connection \<Rightarrow> connection \<Rightarrow> bool" where
  "extends c d \<longleftrightarrow> unread d = unread c \<and> pending_out d = [] \<and> (\<exists>bs. sent d = sent c @ bs)"

lemma extends_refl: "pending_out c = [] \<Longrightarrow> extends c c"
  by (simp add: extends_def)

lemma extends_trans: "extends c d \<Longrightarrow> extends d e \<Longrightarrow> extends c e"
  by (auto simp: extends_def)

lemma write_frame_extends: "write_frame c f = Ok d \<Longrightarrow> extends c d"
  by (erule write_frame_appends) (simp add: extends_def unread_def)

lemma subscribe_channels_extends:
  "pending_out dst = [] \<Longrightarrow> subscribe_channels B M chs m dst s = (r, s') \<Longrightarrow>
     kv_of s' = kv_of s \<and> clock s' = clock s \<and> (\<forall>m' d. r = Ok (m', d) \<longrightarrow> extends dst d)"
proof (induction chs arbitrary: m dst s)
  case (Cons ch chs)
  obtain r1 t where r1: "run_pub_sub (db_subscribe B ch) s = (r1, t)" by (metis surj_pair)
  then have t: "kv_of t = kv_of s" "clock t = clock s"
    by (auto simp: run_pub_sub_def db_subscribe_def split: if_splits option.splits prod.splits)
  show ?case
  proof (cases r1)
    case (Ok rx)
    let ?m = "sm_insert M ch rx m"
    obtain f where f: "make_subscribe_frame ch (sm_len M ?m) = Ok f" by (simp add: make_subscribe_frame_def array_def)
    show ?thesis
    proof (cases "write_frame dst f")
      case w: (Ok d)
      note ext = write_frame_extends [OF w]
      then have "pending_out d = []" by (simp add: extends_def)
      moreover have "subscribe_channels B M chs ?m d t = (r, s')"
        using Cons.prems(2) r1 Ok f w by (simp add: subscribe_to_channel_def)
      ultimately have "kv_of s' = kv_of t \<and> clock s' = clock t \<and> (\<forall>m' e. r = Ok (m', e) \<longrightarrow> extends d e)"
        by (rule Cons.IH)
      with t extends_trans [OF ext] show ?thesis by simp
    qed (use Cons.prems(2) r1 Ok f t in \<open>auto simp: subscribe_to_channel_def\<close>)
  qed (use Cons.prems(2) r1 t in \<open>auto simp: subscribe_to_channel_def\<close>)
qed (auto simp: extends_refl)

lemma unsubscribe_loop_extends:
  "pending_out dst = [] \<Longrightarrow> unsubscribe_loop M chs m dst = Ok (m', d) \<Longrightarrow> extends dst d"
proof (induction chs arbitrary: m dst)
  case (Cons ch chs)
  then obtain e f where w: "write_frame dst f = Ok e" "unsubscribe_loop M chs (sm_remove M ch m) e = Ok (m', d)"
    by (auto simp: Let_def res_conv)
  note ext = write_frame_extends [OF w(1)]
  then have "pending_out e = []" by (simp add: extends_def)
  from extends_trans [OF ext Cons.IH [OF this w(2)]] show ?case .
qed (simp add: extends_refl)

lemma handle_command_extends:
  assumes "pending_out dst = []" "handle_command E M f chs m dst = Ok (chs', m', d)"
  shows "extends dst d"
proof -
  from assms(2) obtain c where c: "from_frame E f = Ok c" by (auto simp: handle_command_def res_conv)
  with assms show ?thesis
    by (cases c)
      (auto simp: handle_command_def Let_def res_conv unknown_apply_def extends_refl
        intro: unsubscribe_loop_extends write_frame_extends)
qed

text \<open>A connection that enters the loop of \<open>Subscribe::apply\<close>, and one in it.\<close>

lemma subscriber_view:
  assumes "v_talk (view_of h) = Subscribed \<or> v_talk (view_of h) = Open \<and> (\<exists>c rest. next_request E (v_in (view_of h)) (SubscribeCmd c) rest)"
    and "case l of SubWaiting m d \<Rightarrow> extends conn d | SubReturned (Ok d) \<Rightarrow> extends conn d | _ \<Rightarrow> True"
    and "v_out (view_of h) = sent conn" "unread conn = drop n (v_in (view_of h)) @ fresh"
  shows "conn_step E t (kv, down) (view_of h) (kv, down) (view_of (fst (in_subscribe h (l, s)))) \<and>
    settled (fst (in_subscribe h (l, s)))"
proof -
  have step: "conn_step E t (kv, down) (view_of h) (kv, down) v'"
    if e: "extends conn d" and v: "v' = \<lparr>v_in = unread d, v_out = sent d, v_talk = m\<rparr> \<or>
      v' = hang_up \<lparr>v_in = unread d, v_out = sent d, v_talk = m\<rparr>" for d m v'
  proof -
    from e obtain bs where "sent d = sent conn @ bs" "unread d = unread conn" by (auto simp: extends_def)
    with assms(3,4) have "\<lparr>v_in = unread d, v_out = sent d, v_talk = m\<rparr> =
        \<lparr>v_in = drop n (v_in (view_of h)) @ fresh, v_out = v_out (view_of h) @ bs, v_talk = m\<rparr>" by simp
    from conn_step.conn_subscriber [OF assms(1) this v] show ?thesis .
  qed
  show ?thesis
  proof (cases l)
    case (SubWaiting m d)
    with assms(2) have e: "extends conn d" by simp
    with step [OF e, of "view_of (fst (in_subscribe h (l, s)))" Subscribed] SubWaiting show ?thesis
      by (simp add: view_of_def settled_def extends_def)
  next
    case (SubReturned r)
    show ?thesis
    proof (cases r)
      case (Ok d)
      with assms(2) SubReturned have e: "extends conn d" by simp
      with step [OF e after_apply_view(1)] SubReturned Ok after_apply_view(6) [of d h s] show ?thesis
        by (simp add: extends_def)
    qed (use SubReturned in \<open>simp_all add: view_ended conn_step.conn_ends\<close>)
  qed
qed

section \<open>The handler\<close>

text \<open>A command in the main loop of a handler.\<close>

lemma command_step:
  assumes v: "view_of h = \<lparr>v_in = bs, v_out = sent conn, v_talk = Open\<rparr>" "next_request E bs c (unread conn)"
    and p: "pending_out conn = []"
    and r: "command_apply B N (\<lambda>cmd dst s. in_subscribe h (subscribe_enter B M cmd dst s)) (after_apply h) c conn s = (h', s')"
  shows "conn_step E (clock s) (kv_of s) (view_of h) (kv_of s') (view_of h') \<and> clock s' = clock s \<and> settled h'"
proof (cases c)
  case (SubscribeCmd x)
  obtain y t where y: "subscribe_channels B M (sub_channels x) (sm_new M) conn s = (y, t)" by (metis surj_pair)
  note ext = subscribe_channels_extends [OF p y]
  obtain l where l: "iterate (y, t) = (l, t)" "case l of SubWaiting m d \<Rightarrow> extends conn d | SubReturned (Ok d) \<Rightarrow> extends conn d | _ \<Rightarrow> True"
    using ext by (cases y) auto
  with r SubscribeCmd y have h: "h' = fst (in_subscribe h (l, t))" "s' = t"
    by (auto simp: command_apply_def subscribe_enter_def dest: arg_cong [of _ _ fst] arg_cong [of _ _ snd])
  obtain n where n: "unread conn = drop n (v_in (view_of h)) @ []"
    using v by (auto simp: next_request_def)
  have "v_talk (view_of h) = Subscribed \<or> v_talk (view_of h) = Open \<and> (\<exists>c rest. next_request E (v_in (view_of h)) (SubscribeCmd c) rest)"
    using v SubscribeCmd by auto
  from subscriber_view [OF this l(2) _ n, of "clock s" "entries (state (shared s))" "poisoned (shared s)" t] v(1) h ext
  show ?thesis by simp
next
  case (UnsubscribeCmd x)
  with r conn_step.conn_ends show ?thesis by (auto simp: command_apply_def view_ended)
next
  case (PingCmd x)
  then have "h' = fst (after_apply h (write_frame conn (case ping_msg x of None \<Rightarrow> Simple ''PONG'' | Some m \<Rightarrow> Bulk m), s))" "s' = s"
    using r by (auto simp: command_apply_def ping_apply_def dest: arg_cong [of _ _ fst] arg_cong [of _ _ snd] split: option.splits)
  with reply_step [OF v, of "poisoned (shared s)" "clock s" "entries (state (shared s))" _ "entries (state (shared s))" s] p PingCmd
  show ?thesis by simp
next
  case (UnknownCmd x)
  then have "h' = fst (after_apply h (write_frame conn (Error (''ERR unknown command '' @ [CHR 0x27] @ command_name x @ [CHR 0x27])), s))" "s' = s"
    using r by (auto simp: command_apply_def unknown_apply_def dest: arg_cong [of _ _ fst] arg_cong [of _ _ snd])
  with reply_step [OF v, of "poisoned (shared s)" "clock s" "entries (state (shared s))" _ "entries (state (shared s))" s] p UnknownCmd
  show ?thesis by simp
next
  case (GetCmd x)
  show ?thesis
  proof (cases "poisoned (shared s)")
    case True
    with r GetCmd conn_step.conn_ends show ?thesis
      by (auto simp: command_apply_def get_apply_def run_db_def poisoned_operations view_ended)
  next
    case False
    let ?f = "case entries (state (shared s)) (get_key x) of Some e \<Rightarrow> Bulk (data e) | None \<Rightarrow> Null"
    have "get_apply x conn s = (write_frame conn ?f, s)"
      using False by (auto simp: get_apply_def run_db_def db_get_Ok split: option.splits)
    with r GetCmd have "h' = fst (after_apply h (write_frame conn ?f, s))" "s' = s"
      by (auto simp: command_apply_def dest: arg_cong [of _ _ fst] arg_cong [of _ _ snd])
    with reply_step [OF v, of "poisoned (shared s)" "clock s" "entries (state (shared s))" ?f "entries (state (shared s))" s] p GetCmd False
    show ?thesis by simp
  qed
next
  case (PublishCmd x)
  obtain y t where y: "run_pub_sub (db_publish B (pub_channel x) (pub_message x)) s = (y, t)" by (metis surj_pair)
  then have t: "kv_of t = kv_of s" "clock t = clock s" "(\<exists>n. y = Ok n \<and> \<not> poisoned (shared s)) \<or> (\<exists>q. y = Panic q)"
    by (auto simp: run_pub_sub_def db_publish_def split: if_splits option.splits prod.splits)
  show ?thesis
  proof (cases "\<exists>n. y = Ok n \<and> \<not> poisoned (shared s)")
    case True
    then obtain n where n: "y = Ok n" "\<not> poisoned (shared s)" by blast
    then have "publish_apply B x conn s = (write_frame conn (Integer n), t)" using y by (simp add: publish_apply_def)
    with r PublishCmd have "h' = fst (after_apply h (write_frame conn (Integer n), t))" "s' = t"
      by (auto simp: command_apply_def dest: arg_cong [of _ _ fst] arg_cong [of _ _ snd])
    with reply_step [OF v, of "poisoned (shared s)" "clock s" "entries (state (shared s))" "Integer n" "entries (state (shared s))" t] p PublishCmd t n
    show ?thesis by simp
  next
    case False
    with t(3) obtain q where "y = Panic q" by blast
    with r PublishCmd y t conn_step.conn_ends show ?thesis
      by (auto simp: command_apply_def publish_apply_def view_ended)
  qed
next
  case (SetCmd x)
  obtain y sh where y: "db_set (clock s) (set_key x) (set_value x) (set_expire x) (shared s) = (y, sh)" by (metis surj_pair)
  have fit: "(\<exists>q. y = Panic q) \<longleftrightarrow> poisoned (shared s) \<or> \<not> fits_clock (clock s) (SetCmd x)"
  proof (cases "poisoned (shared s)")
    case False
    with y show ?thesis
      by (cases "set_expire x"; cases "fits_clock (clock s) (SetCmd x)")
        (auto simp: db_set_plain db_set_timed db_set_overflow not_less)
  qed (use y in \<open>auto simp: poisoned_operations\<close>)
  from y show ?thesis
  proof (cases rule: db_set_cases)
    case (stored ea n)
    have fits: "fits_clock (clock s) c"
      using fit stored(2) SetCmd by simp
    obtain t where t: "db_set_notify N (set_key x) (set_value x) (set_expire x) s = (Ok (), t)"
      "kv_of t = (kv_after (clock s) c (entries (state (shared s))), poisoned (shared s))" "clock t = clock s"
      using y stored SetCmd by (simp add: db_set_notify_def run_db_def)
    from t(1) have "set_apply N x conn s = (write_frame conn (Simple ''OK''), t)" by (simp add: set_apply_def)
    with r SetCmd have "h' = fst (after_apply h (write_frame conn (Simple ''OK''), t))" "s' = t"
      by (auto simp: command_apply_def dest: arg_cong [of _ _ fst] arg_cong [of _ _ snd])
    with reply_step [OF v _ fits, of "poisoned (shared s)" "entries (state (shared s))" "Simple ''OK''"
        "kv_after (clock s) c (entries (state (shared s)))" t] p SetCmd t stored(1)
    show ?thesis by simp
  next
    case overflow
    then have "h' = h\<lparr>h_mode := Ended (Panic InstantOverflow)\<rparr>" "kv_of s' = (entries (state (shared s)), True)" "clock s' = clock s"
      using r SetCmd y by (auto simp: command_apply_def set_apply_def db_set_notify_def run_db_def)
    moreover have "\<not> fits_clock (clock s) (SetCmd x)" using overflow fit by simp
    ultimately show ?thesis
      using conn_step.conn_overflow [of "view_of h" E x "unread conn" "clock s"] v SetCmd overflow by (simp add: view_ended)
  next
    case poisoned
    with r SetCmd y conn_step.conn_ends show ?thesis
      by (auto simp: command_apply_def set_apply_def db_set_notify_def run_db_def view_ended)
  qed
qed

lemma read_keeps_output:
  "read_frame E c = Ready (Ok (x, c')) \<Longrightarrow> sent c' = sent c \<and> pending_out c' = pending_out c"
proof (cases x)
  case (Some f)
  then show "read_frame E c = Ready (Ok (x, c')) \<Longrightarrow> ?thesis" using unread_read [of E c f c'] by auto
next
  case None
  assume "read_frame E c = Ready (Ok (x, c'))"
  with None show ?thesis
  proof (induction E c rule: read_frame.induct)
    case (1 E c)
    show ?case
    proof (cases "parse_frame E c")
      case (Ok p)
      obtain o' d where p: "p = (o', d)" by (cases p)
      with Ok "1.prems" have o: "o' = None" by (cases o') (simp_all add: read_frame.simps [of E c])
      with Ok p have d: "d = c" by (simp add: parse_frame_None)
      show ?thesis
      proof (cases "inbound d")
        case (Cons ev evs)
        show ?thesis
        proof (cases "\<exists>bs. ev = Recv bs \<and> bs \<noteq> []")
          case True
          then obtain bs where i: "inbound d = Recv bs # evs" "bs \<noteq> []" using Cons by auto
          with "1.prems" Ok p o d have "read_frame E (d\<lparr>buffer := buffer d @ bs, inbound := evs\<rparr>) = Ready (Ok (x, c'))"
            by (auto simp: read_frame.simps [of E c])
          with "1.IH" [OF Ok p [symmetric] o i(1) refl i(2) "1.prems"(1)] d show ?thesis by simp
        next
          case False
          with "1.prems" Ok p o d Cons show ?thesis
            by (auto simp: read_frame.simps [of E c] split: read_event.splits if_splits)
        qed
      qed (use "1.prems" Ok p o d in \<open>simp add: read_frame.simps [of E c]\<close>)
    qed (use "1.prems" in \<open>simp_all add: read_frame.simps [of E c]\<close>)
  qed
qed

lemma serving_step:
  assumes m: "h_mode h = Serving" and p: "pending_out (h_conn h) = []"
    and r: "handler_select E B N M closed ev h s = (h', s')"
  shows "(conn_step E (clock s) (kv_of s) (view_of h) (kv_of s') (view_of h') \<or>
      kv_of s' = kv_of s \<and> view_of h' = view_of h) \<and> clock s' = clock s \<and> settled h'"
proof (cases ev)
  case (SelMessage ch msg)
  with m p r show ?thesis by (simp add: handler_select_def settled_def)
next
  case SelShutdown
  have "view_of (h\<lparr>h_shutdown := sd, h_mode := Ended (Ok ())\<rparr>) = hang_up (view_of h)" for sd
    using m by (simp add: view_of_def hang_up_def)
  with SelShutdown m p r conn_step.conn_ends show ?thesis
    by (auto simp: handler_select_def settled_def split: option.splits)
next
  case SelFrame
  show ?thesis
  proof (cases "read_frame E (h_conn h)")
    case (Pending c)
    with unread_waits [OF Pending] SelFrame m p r show ?thesis
      by (auto simp: handler_select_def view_of_def settled_def)
  next
    case (Ready x)
    show ?thesis
    proof (cases x)
      case (Ok q)
      obtain g c where q: "q = (g, c)" by (cases q)
      note out = read_keeps_output [OF Ready [unfolded Ok q]]
      show ?thesis
      proof (cases g)
        case None
        have "view_of (h\<lparr>h_conn := c, h_mode := Ended (Ok ())\<rparr>) = hang_up (view_of h)"
          using m out by (simp add: view_of_def hang_up_def)
        with None Ready Ok q SelFrame m r conn_step.conn_ends show ?thesis
          by (auto simp: handler_select_def settled_def)
      next
        case (Some f)
        with Ready Ok q SelFrame m r have h: "handle_frame E B N M f c h s = (h', s')"
          by (simp add: handler_select_def)
        show ?thesis
        proof (cases "from_frame E f")
          case cmd: (Ok cmd)
          from unread_read [of E "h_conn h" f c] Ready Ok q Some from_frame_sound [OF cmd]
          have "next_request E (unread (h_conn h)) cmd (unread c)" by (auto simp: next_request_def)
          moreover have "view_of h = \<lparr>v_in = unread (h_conn h), v_out = sent c, v_talk = Open\<rparr>"
            using m out by (simp add: view_of_def)
          moreover have "command_apply B N (\<lambda>cmd dst s. in_subscribe h (subscribe_enter B M cmd dst s)) (after_apply h) cmd c s = (h', s')"
            using h cmd by (simp add: handle_frame_def)
          ultimately show ?thesis using command_step [of h "unread (h_conn h)" c E cmd B N M s h' s'] out p by simp
        qed (use h conn_step.conn_ends in \<open>auto simp: handle_frame_def view_ended\<close>)
      qed
    qed (use Ready SelFrame m r conn_step.conn_ends in \<open>auto simp: handler_select_def view_ended\<close>)
  qed
qed

lemma select_step:
  assumes m: "h_mode h = InSubscribe m" and p: "pending_out (h_conn h) = []"
    and r: "subscribe_select E B M ev m (h_conn h) s = (l, s')"
  shows "conn_step E (clock s) (kv_of s) (view_of h) (kv_of s') (view_of (fst (in_subscribe h (l, s')))) \<and>
    clock s' = clock s \<and> settled (fst (in_subscribe h (l, s')))"
proof -
  let ?ok = "\<lambda>c. case l of SubWaiting m d \<Rightarrow> extends c d | SubReturned (Ok d) \<Rightarrow> extends c d | _ \<Rightarrow> True"
  have v: "view_of h = \<lparr>v_in = unread (h_conn h), v_out = sent (h_conn h), v_talk = Subscribed\<rparr>"
    using m by (simp add: view_of_def)
  have step: ?thesis if "?ok c" "sent c = sent (h_conn h)" "unread c = drop n (unread (h_conn h)) @ fresh"
    "kv_of s' = kv_of s" "clock s' = clock s" for c n fresh
    using subscriber_view [of h E c l n fresh "clock s" "entries (state (shared s))" "poisoned (shared s)" s'] that v by simp
  have here: "unread (h_conn h) = drop 0 (unread (h_conn h)) @ []" by simp
  show ?thesis
  proof (cases ev)
    case (SelMessage ch msg)
    obtain f where f: "make_message_frame ch msg = Ok f" by (simp add: make_message_frame_def array_def)
    with SelMessage r have "?ok (h_conn h)" "s' = s"
      by (cases "write_frame (h_conn h) f"; auto simp: subscribe_select_def intro: write_frame_extends)+
    then show ?thesis by (intro step [OF _ _ here]) simp_all
  next
    case SelShutdown
    with r have "?ok (h_conn h)" "s' = s" by (auto simp: subscribe_select_def extends_refl p)
    then show ?thesis by (intro step [OF _ _ here]) simp_all
  next
    case SelFrame
    show ?thesis
    proof (cases "read_frame E (h_conn h)")
      case (Pending c)
      note w = unread_waits [OF Pending]
      with SelFrame r Pending have "?ok c" "s' = s" by (auto simp: subscribe_select_def extends_refl p)
      with w here show ?thesis by (intro step [of c 0 "[]"]) simp_all
    next
      case (Ready x)
      show ?thesis
      proof (cases x)
        case (Ok q)
        obtain g c where q: "q = (g, c)" by (cases q)
        note out = read_keeps_output [OF Ready [unfolded Ok q]]
        show ?thesis
        proof (cases g)
          case None
          with SelFrame r Ready Ok q have "?ok c" "s' = s" using out by (auto simp: subscribe_select_def extends_refl p)
          with out show ?thesis by (intro step [of c "length (unread (h_conn h))" "unread c"]) simp_all
        next
          case (Some f)
          from unread_read [of E "h_conn h" f c] Ready Ok q Some
          obtain n where n: "unread c = drop n (unread (h_conn h)) @ []" by auto
          obtain a t where a: "st_then (handle_command E M f [] m c, s)
              (\<lambda>(channels, subscriptions, dst) s. subscribe_channels B M channels subscriptions dst s) = (a, t)" by (metis surj_pair)
          have ext: "kv_of t = kv_of s" "clock t = clock s" "\<forall>m' d. a = Ok (m', d) \<longrightarrow> extends c d"
          proof -
            have "kv_of t = kv_of s \<and> clock t = clock s \<and> (\<forall>m' d. a = Ok (m', d) \<longrightarrow> extends c d)"
            proof (cases "handle_command E M f [] m c")
              case hc: (Ok y)
              obtain chs m1 d1 where y: "y = (chs, m1, d1)" by (cases y)
              with handle_command_extends [of c E M f "[]" m chs m1 d1] hc out p have e: "extends c d1" by simp
              then have "pending_out d1 = []" by (simp add: extends_def)
              from subscribe_channels_extends [OF this, of B M chs m1 s a t] a hc y extends_trans [OF e] show ?thesis by simp
            qed (use a in auto)
            then show "kv_of t = kv_of s" "clock t = clock s" "\<forall>m' d. a = Ok (m', d) \<longrightarrow> extends c d" by simp_all
          qed
          from SelFrame r Ready Ok q Some a have "iterate (a, t) = (l, s')" by (simp add: subscribe_select_def)
          with ext(3) have "?ok c" "s' = t" by (cases a; auto)+
          with n ext out show ?thesis by (intro step [of c n "[]"]) simp_all
        qed
      next
        case (Err e)
        with SelFrame r Ready have "l = SubReturned (Err e)" "s' = s" by (auto simp: subscribe_select_def)
        with here show ?thesis by (intro step [of "h_conn h" 0 "[]"]) simp_all
      next
        case (Panic e)
        with SelFrame r Ready have "l = SubReturned (Panic e)" "s' = s" by (auto simp: subscribe_select_def)
        with here show ?thesis by (intro step [of "h_conn h" 0 "[]"]) simp_all
      qed
    qed
  qed
qed

lemma handler_step:
  assumes "live h" "settled h" and r: "handler_select E B N M closed ev h s = (h', s')"
  shows "(conn_step E (clock s) (kv_of s) (view_of h) (kv_of s') (view_of h') \<or>
      kv_of s' = kv_of s \<and> view_of h' = view_of h) \<and> clock s' = clock s \<and> settled h'"
proof (cases "h_mode h")
  case Serving
  with assms show ?thesis by (intro serving_step) (simp_all add: settled_def)
next
  case (InSubscribe m)
  have p: "pending_out (h_conn h) = []" using assms(1,2) by (simp add: settled_def)
  show ?thesis
  proof (cases "ev = SelShutdown")
    case True
    show ?thesis
    proof (cases "shutdown_recv closed (h_shutdown h)")
      case None
      with True InSubscribe r p show ?thesis by (simp add: handler_select_def settled_def)
    next
      case (Some sd)
      let ?h = "h\<lparr>h_shutdown := sd\<rparr>"
      obtain l t where l: "subscribe_select E B M ev m (h_conn ?h) s = (l, t)" by (metis surj_pair)
      have "view_of ?h = view_of h" by (simp add: view_of_def split: mode.splits)
      moreover have "h' = fst (in_subscribe ?h (l, t))" "s' = t"
        using True Some InSubscribe r l by (auto simp: handler_select_def dest: arg_cong [of _ _ fst] arg_cong [of _ _ snd])
      ultimately show ?thesis using select_step [OF _ _ l] InSubscribe p by simp
    qed
  next
    case False
    obtain l t where l: "subscribe_select E B M ev m (h_conn h) s = (l, t)" by (metis surj_pair)
    with False InSubscribe r have "h' = fst (in_subscribe h (l, t))" "s' = t"
      by (cases ev; auto simp: handler_select_def dest: arg_cong [of _ _ fst] arg_cong [of _ _ snd])+
    with select_step [OF InSubscribe p l] show ?thesis by simp
  qed
qed (use assms(1) in simp)

section \<open>The server\<close>

lemma server_settled:
  "server_reachable E B N M s \<Longrightarrow> \<forall>h \<in> set (handlers s). settled h"
proof (induction rule: server_reachable.induct)
  case (step s s')
  have upd: "\<forall>h \<in> set ((handlers s)[i := h]). settled h" if "settled h" for i h
    using step.IH that by (auto dest: set_update_subset_insert [THEN subsetD])
  from step.hyps(2) show ?case
  proof cases
    case (accepted b)
    with step.IH show ?thesis by (simp add: settled_def new_handler_def new_connection_def)
  next
    case (deliver i h ev)
    then have "settled h" using step.IH by simp
    then have "settled (h\<lparr>h_conn := (h_conn h)\<lparr>inbound := inbound (h_conn h) @ [ev]\<rparr>\<rparr>)" by (simp add: settled_def)
    from upd [OF this] deliver show ?thesis by simp
  next
    case (fault i h)
    then have "settled h" using step.IH by simp
    then have "settled (h\<lparr>h_conn := (h_conn h)\<lparr>write_fault := True\<rparr>\<rparr>)" by (simp add: settled_def)
    from upd [OF this] fault show ?thesis by simp
  next
    case (handle i ev h sy w)
    then have "settled (handlers s ! i)" using step.IH by simp
    from handler_step [OF handle(3) this handle(6)] have "settled h" by simp
    from upd [OF this] handle(1) show ?thesis by (simp add: put_handler_def)
  next
    case (write_fails i h sy)
    then have "settled h" by (auto simp: view_ended)
    from upd [OF this] write_fails(1) show ?thesis by (simp add: put_handler_def)
  qed (use step.IH in \<open>auto simp: begin_shutdown_def\<close>)
qed (simp add: server_new_def)

lemma task_step_atomic:
  assumes "task_step N s s'" "db_inv (state (shared s))"
  shows "poisoned (shared s') = poisoned (shared s) \<and> clock s' = clock s \<and>
    (entries (state (shared s')) = entries (state (shared s)) \<or>
     \<not> poisoned (shared s) \<and> entries (state (shared s')) = unexpired (clock s) (entries (state (shared s))))"
  using assms(1)
proof cases
  case (purge r sh)
  have np: "\<not> poisoned (shared s)" using purge(3) by (auto simp: poisoned_operations)
  show ?thesis
  proof (cases "shutdown (state (shared s))")
    case True
    with np purge show ?thesis by (simp add: purge_expired_keys_shutdown)
  next
    case False
    obtain x st where x: "purge_loop (clock s) (state (shared s)) = (x, st)" by (metis surj_pair)
    with np False purge have "sh = \<lparr>state = st, poisoned = False\<rparr>" by (simp add: purge_expired_keys_def with_lock_def)
    with purge_loop_spec [OF assms(2) x] purge np show ?thesis by simp
  qed
next
  case (purge_panic p sh)
  with purge_expired_keys_no_other(2) [of "clock s" "shared s" p sh] show ?thesis by simp
qed (auto simp: is_shutdown_cases split: if_splits)

lemma env_step_db_inv:
  assumes "env_step B N s s'" "db_inv (state (shared s))"
  shows "db_inv (state (shared s'))"
  using assms(1)
proof cases
  case (set k v e r sh)
  with db_set_inv [OF assms(2), of "clock s" k v e] show ?thesis by simp
next
  case (subscribe k r sh w)
  with db_step_inv [of "(shared s, world s)" B "OpSubscribe k"] assms(2) show ?thesis by simp
next
  case (publish k v r sh w)
  with db_publish_state [of B k v "shared s" "world s" r sh w] assms(2) show ?thesis by simp
next
  case (get k r sh)
  with db_step_inv [of "(shared s, world s)" B "OpGet k"] assms(2) show ?thesis by simp
qed (use assms(2) in \<open>auto simp: db_shutdown_cases split: if_splits\<close>)

lemma task_step_db_inv:
  assumes "task_step N s s'" "db_inv (state (shared s))"
  shows "db_inv (state (shared s'))"
  using assms(1)
proof cases
  case (purge r sh)
  with purge_expired_keys_inv [OF assms(2), of "clock s"] show ?thesis by simp
next
  case (purge_panic p sh)
  with purge_expired_keys_inv [OF assms(2), of "clock s"] show ?thesis by simp
qed (use assms(2) in \<open>auto simp: is_shutdown_cases split: if_splits\<close>)

lemma reachable_db_inv: "reachable B N s \<Longrightarrow> db_inv (state (shared s))"
proof (induction rule: reachable.induct)
  case (init t)
  show ?case by (simp add: initial_def new_shared_def db_inv_def btree_def)
next
  case (task s s')
  from task_step_db_inv [OF task.hyps(2) task.IH] show ?case .
next
  case (env s s')
  from env_step_db_inv [OF env.hyps(2) env.IH] show ?case .
qed

lemma view_of_new: "view_of new_handler = \<lparr>v_in = [], v_out = [], v_talk = Open\<rparr>"
  by (simp add: view_of_def new_handler_def new_connection_def unread_def)

definition atomic_new :: "instant \<Rightarrow> atomic" where
  "atomic_new t = \<lparr>a_kv = Map.empty, a_now = t, a_down = False, a_conns = []\<rparr>"

lemma atomic_of_new: "atomic_of (server_new N w t) = atomic_new t"
  by (simp add: atomic_of_def server_new_def initial_def new_shared_def atomic_new_def)

lemma server_atomic:
  assumes "server_reachable E B N M s" "server_step E B N M s s'"
  shows "atomic_step E (atomic_of s) (atomic_of s')"
proof -
  have st: "settled (handlers s ! i)" if "i < length (handlers s)" for i
    using server_settled [OF assms(1)] that by simp
  have quiet: "atomic_of s' = atomic_of s \<Longrightarrow> ?thesis" using atomic_step.a_quiet [of E] by simp
  from assms(2) show ?thesis
  proof cases
    case (accepted b)
    with atomic_step.a_opens [of E "atomic_of s"] show ?thesis by (simp add: atomic_of_def view_of_new)
  next
    case (deliver i h ev)
    let ?h = "h\<lparr>h_conn := (h_conn h)\<lparr>inbound := inbound (h_conn h) @ [ev]\<rparr>\<rparr>"
    obtain bs where bs: "arriving (inbound (h_conn h) @ [ev]) = arriving (inbound (h_conn h)) @ bs"
      using arriving_append by blast
    have "view_of ?h = (view_of h)\<lparr>v_in := v_in (view_of h) @ bs\<rparr> \<or> view_of ?h = view_of h"
      using bs by (simp add: view_of_def unread_def split: mode.splits)
    then show ?thesis
    proof
      assume "view_of ?h = (view_of h)\<lparr>v_in := v_in (view_of h) @ bs\<rparr>"
      with deliver atomic_step.a_receives [of i "atomic_of s" "view_of h" E bs] show ?thesis
        by (simp add: atomic_of_def map_update)
    next
      assume v: "view_of ?h = view_of h"
      have "map view_of ((handlers s)[i := ?h]) = map view_of (handlers s)"
        using deliver(2,3) v by (simp add: map_update list_update_same_conv)
      with deliver quiet show ?thesis by (simp add: atomic_of_def)
    qed
  next
    case (fault i h)
    have "view_of (h\<lparr>h_conn := (h_conn h)\<lparr>write_fault := True\<rparr>\<rparr>) = view_of h"
      by (simp add: view_of_def unread_def split: mode.splits)
    then have "map view_of ((handlers s)[i := h\<lparr>h_conn := (h_conn h)\<lparr>write_fault := True\<rparr>\<rparr>]) = map view_of (handlers s)"
      using fault(2,3) by (simp add: map_update list_update_same_conv)
    with fault quiet show ?thesis by (simp add: atomic_of_def)
  next
    case (handle i ev h sy w)
    from handler_step [OF handle(3) st [OF handle(2)] handle(6)]
    consider "conn_step E (clock (sys s)) (kv_of (sys s)) (view_of (handlers s ! i)) (kv_of sy) (view_of h)"
      | "kv_of sy = kv_of (sys s)" "view_of h = view_of (handlers s ! i)"
      by blast
    note ways = this
    have now: "clock sy = clock (sys s)" using handler_step [OF handle(3) st [OF handle(2)] handle(6)] by simp
    from ways show ?thesis
    proof cases
      case 1
      with atomic_step.a_connection [of i "atomic_of s" E "entries (state (shared sy))" "poisoned (shared sy)" "view_of h"]
      show ?thesis using handle(1,2) now by (simp add: atomic_of_def put_handler_def map_update)
    next
      case 2
      with quiet handle(1,2) now show ?thesis
        by (simp add: atomic_of_def put_handler_def map_update list_update_same_conv)
    qed
  next
    case (write_fails i h sy)
    then have w: "h = (handlers s ! i)\<lparr>h_mode := Ended (Err IoError)\<rparr>" "sy = sys s" by simp_all
    have "conn_step E (clock (sys s)) (kv_of (sys s)) (view_of (handlers s ! i)) (kv_of (sys s)) (view_of h)"
      unfolding w view_ended by (rule conn_step.conn_ends)
    with atomic_step.a_connection [of i "atomic_of s" E "entries (state (shared sy))" "poisoned (shared sy)" "view_of h"]
    show ?thesis using write_fails(1,3) w by (simp add: atomic_of_def put_handler_def map_update)
  next
    case (background sy)
    have "db_inv (state (shared (sys s)))"
      using server_reachable_inv [OF assms(1)] by (auto simp: server_inv_def intro: reachable_db_inv)
    from task_step_atomic [OF background(2) this] background(1) atomic_step.a_sweeps [of "atomic_of s" E] quiet
    show ?thesis by (auto simp: atomic_of_def)
  next
    case (time t)
    with atomic_step.a_ticks [of "atomic_of s" t E] show ?thesis by (simp add: atomic_of_def)
  next
    case (stop r sy)
    then have "kv_of sy = kv_of (sys s)" "clock sy = clock (sys s)"
      by (auto simp: db_shutdown_notify_def run_db_def db_shutdown_cases split: if_splits)
    with stop quiet show ?thesis by (simp add: atomic_of_def)
  qed (use quiet in \<open>simp_all add: atomic_of_def begin_shutdown_def\<close>)
qed

text \<open>
  C4: the server refines an atomic key-value server. However its connections, packets, commands, faults,
  background task and shutdown interleave, every reachable state is, seen from outside, a state of the
  atomic server, and every step is a step of it: a request read from the front of one
  connection takes effect on the whole map at once, its reply is the atomic server's, and
  nothing but requests, and the sweep of expired entries, changes the map.
\<close>

theorem server_refines_atomic:
  assumes "server_reachable E B N M s" "server_step E B N M s s'"
  shows "(\<exists>t. (atomic_step E)\<^sup>*\<^sup>* (atomic_new t) (atomic_of s)) \<and> atomic_step E (atomic_of s) (atomic_of s')"
proof -
  have "\<exists>t. (atomic_step E)\<^sup>*\<^sup>* (atomic_new t) (atomic_of s)"
    using assms(1)
  proof (induction rule: server_reachable.induct)
    case (start w t)
    show ?case by (auto simp: atomic_of_new)
  next
    case (step s s')
    from step.IH obtain t where "(atomic_step E)\<^sup>*\<^sup>* (atomic_new t) (atomic_of s)" by blast
    with server_atomic [OF step.hyps] show ?case by (auto intro: rtranclp.rtrancl_into_rtrancl)
  qed
  with server_atomic [OF assms] show ?thesis by blast
qed

theorem server_refines_atomic_witness:
  "\<exists>(s :: (nat, nat list, bool, (bytes \<times> nat) list) server)
      (s' :: (nat, nat list, bool, (bytes \<times> nat) list) server).
     v_out (a_conns (atomic_of s') ! 0) = encode (Simple ''PONG'') \<and>
     atomic_step (ref_env True) (atomic_of s) (atomic_of s')"
proof -
  let ?E = "ref_env True" and ?f = "Array [Bulk ''ping'']"
  let ?step = "server_step ?E ref_broadcast permit ref_stream_map"
  let ?s = "server_new permit [] 0 :: (nat, nat list, bool, (bytes \<times> nat) list) server"
  let ?h = "new_handler :: (bytes \<times> nat) list handler"
  let ?g = "?h\<lparr>h_conn := new_connection [Recv (encode ?f)]\<rparr>"
  let ?a = "?s\<lparr>permits := 249, listen := Accepting 1\<rparr>"
  let ?b = "?a\<lparr>handlers := [?h], listen := Acquiring\<rparr>"
  let ?c = "?b\<lparr>handlers := [?g]\<rparr>"
  have "expects [?f] (new_connection [Recv (encode ?f)])"
    by (rule expects_one) (simp_all add: isize_max_def encode.simps CRLF_def dec.simps)
  then obtain c where "read_frame ?E (new_connection [Recv (encode ?f)]) = Ready (Ok (Some ?f, c))"
    "expects [] c" "sent c = sent (new_connection [Recv (encode ?f)])"
    by (rule expects_read [OF ref_env_atoi])
  then have c: "read_frame ?E (new_connection [Recv (encode ?f)]) = Ready (Ok (Some ?f, c))" "expects [] c" "sent c = []"
    by (simp_all add: new_connection_def)
  have cmd: "from_frame ?E ?f = Ok (PingCmd \<lparr>ping_msg = None\<rparr>)"
    using from_frame_requests [of ?E "PingCmd \<lparr>ping_msg = None\<rparr>" ?f] ref_env_case ref_env_atoi
    by (simp add: ping_into_frame_def array_def)
  let ?k = "?g\<lparr>h_conn := wrote c (Simple ''PONG'')\<rparr>"
  have h: "handler_select ?E ref_broadcast permit ref_stream_map (phase ?c \<noteq> Running) SelFrame ?g (sys ?c) = (?k, sys ?c)"
    using serve_one [where h = ?g and E = ?E and f = ?f and c = c and cmd = "PingCmd \<lparr>ping_msg = None\<rparr>" and s = "sys ?c"
      and B = ref_broadcast and N = permit and M = ref_stream_map and closed = "phase ?c \<noteq> Running"] c cmd
    by (simp add: serving_def new_handler_def shutdown_new_def new_connection_def expects_def server_new_def initial_def new_shared_def)
  have "?step ?s ?a"
    by (rule server_step.acquire) (simp_all add: server_new_def MAX_CONNECTIONS_def)
  moreover have "?step ?a ?b"
    using server_step.accepted [of ?a 1] by (simp add: server_new_def)
  moreover have "?step ?b ?c"
    using server_step.deliver [of 0 ?b ?h ?E ref_broadcast permit ref_stream_map "Recv (encode ?f)"]
    by (simp add: new_handler_def new_connection_def)
  ultimately have r: "server_reachable ?E ref_broadcast permit ref_stream_map ?c" by (meson server_reachable.intros)
  let ?d = "put_handler 0 ?k (?c\<lparr>sys := sys ?c, stalled := stalled ?c\<rparr>)"
  have "stalled ?s = {}" by (simp add: server_new_def)
  with h have st: "?step ?c ?d"
    by (intro server_step.handle [where ev = SelFrame]) (simp_all add: new_handler_def)
  have "v_out (a_conns (atomic_of ?d) ! 0) = encode (Simple ''PONG'')"
    using c by (simp add: atomic_of_def put_handler_def view_of_def new_handler_def wrote_def expects_def)
  with server_refines_atomic [OF r st] show ?thesis by (intro exI [of _ ?c] exI [of _ ?d]) simp
qed

end
