(* ===== verification/Buffered_Client.thy ===== *)
theory Buffered_Client
  imports Client "HOL-Library.Sublist"
begin

text \<open>
  \<open>src/mini-redis/src/clients/buffered_client.rs\<close>: many requesters share one connection. A request
  is a message with a reply slot (a oneshot); messages wait for one of 32 places in a channel, and
  one task takes them out and runs them on the connection one after the other. The steps interleave
  the requesters, the task and the network; a requester may give up at any time.
\<close>

section \<open>Running one message\<close>

datatype bcmd = BGet bytes | BSet bytes bytes

text \<open>The call the task makes for a command.\<close>

fun map_call :: "('a \<Rightarrow> 'b) \<Rightarrow> 'a call \<Rightarrow> 'b call" where
  "map_call g (Done (Ok (a, c))) = Done (Ok (g a, c))"
| "map_call g (Done (Err e)) = Done (Err e)"
| "map_call g (Done (Panic p)) = Done (Panic p)"
| "map_call g (Blocked c) = Blocked c"

fun run_call :: "env \<Rightarrow> bcmd \<Rightarrow> connection \<Rightarrow> bytes option call" where
  "run_call E (BGet key) c = client_get E key c"
| "run_call E (BSet key val) c = map_call (\<lambda>_. None) (client_set E key val c)"

text \<open>
  The same call in its two halves: the request is written at once, the reply is awaited. The lemma
  \<open>run_call_halves\<close> below says that they make up the call.
\<close>

fun buf_request :: "bcmd \<Rightarrow> frame" where
  "buf_request (BGet key) = Array (map Bulk [''get'', key])"
| "buf_request (BSet key val) = Array (map Bulk [''set'', key, val])"

fun buf_result :: "env \<Rightarrow> bcmd \<Rightarrow> frame \<Rightarrow> (bytes option, crate_error) res" where
  "buf_result E (BGet key) f = (case get_reply f of Some r \<Rightarrow> Ok r | None \<Rightarrow> Err (to_error E f))"
| "buf_result E (BSet key val) f = (case ok_reply f of Some _ \<Rightarrow> Ok None | None \<Rightarrow> Err (to_error E f))"

text \<open>The second half of a call: \<open>None\<close> while the reply is not there.\<close>

definition await_reply :: "env \<Rightarrow> bcmd \<Rightarrow> connection \<Rightarrow> (bytes option, crate_error) res option" where
  "await_reply E cmd c =
     (case read_response E c of
        Blocked _ \<Rightarrow> None
      | Done (Ok (f, _)) \<Rightarrow> Some (buf_result E cmd f)
      | Done (Err e) \<Rightarrow> Some (Err e)
      | Done (Panic p) \<Rightarrow> Some (Panic p))"

section \<open>The state\<close>

text \<open>What a requester gets from its oneshot: the reply, or the error of a closed channel.\<close>

datatype breply = Reply "(bytes option, crate_error) res" | ChannelClosed

datatype btask = TaskIdle | InFlight bcmd nat | TaskCrashed | TaskEnded

text \<open>
  \<open>bc_waiting\<close> are the calls of \<open>tx.send\<close> that wait for a place, in their order; \<open>bc_gone\<close> the
  requesters that gave up. The last two fields record the requests written and the network events.
\<close>

record bufcl =
  bc_next :: nat
  bc_waiting :: "(bcmd \<times> nat) list"
  bc_queue :: "(bcmd \<times> nat) list"
  bc_task :: btask
  bc_conn :: connection
  bc_slots :: "nat \<rightharpoonup> breply"
  bc_gone :: "nat set"
  bc_handles :: bool
  bc_log :: "(bcmd \<times> nat) list"
  bc_events :: "read_event list"

text \<open>\<open>BufferedClient::buffer\<close> on a fresh client.\<close>

definition buffer_new :: bufcl where
  "buffer_new = \<lparr>bc_next = 0, bc_waiting = [], bc_queue = [], bc_task = TaskIdle, bc_conn = new_connection [],
     bc_slots = Map.empty, bc_gone = {}, bc_handles = True, bc_log = [], bc_events = []\<rparr>"

definition channel_limit :: nat where
  "channel_limit = 32"

section \<open>The operations\<close>

text \<open>\<open>get\<close> and \<open>set\<close>: a message with a new oneshot is handed to \<open>tx.send\<close>, which fails if the task is gone.\<close>

definition issue :: "bcmd \<Rightarrow> bufcl \<Rightarrow> bufcl" where
  "issue cmd s =
     (if bc_task s = TaskCrashed
      then s\<lparr>bc_next := bc_next s + 1, bc_slots := (bc_slots s)(bc_next s \<mapsto> ChannelClosed)\<rparr>
      else s\<lparr>bc_next := bc_next s + 1, bc_waiting := bc_waiting s @ [(cmd, bc_next s)]\<rparr>)"

definition buffered_get :: "bytes \<Rightarrow> bufcl \<Rightarrow> bufcl" where
  "buffered_get key s = issue (BGet key) s"

definition buffered_set :: "bytes \<Rightarrow> bytes \<Rightarrow> bufcl \<Rightarrow> bufcl" where
  "buffered_set key val s = issue (BSet key val) s"

text \<open>What a call returns once its slot is filled: \<open>rx.await\<close> and its error. \<open>set\<close> drops the value.\<close>

fun call_result :: "breply \<Rightarrow> (bytes option, crate_error) res" where
  "call_result (Reply r) = r"
| "call_result ChannelClosed = Err (Text ''channel closed'')"

definition call_returns :: "bufcl \<Rightarrow> nat \<Rightarrow> (bytes option, crate_error) res option" where
  "call_returns s i = map_option call_result (bc_slots s i)"

text \<open>\<open>tx.send\<close> of a oneshot: the value is dropped when the receiver is.\<close>

definition deliver :: "nat \<Rightarrow> breply \<Rightarrow> bufcl \<Rightarrow> bufcl" where
  "deliver i r s = (if i \<in> bc_gone s then s else s\<lparr>bc_slots := (bc_slots s)(i \<mapsto> r)\<rparr>)"

text \<open>A panic ends the task: the channel and every oneshot in it are dropped.\<close>

definition crash_task :: "bufcl \<Rightarrow> bufcl" where
  "crash_task s =
     (let lost = snd ` set (bc_queue s @ bc_waiting s) \<union>
            (case bc_task s of InFlight cmd i \<Rightarrow> {i} | _ \<Rightarrow> {})
      in s\<lparr>bc_task := TaskCrashed, bc_queue := [], bc_waiting := [],
           bc_slots := (\<lambda>j. if j \<in> lost \<and> j \<notin> bc_gone s then Some ChannelClosed else bc_slots s j)\<rparr>)"

text \<open>One turn of the task: \<open>rx.recv()\<close> and the first half of the call.\<close>

definition start_call :: "bcmd \<Rightarrow> nat \<Rightarrow> bufcl \<Rightarrow> bufcl" where
  "start_call cmd i s =
     (let s = s\<lparr>bc_queue := tl (bc_queue s), bc_log := bc_log s @ [(cmd, i)]\<rparr> in
      case write_frame (bc_conn s) (buf_request cmd) of
        Ok c \<Rightarrow> s\<lparr>bc_conn := c, bc_task := InFlight cmd i\<rparr>
      | Err e \<Rightarrow> deliver i (Reply (Err e)) s
      | Panic p \<Rightarrow> crash_task (s\<lparr>bc_task := InFlight cmd i\<rparr>))"

text \<open>The second half and \<open>tx.send(response)\<close>.\<close>

definition finish_call :: "nat \<Rightarrow> connection \<Rightarrow> (bytes option, crate_error) res \<Rightarrow> bufcl \<Rightarrow> bufcl" where
  "finish_call i c r s =
     (case r of
        Panic p \<Rightarrow> crash_task s
      | _ \<Rightarrow> deliver i (Reply r) (s\<lparr>bc_conn := c, bc_task := TaskIdle\<rparr>))"

text \<open>A requester drops its future: a message that has no place yet is never sent.\<close>

definition give_up :: "nat \<Rightarrow> bufcl \<Rightarrow> bufcl" where
  "give_up i s = s\<lparr>bc_waiting := filter (\<lambda>m. snd m \<noteq> i) (bc_waiting s), bc_gone := insert i (bc_gone s)\<rparr>"

definition cmd_fits :: "bcmd \<Rightarrow> bool" where
  "cmd_fits cmd \<longleftrightarrow> flat (buf_request cmd)"

text \<open>The steps the task and the channel take by themselves.\<close>

inductive buf_work :: "env \<Rightarrow> bufcl \<Rightarrow> bufcl \<Rightarrow> bool" for E where
  work_admit: "bc_waiting s = m # ms \<Longrightarrow> length (bc_queue s) < channel_limit \<Longrightarrow>
    buf_work E s (s\<lparr>bc_waiting := ms, bc_queue := bc_queue s @ [m]\<rparr>)"
| work_start: "bc_task s = TaskIdle \<Longrightarrow> bc_queue s = (cmd, i) # q \<Longrightarrow> buf_work E s (start_call cmd i s)"
| work_reply: "bc_task s = InFlight cmd i \<Longrightarrow> await_reply E cmd (bc_conn s) = Some r \<Longrightarrow>
    buf_work E s (finish_call i (read_frame_conn E (bc_conn s)) r s)"
| work_end: "bc_task s = TaskIdle \<Longrightarrow> bc_queue s = [] \<Longrightarrow> \<not> bc_handles s \<Longrightarrow>
    buf_work E s (s\<lparr>bc_task := TaskEnded\<rparr>)"

text \<open>The steps of the program and its surroundings.\<close>

inductive buf_step :: "env \<Rightarrow> bufcl \<Rightarrow> bufcl \<Rightarrow> bool" for E where
  step_work: "buf_work E s s' \<Longrightarrow> buf_step E s s'"
| step_get: "bc_handles s \<Longrightarrow> cmd_fits (BGet key) \<Longrightarrow> buf_step E s (buffered_get key s)"
| step_set: "bc_handles s \<Longrightarrow> cmd_fits (BSet key val) \<Longrightarrow> buf_step E s (buffered_set key val s)"
| step_net: "buf_step E s (s\<lparr>bc_conn := (bc_conn s)\<lparr>inbound := inbound (bc_conn s) @ [ev]\<rparr>,
    bc_events := bc_events s @ [ev]\<rparr>)"
| step_give_up: "i < bc_next s \<Longrightarrow> buf_step E s (give_up i s)"
| step_drop: "bc_waiting s = [] \<Longrightarrow> buf_step E s (s\<lparr>bc_handles := False\<rparr>)"

abbreviation buf_reach where
  "buf_reach E \<equiv> (buf_step E)\<^sup>*\<^sup>*"

section \<open>The call is its two halves\<close>

lemma run_call_halves:
  "run_call E cmd c = await_then (send_request (Ok (buf_request cmd)) c) (\<lambda>_ c.
     await_then (read_response E c) (\<lambda>f c.
       case buf_result E cmd f of Ok a \<Rightarrow> Done (Ok (a, c)) | Err e \<Rightarrow> Done (Err e) | Panic p \<Rightarrow> Done (Panic p)))"
proof (cases cmd)
  case (BGet key)
  then show ?thesis
    by (simp add: get_op.shape, intro arg_cong2 [of _ _ _ _ await_then] ext refl) (simp split: option.splits)
next
  case (BSet key val)
  have m: "map_call g (await_then x f) = await_then x (\<lambda>a c. map_call g (f a c))" for g x f
    by (cases "(x, f)" rule: await_then.cases) simp_all
  show ?thesis
    unfolding BSet run_call.simps client_set_def set_op.shape m set_args_def
    by (simp, intro arg_cong2 [of _ _ _ _ await_then] ext refl) simp
qed

section \<open>Order and capacity\<close>

definition outstanding :: "bufcl \<Rightarrow> nat set" where
  "outstanding s = snd ` set (bc_queue s @ bc_waiting s) \<union> (case bc_task s of InFlight cmd i \<Rightarrow> {i} | _ \<Rightarrow> {})"

definition buf_inv :: "bufcl \<Rightarrow> bool" where
  "buf_inv s \<longleftrightarrow>
     sorted_wrt (<) (map snd (bc_log s @ bc_queue s @ bc_waiting s)) \<and>
     (\<forall>m\<in>set (bc_log s @ bc_queue s @ bc_waiting s). cmd_fits (fst m) \<and> snd m < bc_next s) \<and>
     length (bc_queue s) \<le> channel_limit \<and>
     (\<forall>cmd i. bc_task s = InFlight cmd i \<longrightarrow> bc_log s \<noteq> [] \<and> last (bc_log s) = (cmd, i)) \<and>
     (\<forall>i<bc_next s. i \<in> bc_gone s \<or> bc_slots s i \<noteq> None \<or> i \<in> outstanding s) \<and>
     (\<not> bc_handles s \<longrightarrow> bc_waiting s = []) \<and>
     (bc_task s = TaskEnded \<longrightarrow> bc_queue s = [] \<and> \<not> bc_handles s)"

lemma buf_invI:
  assumes "sorted_wrt (<) (map snd (bc_log s @ bc_queue s @ bc_waiting s))"
    "\<And>m. m \<in> set (bc_log s @ bc_queue s @ bc_waiting s) \<Longrightarrow> cmd_fits (fst m) \<and> snd m < bc_next s"
    "length (bc_queue s) \<le> channel_limit"
    "\<And>cmd i. bc_task s = InFlight cmd i \<Longrightarrow> bc_log s \<noteq> [] \<and> last (bc_log s) = (cmd, i)"
    "\<And>i. i < bc_next s \<Longrightarrow> i \<notin> bc_gone s \<Longrightarrow> bc_slots s i = None \<Longrightarrow> i \<in> outstanding s"
    "\<not> bc_handles s \<Longrightarrow> bc_waiting s = []"
    "bc_task s = TaskEnded \<Longrightarrow> bc_queue s = [] \<and> \<not> bc_handles s"
  shows "buf_inv s"
  using assms unfolding buf_inv_def by blast

lemma buf_inv_new: "buf_inv buffer_new"
  by (simp add: buf_inv_def buffer_new_def channel_limit_def)

lemma deliver_simps [simp]:
  "bc_next (deliver i r s) = bc_next s" "bc_waiting (deliver i r s) = bc_waiting s"
  "bc_queue (deliver i r s) = bc_queue s" "bc_task (deliver i r s) = bc_task s"
  "bc_conn (deliver i r s) = bc_conn s" "bc_gone (deliver i r s) = bc_gone s"
  "bc_handles (deliver i r s) = bc_handles s" "bc_log (deliver i r s) = bc_log s"
  "bc_events (deliver i r s) = bc_events s"
  "bc_slots (deliver i r s) = (if i \<in> bc_gone s then bc_slots s else (bc_slots s)(i \<mapsto> r))"
  by (simp_all add: deliver_def)

lemma crash_inv:
  assumes "buf_inv s"
  shows "buf_inv (crash_task s)"
proof (rule buf_invI)
  show "sorted_wrt (<) (map snd (bc_log (crash_task s) @ bc_queue (crash_task s) @ bc_waiting (crash_task s)))"
    using assms by (simp add: crash_task_def buf_inv_def sorted_wrt_append Let_def)
qed (use assms in \<open>auto simp: crash_task_def buf_inv_def outstanding_def Let_def split: if_splits\<close>)

lemma deliver_inv:
  assumes "buf_inv s" "bc_task s = InFlight cmd i"
  shows "buf_inv (deliver i r (s\<lparr>bc_conn := c, bc_task := TaskIdle\<rparr>))"
  by (rule buf_invI) (use assms in \<open>auto simp: buf_inv_def outstanding_def split: if_splits\<close>)

text \<open>A message has been taken from the queue.\<close>

lemma taken_inv:
  assumes "buf_inv s" "bc_task s = TaskIdle" "bc_queue s = (cmd, i) # q"
  shows "buf_inv (s\<lparr>bc_queue := q, bc_log := bc_log s @ [(cmd, i)], bc_conn := c, bc_task := InFlight cmd i\<rparr>)"
  by (rule buf_invI) (use assms in \<open>auto simp: buf_inv_def outstanding_def\<close>)

lemma start_inv:
  assumes "buf_inv s" "bc_task s = TaskIdle" "bc_queue s = (cmd, i) # q"
  shows "buf_inv (start_call cmd i s)"
proof -
  let ?s = "s\<lparr>bc_queue := q, bc_log := bc_log s @ [(cmd, i)]\<rparr>"
  note t = taken_inv [OF assms]
  show ?thesis
  proof (cases "write_frame (bc_conn s) (buf_request cmd)")
    case (Ok c)
    with t [of c] assms(3) show ?thesis by (simp add: start_call_def)
  next
    case (Err e)
    have "deliver i (Reply (Err e)) ?s =
      deliver i (Reply (Err e)) (?s\<lparr>bc_conn := bc_conn s, bc_task := InFlight cmd i\<rparr>\<lparr>bc_conn := bc_conn s, bc_task := TaskIdle\<rparr>)"
      using assms(2) by simp
    moreover have "buf_inv \<dots>" by (rule deliver_inv) (use t [of "bc_conn s"] in simp_all)
    ultimately show ?thesis using Err assms(3) by (simp add: start_call_def)
  next
    case (Panic p)
    with crash_inv [OF t [of "bc_conn s"]] assms(3) show ?thesis by (simp add: start_call_def)
  qed
qed

lemma finish_inv:
  assumes "buf_inv s" "bc_task s = InFlight cmd i"
  shows "buf_inv (finish_call i c r s)"
  using crash_inv [OF assms(1)] deliver_inv [OF assms] by (simp add: finish_call_def split: res.splits)

lemma work_inv:
  assumes "buf_work E s s'" "buf_inv s"
  shows "buf_inv s'"
  using assms
proof (induction rule: buf_work.induct)
  case (work_admit s m ms)
  then show ?case by (intro buf_invI) (auto simp: buf_inv_def outstanding_def)
next
  case (work_end s)
  then show ?case by (intro buf_invI) (auto simp: buf_inv_def outstanding_def)
qed (blast intro: start_inv finish_inv)+

lemma issue_inv:
  assumes "buf_inv s" "cmd_fits cmd" "bc_handles s"
  shows "buf_inv (issue cmd s)"
  by (rule buf_invI)
    (use assms in \<open>auto simp: issue_def buf_inv_def outstanding_def sorted_wrt_append less_Suc_eq split: if_splits\<close>)

lemma give_up_inv:
  assumes "buf_inv s"
  shows "buf_inv (give_up i s)"
proof (rule buf_invI)
  show "sorted_wrt (<) (map snd (bc_log (give_up i s) @ bc_queue (give_up i s) @ bc_waiting (give_up i s)))"
    using assms by (simp add: give_up_def buf_inv_def sorted_wrt_append sorted_wrt_map sorted_wrt_filter ball_Un) fastforce
qed (use assms in \<open>auto simp: give_up_def buf_inv_def outstanding_def\<close>)

lemma buf_step_inv:
  assumes "buf_step E s s'" "buf_inv s"
  shows "buf_inv s'"
  using assms
proof (induction rule: buf_step.induct)
  case (step_net s ev)
  then show ?case by (simp add: buf_inv_def outstanding_def)
next
  case (step_drop s)
  then show ?case by (simp add: buf_inv_def outstanding_def)
qed (simp_all add: buffered_get_def buffered_set_def work_inv issue_inv give_up_inv)

lemma buf_reach_inv: "buf_reach E buffer_new s \<Longrightarrow> buf_inv s"
  by (erule reach_invariant) (blast intro: buf_inv_new buf_step_inv)+

section \<open>Reading the next reply\<close>

lemma read_next:
  assumes "atoi_reads_decimal E" "flat f" "line_safe f"
    and c: "inbound c = map Recv chunks" "[] \<notin> set chunks"
    and pre: "buffer c @ concat chunks @ zs = encode f @ post" "length (buffer c @ concat chunks @ zs) \<le> isize_max"
  shows "(\<exists>left rest. read_frame E c = Ready (Ok (Some f, c\<lparr>buffer := left, inbound := map Recv rest\<rparr>)) \<and>
      [] \<notin> set rest \<and> buffer c @ concat chunks = encode f @ left @ concat rest) \<or>
    length (buffer c @ concat chunks) < length (encode f) \<and> (\<exists>c'. read_frame E c = Pending c')"
proof -
  let ?t = "cur (encode f @ post) (length (encode f))"
  have p: "parse E (cur (buffer c @ concat chunks @ zs) 0) = Ok (f, ?t)"
    using parse_encode [of E f post] assms(1-3) pre(1) by simp
  have inb: "inbound c = map Recv chunks @ []" using c(1) by simp
  show ?thesis
  proof (cases "length (encode f) \<le> length (buffer c @ concat chunks)")
    case True
    then obtain used rest where u: "chunks = used @ rest" "length (encode f) \<le> length (buffer c @ concat used)"
      and r: "read_frame E c = Ready (Ok (Some f, c\<lparr>buffer := drop (length (encode f)) (buffer c @ concat used),
        inbound := map Recv rest @ []\<rparr>))"
      using read_frame_chunks [OF p pre(2) inb c(2)] by auto
    define left where "left = drop (length (encode f)) (buffer c @ concat used)"
    have "take (length (encode f)) (buffer c @ concat chunks @ zs) = encode f" unfolding pre(1) by simp
    then have "take (length (encode f)) (buffer c @ concat used) = encode f" using u by simp
    then have "buffer c @ concat used = encode f @ left"
      unfolding left_def by (metis append_take_drop_id)
    then have "buffer c @ concat chunks = encode f @ left @ concat rest"
      using u(1) by (metis append.assoc concat_append)
    moreover have "[] \<notin> set rest" using u(1) c(2) by simp
    moreover have "read_frame E c = Ready (Ok (Some f, c\<lparr>buffer := left, inbound := map Recv rest\<rparr>))"
      using r by (simp add: left_def)
    ultimately show ?thesis by blast
  next
    case False
    then have "length (buffer c @ concat chunks) < position ?t" by simp
    from read_frame_partial [OF p pre(2) inb c(2) this] False show ?thesis
      by (simp add: read_frame.simps [of E "c\<lparr>buffer := buffer c @ concat chunks, inbound := []\<rparr>"])
  qed
qed

text \<open>How a reply frame is read, errors of the server included.\<close>

definition reply_result :: "env \<Rightarrow> bcmd \<Rightarrow> frame \<Rightarrow> (bytes option, crate_error) res" where
  "reply_result E cmd f = (case f of Error msg \<Rightarrow> Err (Text msg) | _ \<Rightarrow> buf_result E cmd f)"

lemma reply_result_no_panic: "reply_result E cmd f \<noteq> Panic p"
  by (cases cmd) (simp_all add: reply_result_def split: frame.splits option.splits)

lemma await_reply_Ready: "read_frame E c = Ready (Ok (Some f, c')) \<Longrightarrow> await_reply E cmd c = Some (reply_result E cmd f)"
  by (cases f) (simp_all add: await_reply_def read_response_def reply_result_def)

lemma await_reply_Pending: "read_frame E c = Pending c' \<Longrightarrow> await_reply E cmd c = None"
  by (simp add: await_reply_def read_response_def)

section \<open>Every requester gets the reply to its own request\<close>

text \<open>The server has sent some of the bytes of the replies \<open>fs\<close>, and nothing has failed.\<close>

definition bytes_of :: "read_event list \<Rightarrow> bytes" where
  "bytes_of evs = concat (map (\<lambda>e. case e of Recv b \<Rightarrow> b | RecvErr \<Rightarrow> []) evs)"

definition replies_from :: "frame list \<Rightarrow> read_event list \<Rightarrow> bool" where
  "replies_from fs evs \<longleftrightarrow> list_all flat fs \<and> list_all line_safe fs \<and> length (concat (map encode fs)) \<le> isize_max \<and>
     RecvErr \<notin> set evs \<and> Recv [] \<notin> set evs \<and> prefix (bytes_of evs) (concat (map encode fs))"

definition completed :: "bufcl \<Rightarrow> nat" where
  "completed s = length (bc_log s) - (case bc_task s of InFlight _ _ \<Rightarrow> 1 | _ \<Rightarrow> 0)"

definition slot_ok :: "env \<Rightarrow> frame list \<Rightarrow> bufcl \<Rightarrow> nat \<Rightarrow> bool" where
  "slot_ok E fs s k \<longleftrightarrow> (let (cmd, i) = bc_log s ! k in
     i \<in> bc_gone s \<or> bc_slots s i = Some (Reply (reply_result E cmd (fs ! k))))"

definition conn_matched :: "frame list \<Rightarrow> nat \<Rightarrow> read_event list \<Rightarrow> connection \<Rightarrow> bool" where
  "conn_matched fs n evs c \<longleftrightarrow> n \<le> length fs \<and> \<not> write_fault c \<and> pending_out c = [] \<and>
     (\<exists>chunks. inbound c = map Recv chunks \<and> [] \<notin> set chunks \<and>
        bytes_of evs = concat (map encode (take n fs)) @ buffer c @ concat chunks)"

definition matched :: "env \<Rightarrow> frame list \<Rightarrow> bufcl \<Rightarrow> bool" where
  "matched E fs s \<longleftrightarrow> bc_task s \<noteq> TaskCrashed \<and> conn_matched fs (completed s) (bc_events s) (bc_conn s) \<and>
     (\<forall>k<completed s. slot_ok E fs s k) \<and>
     sent (bc_conn s) = concat (map (\<lambda>m. encode (buf_request (fst m))) (bc_log s))"

lemma replies_from_less: "replies_from fs (evs @ [ev]) \<Longrightarrow> replies_from fs evs"
  by (auto simp: replies_from_def bytes_of_def dest: append_prefixD)

lemma conn_matched_net:
  assumes "conn_matched fs n evs c" "replies_from fs (evs @ [ev])"
  shows "conn_matched fs n (evs @ [ev]) (c\<lparr>inbound := inbound c @ [ev]\<rparr>)"
proof -
  from assms(2) obtain b where ev: "ev = Recv b" "b \<noteq> []" by (cases ev) (auto simp: replies_from_def)
  from assms(1) obtain chunks where "inbound c = map Recv chunks" "[] \<notin> set chunks"
    "bytes_of evs = concat (map encode (take n fs)) @ buffer c @ concat chunks" "n \<le> length fs"
    "\<not> write_fault c" "pending_out c = []" by (auto simp: conn_matched_def)
  with ev show ?thesis unfolding conn_matched_def
    by (intro conjI exI [of _ "chunks @ [b]"]) (simp_all add: bytes_of_def)
qed

text \<open>The reply that is awaited next, if it is there.\<close>

lemma conn_matched_read:
  assumes "atoi_reads_decimal E" "replies_from fs evs" "conn_matched fs n evs c"
  shows "(n < length fs \<and> (\<exists>c'. read_frame E c = Ready (Ok (Some (fs ! n), c')) \<and> sent c' = sent c \<and>
      conn_matched fs (Suc n) evs c')) \<or>
    (length (bytes_of evs) < length (concat (map encode (take (Suc n) fs))) \<or> n = length fs) \<and> (\<exists>c'. read_frame E c = Pending c')"
proof -
  from assms(3) obtain chunks where c: "inbound c = map Recv chunks" "[] \<notin> set chunks"
    and n: "n \<le> length fs" "\<not> write_fault c" "pending_out c = []"
    and b: "bytes_of evs = concat (map encode (take n fs)) @ buffer c @ concat chunks"
    by (auto simp: conn_matched_def)
  from assms(2) obtain zs where z: "concat (map encode fs) = bytes_of evs @ zs" by (auto simp: replies_from_def prefix_def)
  show ?thesis
  proof (cases "n = length fs")
    case True
    with b z have e: "buffer c = []" "concat chunks = []" by auto
    then have "chunks = []" using c(2) by (cases chunks) auto
    with e(1) have "read_frame E c = Pending c" using c(1) parse_frame_empty [of c E] by (simp add: read_frame.simps)
    with True show ?thesis by blast
  next
    case False
    with n have lt: "n < length fs" by simp
    have "concat (map encode fs) = concat (map encode (take n fs)) @ encode (fs ! n) @ concat (map encode (drop (Suc n) fs))"
      using lt by (metis Cons_nth_drop_Suc append_take_drop_id concat.simps(2) concat_append list.simps(9) map_append)
    with b z have pre: "buffer c @ concat chunks @ zs = encode (fs ! n) @ concat (map encode (drop (Suc n) fs))" by simp
    have len: "length (buffer c @ concat chunks @ zs) \<le> isize_max"
      using assms(2) z b by (simp add: replies_from_def del: length_concat)
    have f: "flat (fs ! n)" "line_safe (fs ! n)" using assms(2) lt by (simp_all add: replies_from_def list_all_length)
    have tk: "concat (map encode (take (Suc n) fs)) = concat (map encode (take n fs)) @ encode (fs ! n)"
      using lt by (simp add: take_Suc_conv_app_nth)
    from read_next [OF assms(1) f c pre len] show ?thesis
    proof (elim disjE exE conjE)
      fix left rest
      assume r: "read_frame E c = Ready (Ok (Some (fs ! n), c\<lparr>buffer := left, inbound := map Recv rest\<rparr>))" "[] \<notin> set rest"
        "buffer c @ concat chunks = encode (fs ! n) @ left @ concat rest"
      have "conn_matched fs (Suc n) evs (c\<lparr>buffer := left, inbound := map Recv rest\<rparr>)"
        unfolding conn_matched_def by (intro conjI exI [of _ rest]) (use lt n b tk r in simp_all)
      with r(1) lt show ?thesis by auto
    next
      fix c'
      assume "length (buffer c @ concat chunks) < length (encode (fs ! n))" "read_frame E c = Pending c'"
      with b tk show ?thesis by simp
    qed
  qed
qed

lemma matched_new: "matched E fs buffer_new"
  by (simp add: matched_def buffer_new_def completed_def conn_matched_def new_connection_def bytes_of_def)

lemma matched_frame:
  assumes "matched E fs s" "bc_task s' \<noteq> TaskCrashed" "completed s' = completed s" "bc_gone s \<subseteq> bc_gone s'"
    and "bc_events s' = bc_events s" "bc_conn s' = bc_conn s" "bc_slots s' = bc_slots s" "bc_log s' = bc_log s"
  shows "matched E fs s'"
proof -
  have "slot_ok E fs s' k" if "slot_ok E fs s k" for k
    using that assms(4,7,8) by (auto simp: slot_ok_def split_beta)
  with assms show ?thesis by (simp add: matched_def)
qed

lemma matched_not_crashed: "matched E fs s \<Longrightarrow> bc_task s \<noteq> TaskCrashed"
  by (simp add: matched_def)

lemma matched_start:
  assumes m: "matched E fs s" and t: "bc_task s = TaskIdle" and q: "bc_queue s = (cmd, i) # q" and fits: "cmd_fits cmd"
  shows "matched E fs (start_call cmd i s)" "bc_task (start_call cmd i s) = InFlight cmd i"
    "bc_queue (start_call cmd i s) = q" "bc_waiting (start_call cmd i s) = bc_waiting s"
    "bc_events (start_call cmd i s) = bc_events s"
    "bc_log (start_call cmd i s) = bc_log s @ [(cmd, i)]" "bc_next (start_call cmd i s) = bc_next s"
proof -
  let ?c = "bc_conn s"
  have "\<not> write_fault ?c" "pending_out ?c = []" using m by (simp_all add: matched_def conn_matched_def)
  with write_frame_encode [of ?c "buf_request cmd"] fits
  have w: "write_frame ?c (buf_request cmd) = Ok (?c\<lparr>sent := sent ?c @ encode (buf_request cmd)\<rparr>)"
    by (simp add: cmd_fits_def)
  then have s: "start_call cmd i s = s\<lparr>bc_queue := q, bc_log := bc_log s @ [(cmd, i)],
      bc_conn := ?c\<lparr>sent := sent ?c @ encode (buf_request cmd)\<rparr>, bc_task := InFlight cmd i\<rparr>"
    using q by (simp add: start_call_def)
  have n: "completed (start_call cmd i s) = completed s" unfolding s using t by (simp add: completed_def)
  have "slot_ok E fs (start_call cmd i s) k" if "k < completed s" for k
    using m that t unfolding s by (simp add: matched_def slot_ok_def completed_def nth_append)
  with m n show "matched E fs (start_call cmd i s)" unfolding s by (simp add: matched_def conn_matched_def)
  show "bc_task (start_call cmd i s) = InFlight cmd i"
    "bc_queue (start_call cmd i s) = q" "bc_waiting (start_call cmd i s) = bc_waiting s"
    "bc_events (start_call cmd i s) = bc_events s"
    "bc_log (start_call cmd i s) = bc_log s @ [(cmd, i)]" "bc_next (start_call cmd i s) = bc_next s"
    unfolding s by simp_all
qed

lemma completed_in_flight:
  assumes "buf_inv s" "bc_task s = InFlight cmd i"
  shows "bc_log s ! completed s = (cmd, i)" "completed s < length (bc_log s)" "Suc (completed s) = length (bc_log s)"
    "k < completed s \<Longrightarrow> snd (bc_log s ! k) \<noteq> i"
proof -
  from assms have l: "bc_log s \<noteq> []" "last (bc_log s) = (cmd, i)" by (auto simp: buf_inv_def)
  then show n: "bc_log s ! completed s = (cmd, i)" "completed s < length (bc_log s)" "Suc (completed s) = length (bc_log s)"
    using assms(2) by (simp_all add: completed_def last_conv_nth)
  have "sorted_wrt (<) (map snd (bc_log s))" using assms(1) by (simp add: buf_inv_def sorted_wrt_append)
  then show "k < completed s \<Longrightarrow> snd (bc_log s ! k) \<noteq> i"
    using n(1,2) sorted_wrt_nth_less [of "(<)" "map snd (bc_log s)" k "completed s"] by simp
qed

lemma matched_reply:
  assumes "atoi_reads_decimal E" and inv: "buf_inv s" and m: "matched E fs s" "replies_from fs (bc_events s)"
    and t: "bc_task s = InFlight cmd i" and r: "await_reply E cmd (bc_conn s) = Some r"
  shows "matched E fs (finish_call i (read_frame_conn E (bc_conn s)) r s)"
proof -
  let ?n = "completed s" and ?c = "read_frame_conn E (bc_conn s)"
  let ?s = "finish_call i ?c r s"
  note l = completed_in_flight [OF inv t]
  have "conn_matched fs ?n (bc_events s) (bc_conn s)" using m by (simp add: matched_def)
  from conn_matched_read [OF assms(1) m(2) this] r await_reply_Pending [of E "bc_conn s" _ cmd]
  obtain c' where n: "?n < length fs" and c': "read_frame E (bc_conn s) = Ready (Ok (Some (fs ! ?n), c'))"
    "sent c' = sent (bc_conn s)" "conn_matched fs (Suc ?n) (bc_events s) c'" by force
  have c: "?c = c'" by (rule read_frame_conn_found [OF c'(1)])
  have r': "r = reply_result E cmd (fs ! ?n)" using r await_reply_Ready [OF c'(1), of cmd] by simp
  then have s: "?s = deliver i (Reply r) (s\<lparr>bc_conn := c', bc_task := TaskIdle\<rparr>)"
    using reply_result_no_panic [of E cmd "fs ! ?n"] c by (simp add: finish_call_def split: res.splits)
  have n': "completed ?s = Suc ?n" unfolding s using l(3) by (simp add: completed_def)
  have "slot_ok E fs ?s k" if "k < Suc ?n" for k
  proof (cases "k = ?n")
    case True
    then show ?thesis unfolding s slot_ok_def using l(1) r' by simp
  next
    case False
    with that have k: "k < ?n" by simp
    with m(1) have "slot_ok E fs s k" by (simp add: matched_def)
    with l(4) [OF k] show ?thesis unfolding s slot_ok_def by (auto simp: split_beta)
  qed
  with m(1) n' c' show ?thesis unfolding s by (simp add: matched_def)
qed

lemma matched_work:
  assumes "atoi_reads_decimal E" "buf_work E s s'" "buf_inv s" "matched E fs s" "replies_from fs (bc_events s)"
  shows "matched E fs s'"
  using assms(2)
proof cases
  case (work_admit m ms)
  then show ?thesis
    using matched_not_crashed [OF assms(4)] by (intro matched_frame [OF assms(4)]) (simp_all add: completed_def)
next
  case (work_start cmd i q)
  from assms(3) work_start(3) have "cmd_fits cmd" unfolding buf_inv_def by simp
  from matched_start(1) [OF assms(4) work_start(2,3) this] work_start(1) show ?thesis by simp
next
  case (work_reply cmd i r)
  from matched_reply [OF assms(1,3,4,5) work_reply(2,3)] work_reply(1) show ?thesis by simp
next
  case work_end
  then show ?thesis
    using matched_not_crashed [OF assms(4)] by (intro matched_frame [OF assms(4)]) (simp_all add: completed_def)
qed

lemma work_events: "buf_work E s s' \<Longrightarrow> bc_events s' = bc_events s"
  by (induction rule: buf_work.induct)
    (auto simp: start_call_def finish_call_def crash_task_def Let_def split: res.splits)

lemma matched_issue:
  assumes "replies_from fs (bc_events s) \<longrightarrow> matched E fs s"
  shows "replies_from fs (bc_events (issue cmd s)) \<longrightarrow> matched E fs (issue cmd s)"
proof -
  have "matched E fs (issue cmd s)" if "matched E fs s"
    by (rule matched_frame [OF that]) (use matched_not_crashed [OF that] in \<open>simp_all add: issue_def completed_def\<close>)
  moreover have "bc_events (issue cmd s) = bc_events s" by (simp add: issue_def)
  ultimately show ?thesis using assms by simp
qed

lemma matched_step:
  assumes "atoi_reads_decimal E" "buf_step E s s'" "buf_inv s" "replies_from fs (bc_events s) \<longrightarrow> matched E fs s"
  shows "replies_from fs (bc_events s') \<longrightarrow> matched E fs s'"
  using assms(2)
proof cases
  case step_work
  with matched_work [OF assms(1) step_work assms(3)] work_events [OF step_work] assms(4) show ?thesis by simp
next
  case (step_get key)
  with matched_issue [OF assms(4)] show ?thesis by (simp add: buffered_get_def)
next
  case (step_set key val)
  with matched_issue [OF assms(4)] show ?thesis by (simp add: buffered_set_def)
next
  case (step_net ev)
  let ?s = "s\<lparr>bc_conn := (bc_conn s)\<lparr>inbound := inbound (bc_conn s) @ [ev]\<rparr>, bc_events := bc_events s @ [ev]\<rparr>"
  have "matched E fs ?s" if r: "replies_from fs (bc_events s @ [ev])"
  proof -
    from assms(4) replies_from_less [OF r] have m: "matched E fs s" by simp
    have n: "completed ?s = completed s" by (simp add: completed_def)
    from m conn_matched_net [OF _ r, of "completed s" "bc_conn s"] show ?thesis
      by (simp add: matched_def slot_ok_def n)
  qed
  with step_net show ?thesis by simp
next
  case (step_give_up i)
  have "matched E fs (give_up i s)" if "matched E fs s"
    by (rule matched_frame [OF that]) (use matched_not_crashed [OF that] in \<open>auto simp: give_up_def completed_def\<close>)
  moreover have "bc_events (give_up i s) = bc_events s" by (simp add: give_up_def)
  ultimately show ?thesis using assms(4) step_give_up(1) by simp
next
  case step_drop
  have "matched E fs (s\<lparr>bc_handles := False\<rparr>)" if "matched E fs s"
    by (rule matched_frame [OF that]) (use matched_not_crashed [OF that] in \<open>simp_all add: completed_def\<close>)
  with assms(4) step_drop(1) show ?thesis by simp
qed

lemma buf_reach_matched:
  assumes "atoi_reads_decimal E" "buf_reach E buffer_new s" "replies_from fs (bc_events s)"
  shows "matched E fs s"
proof -
  have "buf_inv s \<and> (replies_from fs (bc_events s) \<longrightarrow> matched E fs s)"
    using assms(2) by (rule reach_invariant)
      (use matched_new buf_inv_new buf_step_inv matched_step [OF assms(1)] in blast)+
  with assms(3) show ?thesis by blast
qed

text \<open>The value in the slot is what a call of the plain client would have returned for that reply.\<close>

lemma run_call_reply:
  assumes "atoi_reads_decimal E" "expects (f # fs) c" "cmd_fits cmd"
  shows "\<exists>c'. run_call E cmd c =
    (case reply_result E cmd f of Ok a \<Rightarrow> Done (Ok (a, c')) | Err e \<Rightarrow> Done (Err e) | Panic p \<Rightarrow> Done (Panic p))"
proof -
  obtain d where d: "send_request (Ok (buf_request cmd)) c = Done (Ok ((), d))" "expects (f # fs) d"
    using send_request_sends [OF assms(2) refl] assms(3) by (auto simp: cmd_fits_def)
  obtain c' where "read_frame E d = Ready (Ok (Some f, c'))" using expects_read [OF assms(1) d(2)] by blast
  with d(1) show ?thesis
    by (cases f) (auto simp: run_call_halves read_response_def reply_result_def intro: exI [of _ c'])
qed

section \<open>Every request is answered\<close>

definition todo :: "bufcl \<Rightarrow> nat" where
  "todo s = 3 * length (bc_waiting s) + 2 * length (bc_queue s) + (case bc_task s of InFlight _ _ \<Rightarrow> 1 | _ \<Rightarrow> 0)"

definition quiet :: "bufcl \<Rightarrow> bool" where
  "quiet s \<longleftrightarrow> outstanding s = {}"

lemma work_next: "buf_work E s s' \<Longrightarrow> bc_next s' = bc_next s"
  by (induction rule: buf_work.induct)
    (auto simp: start_call_def finish_call_def crash_task_def Let_def split: res.splits)

text \<open>All replies have been sent and there is one for every request.\<close>

definition served :: "frame list \<Rightarrow> bufcl \<Rightarrow> bool" where
  "served fs s \<longleftrightarrow> replies_from fs (bc_events s) \<and> bytes_of (bc_events s) = concat (map encode fs) \<and>
     length (bc_log s @ bc_queue s @ bc_waiting s) \<le> length fs"

lemma reply_there:
  assumes "atoi_reads_decimal E" "buf_inv s" "matched E fs s" "served fs s" "bc_task s = InFlight cmd i"
  obtains r where "await_reply E cmd (bc_conn s) = Some r" "\<And>p. r \<noteq> Panic p"
proof -
  note l = completed_in_flight [OF assms(2,5)]
  have n: "completed s < length fs" using l(2) assms(4) by (simp add: served_def)
  have "length (concat (map encode (take (Suc (completed s)) fs))) \<le> length (concat (map encode fs))"
    by (metis append_take_drop_id concat_append le_add1 length_append map_append)
  with assms(4) have "\<not> length (bytes_of (bc_events s)) < length (concat (map encode (take (Suc (completed s)) fs)))"
    by (simp add: served_def del: length_concat)
  moreover have c: "conn_matched fs (completed s) (bc_events s) (bc_conn s)" and r: "replies_from fs (bc_events s)"
    using assms(3,4) by (simp_all add: matched_def served_def)
  ultimately obtain c' where "read_frame E (bc_conn s) = Ready (Ok (Some (fs ! completed s), c'))"
    using conn_matched_read [OF assms(1) r c] n by fastforce
  from await_reply_Ready [OF this] reply_result_no_panic that show thesis by blast
qed

lemma buf_progress:
  assumes "atoi_reads_decimal E" "buf_inv s" "matched E fs s" "served fs s" "\<not> quiet s"
  shows "\<exists>s'. buf_work E s s' \<and> served fs s' \<and> todo s' < todo s"
proof (cases "bc_task s")
  case TaskIdle
  show ?thesis
  proof (cases "bc_queue s")
    case Nil
    with assms(5) TaskIdle obtain m ms where w: "bc_waiting s = m # ms"
      by (cases "bc_waiting s") (simp_all add: quiet_def outstanding_def)
    from buf_work.work_admit [of s m ms E] w Nil show ?thesis
      using assms(4) TaskIdle by (intro exI conjI) (assumption | auto simp: channel_limit_def served_def todo_def)+
  next
    case (Cons m q)
    then obtain cmd i where q: "bc_queue s = (cmd, i) # q" by (cases m) simp
    have "cmd_fits cmd" using assms(2) q by (simp add: buf_inv_def)
    note st = matched_start [OF assms(3) TaskIdle q this]
    have "served fs (start_call cmd i s)" "todo (start_call cmd i s) < todo s"
      using assms(4) st q TaskIdle by (simp_all add: served_def todo_def)
    with buf_work.work_start [of s cmd i q E] TaskIdle q show ?thesis by blast
  qed
next
  case (InFlight cmd i)
  from reply_there [OF assms(1-4) InFlight] obtain r where r: "await_reply E cmd (bc_conn s) = Some r" "\<And>p. r \<noteq> Panic p"
    by blast
  let ?s = "finish_call i (read_frame_conn E (bc_conn s)) r s"
  have "served fs ?s" "todo ?s < todo s"
    using assms(4) r(2) InFlight by (auto simp: finish_call_def served_def todo_def split: res.splits)
  with buf_work.work_reply [OF InFlight r(1)] show ?thesis by blast
next
  case TaskCrashed
  with matched_not_crashed [OF assms(3)] show ?thesis by simp
next
  case TaskEnded
  with assms(2,5) show ?thesis by (auto simp: buf_inv_def quiet_def outstanding_def)
qed

lemma all_answered:
  assumes "atoi_reads_decimal E" "buf_inv s" "matched E fs s" "served fs s"
  shows "\<exists>s'. (buf_work E)\<^sup>*\<^sup>* s s' \<and> quiet s' \<and> buf_inv s' \<and> bc_next s' = bc_next s \<and> matched E fs s'"
  using assms(2-4)
proof (induction "todo s" arbitrary: s rule: less_induct)
  case less
  show ?case
  proof (cases "quiet s")
    case True
    with less.prems show ?thesis by blast
  next
    case False
    from buf_progress [OF assms(1) less.prems False] obtain s' where
      s': "buf_work E s s'" "served fs s'" "todo s' < todo s" by blast
    have "replies_from fs (bc_events s)" using less.prems(3) by (simp add: served_def)
    from matched_work [OF assms(1) s'(1) less.prems(1,2) this] work_inv [OF s'(1) less.prems(1)]
    obtain s'' where s'': "(buf_work E)\<^sup>*\<^sup>* s' s''" "quiet s''" "buf_inv s''" "bc_next s'' = bc_next s'" "matched E fs s''"
      using less.hyps [OF s'(3)] s'(2) by blast
    from converse_rtranclp_into_rtranclp [OF s'(1) s''(1)] s''(2-) work_next [OF s'(1)] show ?thesis by auto
  qed
qed


section \<open>A run\<close>

definition demo_buf :: "nat \<Rightarrow> bufcl" where
  "demo_buf k =
     (let s1 = issue (BGet ''k'') buffer_new;
          s2 = s1\<lparr>bc_waiting := [], bc_queue := [(BGet ''k'', 0)]\<rparr>;
          s3 = start_call (BGet ''k'') 0 s2;
          ev = Recv (encode Null);
          s4 = s3\<lparr>bc_conn := (bc_conn s3)\<lparr>inbound := inbound (bc_conn s3) @ [ev]\<rparr>, bc_events := bc_events s3 @ [ev]\<rparr>
      in [buffer_new, s1, s2, s3, s4] ! k)"

lemma demo_cmd_fits: "cmd_fits (BGet ''k'')"
  by (simp add: cmd_fits_def isize_max_def)

lemma demo_buf_reach: "buf_reach E buffer_new (demo_buf 4)"
proof -
  have 1: "buf_step E (demo_buf 0) (demo_buf 1)"
    using buf_step.step_get [OF _ demo_cmd_fits, of "demo_buf 0" E]
    by (simp add: demo_buf_def buffer_new_def buffered_get_def)
  have 2: "buf_step E (demo_buf 1) (demo_buf 2)"
    using buf_step.step_work [OF buf_work.work_admit [of "demo_buf 1" "(BGet ''k'', 0)" "[]" E]]
    by (simp add: demo_buf_def issue_def buffer_new_def channel_limit_def)
  have 3: "buf_step E (demo_buf 2) (demo_buf 3)"
    using buf_step.step_work [OF buf_work.work_start [of "demo_buf 2" "BGet ''k''" 0 "[]" E]]
    by (simp add: demo_buf_def issue_def buffer_new_def numeral_3_eq_3)
  have 4: "buf_step E (demo_buf 3) (demo_buf 4)"
    using buf_step.step_net [of E "demo_buf 3" "Recv (encode Null)"]
    by (simp add: demo_buf_def numeral_3_eq_3 Let_def)
  have 0: "demo_buf 0 = buffer_new" by (simp add: demo_buf_def)
  from 1 2 3 4 show ?thesis unfolding 0 by (meson r_into_rtranclp rtranclp.rtrancl_into_rtrancl)
qed

lemma demo_buf_served:
  "served [Null] (demo_buf 4)" "replies_from [Null] (bc_events (demo_buf 4))" "bc_next (demo_buf 4) = 1"
  "bc_gone (demo_buf 4) = {}" "bc_task (demo_buf 4) = InFlight (BGet ''k'') 0" "bc_log (demo_buf 4) = [(BGet ''k'', 0)]"
proof -
  have d: "demo_buf 0 = buffer_new" "demo_buf 2 = buffer_new\<lparr>bc_next := 1, bc_queue := [(BGet ''k'', 0)]\<rparr>"
    by (simp_all add: demo_buf_def issue_def buffer_new_def)
  have m: "matched E [Null] (demo_buf 2)" for E
    unfolding d(2) by (rule matched_frame [OF matched_new]) (simp_all add: buffer_new_def completed_def)
  have 3: "demo_buf 3 = start_call (BGet ''k'') 0 (demo_buf 2)" by (simp add: demo_buf_def numeral_3_eq_3)
  have t: "bc_task (demo_buf 2) = TaskIdle" "bc_queue (demo_buf 2) = [(BGet ''k'', 0)]"
    unfolding d(2) by (simp_all add: buffer_new_def)
  note st = matched_start [OF m t demo_cmd_fits, folded 3]
  have 4: "demo_buf 4 = (demo_buf 3)\<lparr>bc_conn := (bc_conn (demo_buf 3))\<lparr>inbound := inbound (bc_conn (demo_buf 3)) @ [Recv (encode Null)]\<rparr>,
    bc_events := bc_events (demo_buf 3) @ [Recv (encode Null)]\<rparr>" by (simp add: demo_buf_def numeral_3_eq_3 Let_def)
  show r: "replies_from [Null] (bc_events (demo_buf 4))"
    unfolding 4 by (simp add: st(5) d(2)) (simp add: buffer_new_def replies_from_def bytes_of_def CRLF_def isize_max_def)
  show "served [Null] (demo_buf 4)" using r
    unfolding 4 served_def by (simp add: st d(2)) (simp add: buffer_new_def bytes_of_def)
  show "bc_next (demo_buf 4) = 1" "bc_task (demo_buf 4) = InFlight (BGet ''k'') 0" "bc_log (demo_buf 4) = [(BGet ''k'', 0)]"
    unfolding 4 by (simp_all add: st d(2)) (simp_all add: buffer_new_def)
  show "bc_gone (demo_buf 4) = {}"
    by (auto simp: demo_buf_def Let_def start_call_def issue_def buffer_new_def crash_task_def split: res.splits)
qed


section \<open>Properties\<close>

text \<open>
  C11: requesters that share a connection never get each other's replies. Whatever the interleaving
  of requests, of requesters that give up at any point, of the task and of the packets, if the
  server has sent (some of) the bytes of the replies \<open>fs\<close> then the task is alive, the requests are on
  the wire in the order in which their messages were taken from the channel, and the k-th of them that
  was completed returns to its requester exactly what the plain client makes of the k-th reply, a
  server error included, unless the requester is gone.
\<close>

theorem buffered_replies_matched:
  assumes "atoi_reads_decimal E" "buf_reach E buffer_new s" "replies_from fs (bc_events s)"
  shows "bc_task s \<noteq> TaskCrashed \<and> completed s \<le> length fs \<and>
    sent (bc_conn s) = concat (map (\<lambda>m. encode (buf_request (fst m))) (bc_log s)) \<and>
    (\<forall>k<completed s. let (cmd, i) = bc_log s ! k in
       i \<in> bc_gone s \<or> call_returns s i = Some (reply_result E cmd (fs ! k)))"
  using buf_reach_matched [OF assms]
  by (auto simp: matched_def conn_matched_def slot_ok_def call_returns_def split_beta)

theorem buffered_replies_matched_witness:
  "\<exists>s. buf_reach (ref_env True) buffer_new s \<and> completed s = 1 \<and> call_returns s 0 = Some (Ok None)"
proof -
  let ?E = "ref_env True" and ?s = "demo_buf 4"
  note d = demo_buf_served
  note inv = buf_reach_inv [OF demo_buf_reach [of ?E]]
  from reply_there [OF ref_env_atoi inv buf_reach_matched [OF ref_env_atoi demo_buf_reach d(2)] d(1) d(5)]
  obtain r where r: "await_reply ?E (BGet ''k'') (bc_conn ?s) = Some r" "\<And>p. r \<noteq> Panic p" by blast
  define s where "s = finish_call 0 (read_frame_conn ?E (bc_conn ?s)) r ?s"
  have "buf_work ?E ?s s" unfolding s_def by (rule buf_work.work_reply [OF d(5) r(1)])
  then have reach: "buf_reach ?E buffer_new s" and ev: "bc_events s = bc_events ?s"
    using demo_buf_reach [of ?E] work_events by (auto intro: rtranclp.rtrancl_into_rtrancl buf_step.step_work)
  have s: "bc_task s = TaskIdle" "bc_log s = [(BGet ''k'', 0)]" "bc_gone s = {}"
    using r(2) d(4,6) by (auto simp: s_def finish_call_def split: res.splits)
  then have "completed s = 1" by (simp add: completed_def)
  moreover have "reply_result ?E (BGet ''k'') Null = Ok None" by (simp add: reply_result_def)
  ultimately show ?thesis
    using buffered_replies_matched [OF ref_env_atoi reach, of "[Null]"] ev d(2) s reach by auto
qed

text \<open>
  The channel is first in, first out and bounded, and no request is forgotten. In every reachable
  state, with any network behaviour, the requests written, queued and waiting for a place are, in
  this order, in the order in which they were issued; at most 32 are queued; and every request issued
  has its result, or is still on its way, or was given up.
\<close>

theorem buffered_order:
  assumes "buf_reach E buffer_new s"
  shows "sorted_wrt (<) (map snd (bc_log s @ bc_queue s @ bc_waiting s)) \<and> length (bc_queue s) \<le> 32 \<and>
    (\<forall>i<bc_next s. i \<in> bc_gone s \<or> i \<in> dom (bc_slots s) \<or> i \<in> outstanding s)"
  using buf_reach_inv [OF assms] by (auto simp: buf_inv_def channel_limit_def)

theorem buffered_order_witness:
  "0 \<in> dom (bc_slots (demo_buf 4)) \<or> 0 \<in> outstanding (demo_buf 4)"
  using buffered_order [OF demo_buf_reach [of "ref_env True"]] demo_buf_served(3,4) by auto

text \<open>
  C34: every request is answered. When the server has sent all replies \<open>fs\<close>, at least one for each
  request that was not given up before it was queued, the channel and the task can go on by
  themselves to a state in which nothing is outstanding: every requester that has not given up has
  its result.
\<close>

theorem buffered_all_answered:
  assumes "atoi_reads_decimal E" "buf_reach E buffer_new s" "replies_from fs (bc_events s)"
    and "bytes_of (bc_events s) = concat (map encode fs)"
    and "length (bc_log s @ bc_queue s @ bc_waiting s) \<le> length fs"
  shows "\<exists>s'. (buf_work E)\<^sup>*\<^sup>* s s' \<and> outstanding s' = {} \<and>
    (\<forall>i<bc_next s. i \<in> bc_gone s' \<or> i \<in> dom (bc_slots s'))"
proof -
  have "served fs s" using assms(3-) by (simp add: served_def)
  from all_answered [OF assms(1) buf_reach_inv [OF assms(2)] buf_reach_matched [OF assms(1-3)] this]
  obtain s' where "(buf_work E)\<^sup>*\<^sup>* s s'" "quiet s'" "buf_inv s'" "bc_next s' = bc_next s" by blast
  moreover from this have "\<forall>i<bc_next s. i \<in> bc_gone s' \<or> i \<in> dom (bc_slots s')"
    by (auto simp: buf_inv_def quiet_def)
  ultimately show ?thesis by (auto simp: quiet_def)
qed

theorem buffered_all_answered_witness:
  "\<exists>s'. (buf_work (ref_env True))\<^sup>*\<^sup>* (demo_buf 4) s' \<and> outstanding s' = {}"
proof -
  note d = demo_buf_served
  have "bytes_of (bc_events (demo_buf 4)) = concat (map encode [Null])"
    "length (bc_log (demo_buf 4) @ bc_queue (demo_buf 4) @ bc_waiting (demo_buf 4)) \<le> length [Null]"
    using d(1) unfolding served_def by blast+
  from buffered_all_answered [OF ref_env_atoi demo_buf_reach d(2) this] show ?thesis by blast
qed

end
