(* ===== verification/Blocking_Client.thy ===== *)
theory Blocking_Client
  imports Client
begin

text \<open>
  \<open>src/mini-redis/src/clients/blocking_client.rs\<close>: the client without \<open>async\<close>. Every operation
  runs the one of \<open>Client\<close> or \<open>Subscriber\<close> on a runtime of its own, which returns what the future
  returns; while the future waits, the caller is blocked. The iterator over messages is the
  operation with behaviour of its own.
\<close>

section \<open>Operations\<close>

definition blocking_get :: "env \<Rightarrow> bytes \<Rightarrow> connection \<Rightarrow> bytes option call" where
  "blocking_get E key self = client_get E key self"

definition blocking_set :: "env \<Rightarrow> bytes \<Rightarrow> bytes \<Rightarrow> connection \<Rightarrow> unit call" where
  "blocking_set E key val self = client_set E key val self"

definition blocking_set_expires :: "env \<Rightarrow> bytes \<Rightarrow> bytes \<Rightarrow> duration \<Rightarrow> connection \<Rightarrow> unit call" where
  "blocking_set_expires E key val expiration self = client_set_expires E key val expiration self"

definition blocking_publish :: "env \<Rightarrow> bytes \<Rightarrow> bytes \<Rightarrow> connection \<Rightarrow> u64 call" where
  "blocking_publish E channel message self = client_publish E channel message self"

text \<open>\<open>subscribe\<close> consumes the client and gives a subscriber: its channels and the connection.\<close>

definition blocking_subscribe :: "env \<Rightarrow> bytes list \<Rightarrow> connection \<Rightarrow> bytes list call" where
  "blocking_subscribe E channels self = client_subscribe E channels self"

definition bsub_next_message :: "env \<Rightarrow> connection \<Rightarrow> message option call" where
  "bsub_next_message E self = next_message E self"

definition bsub_subscribe :: "env \<Rightarrow> bytes list \<Rightarrow> bytes list \<Rightarrow> connection \<Rightarrow> bytes list call" where
  "bsub_subscribe E channels subscribed self = subscriber_subscribe E channels subscribed self"

definition bsub_unsubscribe :: "env \<Rightarrow> bytes list \<Rightarrow> bytes list \<Rightarrow> connection \<Rightarrow> bytes list call" where
  "bsub_unsubscribe E channels subscribed self = subscriber_unsubscribe E channels subscribed self"

section \<open>The iterator\<close>

text \<open>\<open>Iterator::next\<close>: the result of \<open>next_message\<close>, transposed.\<close>

datatype iter_result = IterEnd | Item "(message, crate_error) res" | IterBlocked

definition iter_next :: "env \<Rightarrow> connection \<Rightarrow> iter_result \<times> connection" where
  "iter_next E self =
     (case next_message E self of
        Done (Ok (None, _)) \<Rightarrow> (IterEnd, read_frame_conn E self)
      | Done (Ok (Some m, _)) \<Rightarrow> (Item (Ok m), read_frame_conn E self)
      | Done (Err e) \<Rightarrow> (Item (Err e), read_frame_conn E self)
      | Done (Panic p) \<Rightarrow> (Item (Panic p), self)
      | Blocked c \<Rightarrow> (IterBlocked, c))"

text \<open>A \<open>for\<close> loop over the iterator, at most \<open>n\<close> turns of it; \<open>True\<close> if the iterator ended.\<close>

fun iter_loop :: "env \<Rightarrow> nat \<Rightarrow> connection \<Rightarrow> (message, crate_error) res list \<times> bool" where
  "iter_loop E 0 c = ([], False)"
| "iter_loop E (Suc n) c =
     (case iter_next E c of
        (IterEnd, c) \<Rightarrow> ([], True)
      | (Item r, c) \<Rightarrow> apfst (Cons r) (iter_loop E n c)
      | (IterBlocked, c) \<Rightarrow> ([], False))"

section \<open>A stream that is closed after its last frame\<close>

definition closes_after :: "frame list \<Rightarrow> connection \<Rightarrow> bool" where
  "closes_after fs c \<longleftrightarrow>
     (\<exists>chunks. inbound c = map Recv chunks @ [Recv []] \<and> [] \<notin> set chunks \<and>
        buffer c @ concat chunks = concat (map encode fs)) \<and>
     length (concat (map encode fs)) \<le> isize_max \<and> list_all flat fs \<and> list_all line_safe fs"

lemma closes_after_read:
  assumes "atoi_reads_decimal E" "closes_after (f # fs) c"
  obtains c' where "read_frame E c = Ready (Ok (Some f, c'))" "closes_after fs c'" "sent c' = sent c"
proof -
  from assms(2) obtain chunks where c: "inbound c = map Recv chunks @ [Recv []]" "[] \<notin> set chunks"
    "buffer c @ concat chunks = concat (map encode [f]) @ concat (map encode fs)"
    "length (buffer c @ concat chunks) \<le> isize_max"
    by (auto simp: closes_after_def)
  have ok: "list_all flat [f]" "list_all line_safe [f]" using assms(2) by (simp_all add: closes_after_def)
  from read_frames_encode [OF assms(1) ok c(3,4,1,2)] obtain used rest left where
    u: "left @ concat rest = concat (map encode fs)" "chunks = used @ rest"
    and r: "read_frames E (length [f]) c = Some ([f], c\<lparr>buffer := left, inbound := map Recv rest @ [Recv []]\<rparr>)"
    by blast
  let ?c = "c\<lparr>buffer := left, inbound := map Recv rest @ [Recv []]\<rparr>"
  from r have "read_frame E c = Ready (Ok (Some f, ?c))"
    by (auto split: read_poll.splits res.splits option.splits)
  moreover have "closes_after fs ?c"
    using assms(2) u c(2) by (auto simp: closes_after_def)
  ultimately show thesis by (rule that) simp
qed

lemma closes_now:
  assumes "closes_after [] c"
  shows "read_frame E c = Ready (Ok (None, c\<lparr>inbound := []\<rparr>))" "read_frame_conn E c = c"
proof -
  from assms obtain chunks where e: "inbound c = map Recv chunks @ [Recv []]" "[] \<notin> set chunks" "buffer c = []" "concat chunks = []"
    by (auto simp: closes_after_def)
  then have "chunks = []" by (cases chunks) auto
  with e show "read_frame E c = Ready (Ok (None, c\<lparr>inbound := []\<rparr>))" "read_frame_conn E c = c"
    using parse_frame_empty [of c E] by (simp_all add: read_frame.simps read_frame_conn.simps)
qed

text \<open>The frame of a published message.\<close>

definition message_frame :: "message \<Rightarrow> frame" where
  "message_frame m = Array [Bulk ''message'', Bulk (msg_channel m), Bulk (msg_content m)]"

definition message_utf8 :: "message \<Rightarrow> bool" where
  "message_utf8 m \<longleftrightarrow> utf8 (msg_channel m) \<and> utf8 (msg_content m)"

lemma next_message_frame:
  assumes "read_frame E c = Ready (Ok (Some (message_frame m), c'))" "message_utf8 m"
  shows "next_message E c = Done (Ok (Some m, c'))"
  using assms by (simp add: next_message_def message_frame_def message_utf8_def from_utf8_def)

lemma iter_next_closed: "closes_after [] c \<Longrightarrow> iter_next E c = (IterEnd, c)"
  by (simp add: iter_next_def next_message_def closes_now)

lemma iter_messages:
  assumes "atoi_reads_decimal E" "list_all message_utf8 ms" "closes_after (map message_frame ms) c" "length ms < n"
  shows "iter_loop E n c = (map Ok ms, True)"
  using assms(2-)
proof (induction ms arbitrary: c n)
  case Nil
  then show ?case by (cases n) (simp_all add: iter_next_closed)
next
  case (Cons m ms)
  then obtain k where k: "n = Suc k" "length ms < k" by (cases n) simp_all
  from Cons.prems have "closes_after (message_frame m # map message_frame ms) c" by simp
  from closes_after_read [OF assms(1) this] obtain c' where
    c': "read_frame E c = Ready (Ok (Some (message_frame m), c'))" "closes_after (map message_frame ms) c'" by blast
  have "iter_next E c = (Item (Ok m), c')"
    using next_message_frame [OF c'(1)] read_frame_conn_found [OF c'(1)] Cons.prems(1) by (simp add: iter_next_def)
  moreover from Cons.IH [OF _ c'(2) k(2)] Cons.prems(1) have "iter_loop E k c' = (map Ok ms, True)" by simp
  ultimately show ?case by (simp add: k(1))
qed

text \<open>Bytes that are no frame stay at the front of the buffer.\<close>

lemma iter_next_bad: "parse_frame E c = Err e \<Longrightarrow> iter_next E c = (Item (Err e), c)"
  by (simp add: iter_next_def next_message_def read_frame.simps read_frame_conn.simps)

section \<open>Properties\<close>

text \<open>
  C38: iterating over a subscription yields exactly the messages published on it. If the server
  sends the frames of the messages \<open>ms\<close> (texts in UTF-8), cut into packets in any way, and closes
  the connection, then a \<open>for\<close> loop over the iterator runs once per message, in order and without an
  error, and ends.
\<close>

theorem iterator_yields_messages:
  assumes "atoi_reads_decimal E" "list_all message_utf8 ms" "concat chunks = concat (map encode (map message_frame ms))"
    and "[] \<notin> set chunks" "length (concat chunks) \<le> isize_max" "list_all flat (map message_frame ms)"
    and "length ms < n"
  shows "iter_loop E n (new_connection (map Recv chunks @ [Recv []])) = (map Ok ms, True)"
proof -
  have "list_all line_safe (map message_frame ms)" by (simp add: list_all_iff message_frame_def)
  with assms(3-6) have "closes_after (map message_frame ms) (new_connection (map Recv chunks @ [Recv []]))"
    unfolding closes_after_def by (intro conjI exI [of _ chunks]) (simp_all add: new_connection_def del: length_concat)
  from iter_messages [OF assms(1,2) this assms(7)] show ?thesis .
qed

theorem iterator_yields_messages_witness:
  "iter_loop (ref_env True) 2 (new_connection (map Recv [encode (message_frame \<lparr>msg_channel = ''c'', msg_content = ''hi''\<rparr>)] @ [Recv []])) =
     ([Ok \<lparr>msg_channel = ''c'', msg_content = ''hi''\<rparr>], True)"
proof -
  let ?m = "\<lparr>msg_channel = ''c'', msg_content = ''hi''\<rparr>"
  have f: "flat (message_frame ?m)" by (simp add: message_frame_def isize_max_def)
  have "iter_loop (ref_env True) 2 (new_connection (map Recv [encode (message_frame ?m)] @ [Recv []])) = (map Ok [?m], True)"
    by (rule iterator_yields_messages)
      (use f in \<open>simp_all add: ref_env_atoi message_utf8_def utf8_def message_frame_def isize_max_def CRLF_def dec.simps\<close>)
  then show ?thesis by simp
qed

text \<open>
  An error does not end the iterator. Once bytes that are no frame stand at the front of the
  stream, every call of \<open>next\<close> returns the same error and leaves the connection as it is, so a loop
  that only skips errors never ends, although \<open>parse_frame\<close> says that such bytes should terminate
  the connection.
\<close>

theorem iterator_repeats_error:
  assumes "parse_frame E c = Err e"
  shows "iter_loop E n c = (replicate n (Err e), False)"
  by (induction n) (simp_all add: iter_next_bad [OF assms])

theorem iterator_repeats_error_witness:
  "iter_loop (ref_env True) 5 ((new_connection [Recv []])\<lparr>buffer := ''x''\<rparr>) =
     (replicate 5 (Err (Text (invalid_type_byte (CHR ''x'')))), False)"
proof (rule iterator_repeats_error)
  show "parse_frame (ref_env True) ((new_connection [Recv []])\<lparr>buffer := ''x''\<rparr>) =
      Err (Text (invalid_type_byte (CHR ''x'')))"
    by (simp add: parse_frame_def new_connection_def check.simps get_u8_def remaining_def chunk_def advance_def box_frame_error_def)
qed

end
