(* ===== verification/Cli.thy ===== *)
theory Cli
  imports Blocking_Client
begin

text \<open>
  \<open>src/mini-redis/src/bin/cli.rs\<close>: the command line client. \<open>main\<close> runs one operation of the
  client and prints its result; a subscription prints messages until the server closes it. Parsing
  of the arguments is clap's, except for the expiration.
\<close>

section \<open>Arguments\<close>

datatype parse_int_error = EmptyInt | InvalidDigit | PosOverflow

text \<open>\<open>str::parse::<u64>\<close>: an optional plus sign and digits, read from the left.\<close>

fun u64_digits :: "nat \<Rightarrow> bytes \<Rightarrow> (u64, parse_int_error) res" where
  "u64_digits acc [] = Ok (of_nat acc)"
| "u64_digits acc (c # cs) =
     (if \<not> is_digit c then Err InvalidDigit
      else if 2 ^ 64 \<le> 10 * acc + digit_val c then Err PosOverflow
      else u64_digits (10 * acc + digit_val c) cs)"

definition parse_u64 :: "bytes \<Rightarrow> (u64, parse_int_error) res" where
  "parse_u64 src =
     (if src = [] then Err EmptyInt
      else if src = ''+'' \<or> src = ''-'' then Err InvalidDigit
      else u64_digits 0 (if hd src = CHR ''+'' then tl src else src))"

definition duration_from_ms_str :: "bytes \<Rightarrow> (duration, parse_int_error) res" where
  "duration_from_ms_str src = and_then (parse_u64 src) (\<lambda>ms. Ok (from_millis ms))"

datatype cli_command =
    CliPing "bytes option"
  | CliGet bytes
  | CliSet bytes bytes "duration option"
  | CliPublish bytes bytes
  | CliSubscribe "bytes list"

section \<open>The main function\<close>

datatype cli_exit = CliOk connection | CliErr crate_error | CliPanic panic | CliWaits connection

text \<open>The \<open>.await?\<close> of an operation: what has been printed before stays printed.\<close>

fun cli_await :: "'a call \<Rightarrow> ('a \<Rightarrow> connection \<Rightarrow> bytes list \<times> cli_exit) \<Rightarrow> bytes list \<times> cli_exit" where
  "cli_await (Done (Ok (a, c))) f = f a c"
| "cli_await (Done (Err e)) f = ([], CliErr e)"
| "cli_await (Done (Panic p)) f = ([], CliPanic p)"
| "cli_await (Blocked c) f = ([], CliWaits c)"

lemma cli_await_cong [fundef_cong]:
  assumes "r = r'" "\<And>a c. r' = Done (Ok (a, c)) \<Longrightarrow> f a c = g a c"
  shows "cli_await r f = cli_await r' g"
  using assms by (cases "(r', g)" rule: cli_await.cases) auto

definition show_value :: "env \<Rightarrow> bytes \<Rightarrow> bytes" where
  "show_value E val =
     (case from_utf8 val of Some string \<Rightarrow> [CHR 0x22] @ string @ [CHR 0x22] | None \<Rightarrow> debug_bytes E val)"

definition show_message :: "env \<Rightarrow> message \<Rightarrow> bytes" where
  "show_message E msg =
     ''got message from the channel: '' @ msg_channel msg @ ''; message = '' @ debug_bytes E (msg_content msg)"

text \<open>A frame that is read uses up bytes, so the loop over the messages ends or waits.\<close>

fun event_size :: "read_event \<Rightarrow> nat" where
  "event_size (Recv bs) = Suc (length bs)"
| "event_size RecvErr = 1"

definition conn_size :: "connection \<Rightarrow> nat" where
  "conn_size c = length (buffer c) + sum_list (map event_size (inbound c))"

lemma parse_frame_uses: "parse_frame E c = Ok (Some f, c') \<Longrightarrow> conn_size c' < conn_size c"
proof -
  assume p: "parse_frame E c = Ok (Some f, c')"
  then obtain t where t: "check E (cur (buffer c) 0) = Ok t" "c' = c\<lparr>buffer := drop (position t) (buffer c)\<rparr>"
    by (auto simp: parse_frame_def Let_def res_conv split: res.splits frame_error.splits)
  with check_bounds(1) [OF t(1)] have "length (buffer c') < length (buffer c)" "inbound c' = inbound c" by auto
  then show ?thesis by (simp add: conn_size_def)
qed

lemma read_frame_uses: "read_frame E c = Ready (Ok (Some f, c')) \<Longrightarrow> conn_size c' < conn_size c"
proof (induction E c rule: read_frame.induct)
  case (1 E c)
  show ?case
  proof (cases "parse_frame E c")
    case (Ok p)
    obtain o' d where p: "p = (o', d)" by (cases p)
    show ?thesis
    proof (cases o')
      case None
      with Ok p have d: "d = c" by (simp add: parse_frame_None)
      with "1.prems" Ok p None obtain bs evs where i: "inbound d = Recv bs # evs" "bs \<noteq> []"
        and r: "read_frame E (d\<lparr>buffer := buffer d @ bs, inbound := evs\<rparr>) = Ready (Ok (Some f, c'))"
        by (auto simp: read_frame.simps [of E c] split: list.splits read_event.splits if_splits)
      from "1.IH" [OF Ok p [symmetric] None i(1) refl i(2) r] d i show ?thesis by (simp add: conn_size_def)
    qed (use "1.prems" Ok p in \<open>auto simp: read_frame.simps [of E c] intro: parse_frame_uses\<close>)
  qed (use "1.prems" in \<open>simp_all add: read_frame.simps [of E c]\<close>)
qed

lemma next_message_uses: "next_message E c = Done (Ok (Some m, c')) \<Longrightarrow> conn_size c' < conn_size c"
  by (auto simp: next_message_def intro: read_frame_uses
      split: read_poll.splits res.splits option.splits frame.splits list.splits if_splits)

text \<open>The loop \<open>while let Some(msg)\<close>.\<close>

function cli_listen :: "env \<Rightarrow> connection \<Rightarrow> bytes list \<times> cli_exit" where
  "cli_listen E c =
     cli_await (next_message E c) (\<lambda>msg c.
       case msg of
         Some msg \<Rightarrow> apfst (Cons (show_message E msg)) (cli_listen E c)
       | None \<Rightarrow> ([], CliOk c))"
  by pat_completeness auto
termination
  by (relation "measure (\<lambda>(E, c). conn_size c)") (auto intro: next_message_uses)

declare cli_listen.simps [simp del]

fun cli_main :: "env \<Rightarrow> cli_command \<Rightarrow> connection \<Rightarrow> bytes list \<times> cli_exit" where
  "cli_main E (CliPing msg) c =
     cli_await (client_ping E msg c) (\<lambda>val c. ([show_value E val], CliOk c))"
| "cli_main E (CliGet key) c =
     cli_await (client_get E key c) (\<lambda>r c.
       case r of Some val \<Rightarrow> ([show_value E val], CliOk c) | None \<Rightarrow> ([''(nil)''], CliOk c))"
| "cli_main E (CliSet key val None) c =
     cli_await (client_set E key val c) (\<lambda>_ c. ([''OK''], CliOk c))"
| "cli_main E (CliSet key val (Some expires)) c =
     cli_await (client_set_expires E key val expires c) (\<lambda>_ c. ([''OK''], CliOk c))"
| "cli_main E (CliPublish channel message) c =
     cli_await (client_publish E channel message c) (\<lambda>_ c. ([''Publish OK''], CliOk c))"
| "cli_main E (CliSubscribe channels) c =
     (if channels = [] then ([], CliErr (Text ''channel(s) must be provided''))
      else cli_await (client_subscribe E channels c) (\<lambda>_ c. cli_listen E c))"

section \<open>Expirations\<close>

lemma foldl_digits_mono: "a \<le> foldl (\<lambda>a c. 10 * a + digit_val c) a ds"
proof (induction ds arbitrary: a)
  case (Cons d ds)
  have "a \<le> 10 * a + digit_val d" by simp
  also have "\<dots> \<le> foldl (\<lambda>a c. 10 * a + digit_val c) (10 * a + digit_val d) ds" by (rule Cons.IH)
  finally show ?case by simp
qed simp

lemma u64_digits_undec:
  assumes "list_all is_digit ds" "foldl (\<lambda>a c. 10 * a + digit_val c) acc ds < 2 ^ 64"
  shows "u64_digits acc ds = Ok (of_nat (foldl (\<lambda>a c. 10 * a + digit_val c) acc ds))"
  using assms
proof (induction ds arbitrary: acc)
  case (Cons d ds)
  from Cons.prems(2) foldl_digits_mono [of "10 * acc + digit_val d" ds] have "10 * acc + digit_val d < 2 ^ 64" by simp
  with Cons show ?case by simp
qed simp

lemma parse_u64_dec:
  assumes "n < 2 ^ 64"
  shows "parse_u64 (dec n) = Ok (of_nat n)"
proof -
  have d: "list_all is_digit (dec n)" using dec_digits by (auto simp: list_all_iff)
  have hd: "is_digit (hd (dec n))" using dec_digits hd_in_set [OF dec_nonempty [of n]] by blast
  then have "dec n \<noteq> ''+''" "dec n \<noteq> ''-''" "hd (dec n) \<noteq> CHR ''+''" by (auto simp: is_digit_def)
  moreover have "foldl (\<lambda>a c. 10 * a + digit_val c) 0 (dec n) = n" using undec_dec [of n] by (simp add: undec_def)
  ultimately show ?thesis
    using u64_digits_undec [OF d, of 0] assms dec_nonempty [of n] by (simp add: parse_u64_def)
qed

section \<open>Subscriptions\<close>

lemma cli_listen_messages:
  assumes "atoi_reads_decimal E" "list_all message_utf8 ms" "closes_after (map message_frame ms) c"
  shows "\<exists>c'. cli_listen E c = (map (show_message E) ms, CliOk c') \<and> sent c' = sent c"
  using assms(2,3)
proof (induction ms arbitrary: c)
  case Nil
  then show ?case by (simp add: cli_listen.simps next_message_def closes_now)
next
  case (Cons m ms)
  then have "closes_after (message_frame m # map message_frame ms) c" by simp
  from closes_after_read [OF assms(1) this] obtain d where
    d: "read_frame E c = Ready (Ok (Some (message_frame m), d))" "closes_after (map message_frame ms) d" "sent d = sent c"
    by blast
  have "next_message E c = Done (Ok (Some m, d))" using next_message_frame [OF d(1)] Cons.prems(1) by simp
  moreover from Cons.IH [OF _ d(2)] Cons.prems(1) obtain c' where
    "cli_listen E d = (map (show_message E) ms, CliOk c')" "sent c' = sent d" by auto
  ultimately show ?case using d(3) by (subst cli_listen.simps) simp
qed

definition confirms :: "frame \<Rightarrow> bytes \<Rightarrow> bool" where
  "confirms f ch \<longleftrightarrow> (\<exists>n. f = Array [Bulk ''subscribe'', Bulk ch, Integer n])"

lemma confirm_channels_closes:
  assumes "atoi_reads_decimal E" "list_all2 confirms fs chs" "closes_after (fs @ gs) c"
  shows "\<exists>c'. confirm_channels E chs c = Done (Ok ((), c')) \<and> closes_after gs c' \<and> sent c' = sent c"
  using assms(2,3)
proof (induction arbitrary: c rule: list_all2_induct)
  case (Cons f fs ch chs)
  then obtain n where f: "f = Array [Bulk ''subscribe'', Bulk ch, Integer n]" by (auto simp: confirms_def)
  from Cons.prems have "closes_after (f # fs @ gs) c" by simp
  from closes_after_read [OF assms(1) this] obtain d where
    d: "read_frame E c = Ready (Ok (Some f, d))" "closes_after (fs @ gs) d" "sent d = sent c" by blast
  from Cons.IH [OF d(2)] d(3) obtain c' where
    "confirm_channels E chs d = Done (Ok ((), c'))" "closes_after gs c'" "sent c' = sent c" by auto
  with d(1) f show ?case by (simp add: read_response_def)
qed simp

section \<open>Properties\<close>

text \<open>
  C39: \<open>set key value ms\<close> on the command line stores the value with that time to live. A decimal
  number of milliseconds below 2^64 is accepted as the third argument; the request sent is read by
  the server as the command to set the key to the value, expiring after exactly that many
  milliseconds, and the program prints \<open>OK\<close> when the server does.
\<close>

theorem cli_set_expires:
  assumes "ascii_case E" "atoi_reads_decimal E" "utf8 key" "n < 2 ^ 64" "expects [Simple ''OK''] c"
    and "length key \<le> isize_max" "length val \<le> isize_max"
  shows "\<exists>d c' f. duration_from_ms_str (dec n) = Ok d \<and> cli_main E (CliSet key val (Some d)) c = ([''OK''], CliOk c') \<and>
    sent c' = sent c @ encode f \<and>
    from_frame E f = Ok (SetCmd \<lparr>set_key = key, set_value = val, set_expire = Some (n * 10 ^ 6)\<rparr>)"
proof -
  let ?cmd = "\<lparr>set_key = key, set_value = val, set_expire = Some (n * 10 ^ 6)\<rparr>"
  let ?f = "Array (map Bulk (''set'' # set_args ?cmd))"
  have d: "duration_from_ms_str (dec n) = Ok (n * 10 ^ 6)"
    using assms(4) by (simp add: duration_from_ms_str_def parse_u64_dec from_millis_def unat_of_nat_u64)
  have ms: "as_millis (n * 10 ^ 6) = n" by (simp add: as_millis_def)
  have "flat ?f" using assms(6,7) dec_length_bound [of n 20] assms(4) ms by (simp add: set_args_def isize_max_def)
  moreover have "ok_reply (Simple ''OK'') = Some ()" by simp
  ultimately obtain c' where "set_cmd E ?cmd c = Done (Ok ((), c'))" "sent c' = sent c @ encode ?f"
    using set_op.answered [OF assms(2,5)] by blast
  moreover have "from_frame E ?f = Ok (SetCmd ?cmd)"
    using from_frame_set [OF assms(1,2), of ?cmd] assms(3,4) ms by (simp add: wf_set_def set_on_wire_def whole_millis_def)
  moreover from calculation(1) have "cli_main E (CliSet key val (Some (n * 10 ^ 6))) c = ([''OK''], CliOk c')"
    by (simp add: client_set_expires_def)
  ultimately show ?thesis using d by blast
qed

theorem cli_set_expires_witness:
  "\<exists>d c'. duration_from_ms_str ''250'' = Ok d \<and>
     cli_main (ref_env True) (CliSet ''k'' ''v'' (Some d)) (new_connection [Recv (encode (Simple ''OK''))]) = ([''OK''], CliOk c')"
proof -
  have e: "expects [Simple ''OK''] (new_connection [Recv (encode (Simple ''OK''))])"
    by (rule expects_one) (simp_all add: isize_max_def CRLF_def utf8_def)
  have "dec 250 = ''250''" by code_simp
  moreover have "utf8 ''k''" by (simp add: utf8_def)
  ultimately show ?thesis
    using cli_set_expires [OF ref_env_case ref_env_atoi _ _ e, of "''k''" 250 "''v''" True] by (auto simp: isize_max_def)
qed

text \<open>
  \<open>subscribe\<close> on the command line prints every message. Given the server's confirmations, the
  frames of the messages \<open>ms\<close> and the end of the stream, in any packets, the program sends one
  request with all channels, prints one line per message in order and ends without an error.
\<close>

theorem cli_subscribe_prints:
  assumes "atoi_reads_decimal E" "chs \<noteq> []" "flat (Array (map Bulk (''subscribe'' # chs)))"
    and "list_all2 confirms fs chs" "list_all message_utf8 ms" "list_all flat (fs @ map message_frame ms)"
    and "concat chunks = concat (map encode (fs @ map message_frame ms))" "[] \<notin> set chunks"
    and "length (concat chunks) \<le> isize_max"
  shows "\<exists>c'. cli_main E (CliSubscribe chs) (new_connection (map Recv chunks @ [Recv []])) =
      (map (show_message E) ms, CliOk c') \<and> sent c' = encode (Array (map Bulk (''subscribe'' # chs)))"
proof -
  let ?c = "new_connection (map Recv chunks @ [Recv []])" and ?f = "Array (map Bulk (''subscribe'' # chs))"
  let ?d = "?c\<lparr>sent := encode ?f\<rparr>"
  have w: "send_request (subscribe_into_frame \<lparr>sub_channels = chs\<rparr>) ?c = Done (Ok ((), ?d))"
    using write_frame_encode [of ?c ?f] assms(3) subscribe_codec.frame [of "\<lparr>sub_channels = chs\<rparr>"]
    by (simp add: send_request_def new_connection_def)
  have "list_all line_safe fs"
    using assms(4) by (induction rule: list_all2_induct) (auto simp: confirms_def)
  then have "list_all line_safe (fs @ map message_frame ms)" by (auto simp: list_all_iff message_frame_def)
  with assms(6-9) have "closes_after (fs @ map message_frame ms) ?d"
    unfolding closes_after_def by (intro conjI exI [of _ chunks]) (simp_all add: new_connection_def del: length_concat)
  from confirm_channels_closes [OF assms(1,4) this] obtain e where
    e: "confirm_channels E chs ?d = Done (Ok ((), e))" "closes_after (map message_frame ms) e" "sent e = encode ?f" by auto
  from cli_listen_messages [OF assms(1,5) e(2)] e w assms(2) show ?thesis
    by (auto simp: client_subscribe_def subscribe_cmd_def)
qed

theorem cli_subscribe_prints_witness:
  "\<exists>c'. cli_main (ref_env True) (CliSubscribe [''c''])
      (new_connection (map Recv [encode (Array [Bulk ''subscribe'', Bulk ''c'', Integer 1]) @
         encode (message_frame \<lparr>msg_channel = ''c'', msg_content = ''hi''\<rparr>)] @ [Recv []])) =
      ([''got message from the channel: c; message = b'' @ [CHR 0x22] @ ''hi'' @ [CHR 0x22]], CliOk c')"
proof -
  let ?m = "\<lparr>msg_channel = ''c'', msg_content = ''hi''\<rparr>" and ?f = "Array [Bulk ''subscribe'', Bulk ''c'', Integer 1]"
  let ?s = "encode ?f @ encode (message_frame ?m)"
  have "\<exists>c'. cli_main (ref_env True) (CliSubscribe [''c'']) (new_connection (map Recv [?s] @ [Recv []])) =
      (map (show_message (ref_env True)) [?m], CliOk c') \<and> sent c' = encode (Array (map Bulk (''subscribe'' # [''c''])))"
    by (rule cli_subscribe_prints [where fs = "[?f]"])
      (simp_all add: ref_env_atoi confirms_def message_utf8_def utf8_def message_frame_def isize_max_def CRLF_def dec.simps)
  then show ?thesis by (auto simp: show_message_def ref_env_def)
qed

end
