(* ===== verification/Futures.thy ===== *)
theory Futures
  imports Std_Lib
begin

text \<open>
  \<open>src/workshop/src/solutions/ex1_1.rs\<close>, \<open>ex1_2.rs\<close>, \<open>ex1_3.rs\<close>: three hand-written futures, and
  \<open>src/workshop/src/ex1_executor.rs\<close>: the executor that drives one of them.

  A poll takes the waker of its context and returns the result, the new state and the wakers it
  called. The state of a future includes what it shares with another thread; an \<open>ext\<close> relation
  gives the steps of that thread. The locale \<open>wakeful\<close> is the contract between a future and its
  executor: a future that answers \<open>Pending\<close> has called the waker or keeps it for the thread that
  completes it. The executor is a step relation in which the other thread, the clock, time-outs
  and spurious wake-ups of the condition variable interleave in every way.
\<close>

section \<open>Futures\<close>

datatype 'a poll = PollReady 'a | PollPending

subsection \<open>YieldNow\<close>

record YieldNow =
  yielded :: bool

definition yield_now :: YieldNow where
  "yield_now = \<lparr>yielded = False\<rparr>"

definition poll_yield_now :: "'w \<Rightarrow> YieldNow \<Rightarrow> unit poll \<times> YieldNow \<times> 'w list" where
  "poll_yield_now cx self =
     (if yielded self then (PollReady (), self, [])
      else (PollPending, self\<lparr>yielded := True\<rparr>, [cx]))"

text \<open>No other thread takes part.\<close>

definition yield_ext :: "instant \<Rightarrow> YieldNow \<Rightarrow> YieldNow \<times> 'w list \<Rightarrow> bool" where
  "yield_ext now self r \<longleftrightarrow> False"

subsection \<open>Delay\<close>

record 'w DelayState =
  complete :: bool
  waker :: "'w option"

text \<open>The shared state and the thread that sleeps until an instant (\<open>None\<close> once it is over).\<close>

record 'w Delay =
  dstate :: "'w DelayState"
  sleeper :: "instant option"

definition delay_new :: "instant \<Rightarrow> duration \<Rightarrow> 'w Delay" where
  "delay_new now dur = \<lparr>dstate = \<lparr>complete = False, waker = None\<rparr>, sleeper = Some (now + dur)\<rparr>"

text \<open>What the thread does after its sleep.\<close>

definition delay_thread :: "'w Delay \<Rightarrow> 'w Delay \<times> 'w list" where
  "delay_thread self =
     (self\<lparr>dstate := \<lparr>complete = True, waker = None\<rparr>, sleeper := None\<rparr>,
      case waker (dstate self) of Some w \<Rightarrow> [w] | None \<Rightarrow> [])"

definition poll_delay :: "'w \<Rightarrow> 'w Delay \<Rightarrow> unit poll \<times> 'w Delay \<times> 'w list" where
  "poll_delay cx self =
     (if complete (dstate self) then (PollReady (), self, [])
      else (PollPending, self\<lparr>dstate := (dstate self)\<lparr>waker := Some cx\<rparr>\<rparr>, []))"

text \<open>The sleep takes at least the duration asked for.\<close>

definition delay_ext :: "instant \<Rightarrow> 'w Delay \<Rightarrow> 'w Delay \<times> 'w list \<Rightarrow> bool" where
  "delay_ext now self r \<longleftrightarrow>
     (case sleeper self of Some t \<Rightarrow> t \<le> now \<and> r = delay_thread self | None \<Rightarrow> False)"

subsection \<open>The oneshot channel\<close>

record ('t, 'w) Inner =
  slot :: "'t option"
  rx_waker :: "'w option"

text \<open>
  The shared state and whether the \<open>Sender\<close> still exists: \<open>send\<close> consumes it, so it is called at
  most once.
\<close>

record ('t, 'w) channel =
  inner :: "('t, 'w) Inner"
  sender :: bool

definition oneshot :: "('t, 'w) channel" where
  "oneshot = \<lparr>inner = \<lparr>slot = None, rx_waker = None\<rparr>, sender = True\<rparr>"

definition oneshot_send :: "'t \<Rightarrow> ('t, 'w) channel \<Rightarrow> ('t, 'w) channel \<times> 'w list" where
  "oneshot_send val self =
     (self\<lparr>inner := \<lparr>slot = Some val, rx_waker = None\<rparr>, sender := False\<rparr>,
      case rx_waker (inner self) of Some w \<Rightarrow> [w] | None \<Rightarrow> [])"

definition poll_receiver :: "'w \<Rightarrow> ('t, 'w) channel \<Rightarrow> 't poll \<times> ('t, 'w) channel \<times> 'w list" where
  "poll_receiver cx self =
     (case slot (inner self) of
        Some val \<Rightarrow> (PollReady val, self\<lparr>inner := (inner self)\<lparr>slot := None\<rparr>\<rparr>, [])
      | None \<Rightarrow> (PollPending, self\<lparr>inner := (inner self)\<lparr>rx_waker := Some cx\<rparr>\<rparr>, []))"

text \<open>The owner of the sender sends \<open>val\<close>, or drops the sender without a word.\<close>

definition oneshot_ext ::
    "'t \<Rightarrow> instant \<Rightarrow> ('t, 'w) channel \<Rightarrow> ('t, 'w) channel \<times> 'w list \<Rightarrow> bool" where
  "oneshot_ext val now self r \<longleftrightarrow>
     sender self \<and> (r = oneshot_send val self \<or> r = (self\<lparr>sender := False\<rparr>, []))"

section \<open>The contract between future and executor\<close>

text \<open>
  A future is \<open>fresh\<close> before it holds a waker, \<open>armed w\<close> when it keeps \<open>w\<close> for the thread that
  completes it, and \<open>due\<close> when the next poll completes. The laws say that \<open>Pending\<close> is answered
  only with the waker called or kept, that a kept waker is called when the future becomes due, and
  that nothing calls a waker twice.
\<close>

locale wakeful =
  fixes pl :: "'w \<Rightarrow> 's \<Rightarrow> 'a poll \<times> 's \<times> 'w list"
    and ext :: "instant \<Rightarrow> 's \<Rightarrow> 's \<times> 'w list \<Rightarrow> bool"
    and fresh :: "'s \<Rightarrow> bool"
    and armed :: "'w \<Rightarrow> 's \<Rightarrow> bool"
    and due :: "'s \<Rightarrow> bool"
  assumes poll_due: "due s \<Longrightarrow> \<exists>a s'. pl w s = (PollReady a, s', [])"
    and poll_early: "fresh s \<or> armed w s \<Longrightarrow>
      \<exists>s' ws. pl w s = (PollPending, s', ws) \<and> (ws = [w] \<and> due s' \<or> ws = [] \<and> armed w s')"
    and ext_fresh: "fresh s \<Longrightarrow> ext now s (s', ws) \<Longrightarrow> ws = [] \<and> (fresh s' \<or> due s')"
    and ext_armed: "armed w s \<Longrightarrow> ext now s (s', ws) \<Longrightarrow> ws = [w] \<and> due s' \<or> ws = [] \<and> armed w s'"
    and ext_due: "due s \<Longrightarrow> ext now s (s', ws) \<Longrightarrow> ws = [] \<and> due s'"
    and not_both: "armed w s \<Longrightarrow> \<not> due s" "fresh s \<Longrightarrow> \<not> due s"

definition yield_fresh :: "YieldNow \<Rightarrow> bool" where
  "yield_fresh self \<longleftrightarrow> \<not> yielded self"

interpretation yield_future: wakeful poll_yield_now yield_ext yield_fresh "\<lambda>w self. False" yielded
  by unfold_locales (simp_all add: poll_yield_now_def yield_ext_def yield_fresh_def)

definition delay_phase :: "bool \<Rightarrow> 'w option \<Rightarrow> 'w Delay \<Rightarrow> bool" where
  "delay_phase c w self \<longleftrightarrow>
     dstate self = \<lparr>complete = c, waker = w\<rparr> \<and> (sleeper self = None \<longleftrightarrow> c)"

interpretation delay_future: wakeful poll_delay delay_ext "delay_phase False None"
    "\<lambda>w. delay_phase False (Some w)" "delay_phase True None"
  by unfold_locales
    (auto simp: poll_delay_def delay_ext_def delay_thread_def delay_phase_def split: option.splits)

definition rx_phase :: "'t option \<Rightarrow> 'w option \<Rightarrow> ('t, 'w) channel \<Rightarrow> bool" where
  "rx_phase v w self \<longleftrightarrow> inner self = \<lparr>slot = v, rx_waker = w\<rparr> \<and> (v \<noteq> None \<longrightarrow> \<not> sender self)"

interpretation oneshot_future: wakeful poll_receiver "oneshot_ext val" "rx_phase None None"
    "\<lambda>w. rx_phase None (Some w)" "rx_phase (Some val) None" for val
  by unfold_locales
    (auto simp: poll_receiver_def oneshot_ext_def oneshot_send_def rx_phase_def)

section \<open>The executor of the first exercises\<close>

text \<open>
  The points at which the thread of the executor can be: about to poll, about to lock \<open>notified\<close>
  in \<open>wait_timeout\<close>, asleep on the condition variable until an instant, woken or timed out but
  not yet in possession of the lock again, returned, and panicked.
\<close>

record stats =
  stat_polls :: nat
  stat_time :: duration

datatype 'a run_mode =
    Polling
  | Locking
  | Asleep instant
  | Woken
  | Expired
  | Returned 'a stats
  | TimedOut

record ('s, 'a) runner =
  fut :: 's
  notified :: bool
  poll_count :: nat
  mode :: "'a run_mode"
  now :: instant
  start :: instant

definition run_init :: "instant \<Rightarrow> 's \<Rightarrow> ('s, 'a) runner" where
  "run_init t f = \<lparr>fut = f, notified = False, poll_count = 0, mode = Polling, now = t, start = t\<rparr>"

text \<open>\<open>Signal::notify\<close>: \<open>notify_one\<close> wakes the thread if it is asleep.\<close>

definition signal_notify :: "('s, 'a) runner \<Rightarrow> ('s, 'a) runner" where
  "signal_notify s = s\<lparr>notified := True, mode := (case mode s of Asleep t \<Rightarrow> Woken | m \<Rightarrow> m)\<rparr>"

definition notify_all :: "unit list \<Rightarrow> ('s, 'a) runner \<Rightarrow> ('s, 'a) runner" where
  "notify_all ws s = (if ws = [] then s else signal_notify s)"

definition five_secs :: duration where
  "five_secs = 5 * 10 ^ 9"

text \<open>\<open>Signal::wait_timeout\<close> up to the wait, and after it.\<close>

definition wait_enter :: "('s, 'a) runner \<Rightarrow> ('s, 'a) runner" where
  "wait_enter s =
     (if notified s then s\<lparr>notified := False, mode := Polling\<rparr>
      else s\<lparr>mode := Asleep (now s + five_secs)\<rparr>)"

definition wait_exit :: "bool \<Rightarrow> ('s, 'a) runner \<Rightarrow> ('s, 'a) runner" where
  "wait_exit timed_out s =
     (if timed_out then s\<lparr>mode := TimedOut\<rparr> else s\<lparr>notified := False, mode := Polling\<rparr>)"

text \<open>One round of the loop in \<open>run\<close>: the poll and the match on its result.\<close>

definition run_poll ::
    "(unit \<Rightarrow> 's \<Rightarrow> 'a poll \<times> 's \<times> unit list) \<Rightarrow> ('s, 'a) runner \<Rightarrow> ('s, 'a) runner" where
  "run_poll pl s =
     (case pl () (fut s) of (r, f, ws) \<Rightarrow>
       let s = notify_all ws (s\<lparr>fut := f, poll_count := poll_count s + 1\<rparr>) in
       case r of
         PollReady out \<Rightarrow>
           s\<lparr>mode := Returned out \<lparr>stat_polls = poll_count s, stat_time = now s - start s\<rparr>\<rparr>
       | PollPending \<Rightarrow> s\<lparr>mode := Locking\<rparr>)"

text \<open>
  The steps. \<open>spurious\<close> says whether the condition variable wakes without a notification, which
  its documentation allows.
\<close>

inductive run_step ::
    "bool \<Rightarrow> (unit \<Rightarrow> 's \<Rightarrow> 'a poll \<times> 's \<times> unit list) \<Rightarrow> (instant \<Rightarrow> 's \<Rightarrow> 's \<times> unit list \<Rightarrow> bool) \<Rightarrow>
     ('s, 'a) runner \<Rightarrow> ('s, 'a) runner \<Rightarrow> bool"
  for spurious pl ext where
  run_poll: "mode s = Polling \<Longrightarrow> run_step spurious pl ext s (run_poll pl s)"
| run_enter: "mode s = Locking \<Longrightarrow> run_step spurious pl ext s (wait_enter s)"
| run_expire: "mode s = Asleep t \<Longrightarrow> t \<le> now s \<Longrightarrow> run_step spurious pl ext s (s\<lparr>mode := Expired\<rparr>)"
| run_spurious: "spurious \<Longrightarrow> mode s = Asleep t \<Longrightarrow> run_step spurious pl ext s (s\<lparr>mode := Woken\<rparr>)"
| run_exit: "mode s = Woken \<Longrightarrow> run_step spurious pl ext s (wait_exit False s)"
| run_timeout: "mode s = Expired \<Longrightarrow> run_step spurious pl ext s (wait_exit True s)"
| run_other: "ext (now s) (fut s) (f, ws) \<Longrightarrow>
    run_step spurious pl ext s (notify_all ws (s\<lparr>fut := f\<rparr>))"
| run_tick: "run_step spurious pl ext s (s\<lparr>now := now s + d\<rparr>)"

abbreviation run_reach where
  "run_reach spurious pl ext \<equiv> (run_step spurious pl ext)\<^sup>*\<^sup>*"

text \<open>No step of another thread: what is left are the steps of the executor.\<close>

abbreviation nobody :: "instant \<Rightarrow> 's \<Rightarrow> 's \<times> unit list \<Rightarrow> bool" where
  "nobody \<equiv> \<lambda>_ _ _. False"

section \<open>A future that keeps the contract never hangs\<close>

lemmas run_defs = signal_notify_def notify_all_def wait_enter_def wait_exit_def run_poll_def run_init_def

text \<open>
  What holds at each point of the executor when the future keeps the contract: the thread sleeps
  only while the future keeps the waker, and a completion and its notification go together.
\<close>

definition run_ok ::
    "bool \<Rightarrow> ('s \<Rightarrow> bool) \<Rightarrow> ('s \<Rightarrow> bool) \<Rightarrow> ('s \<Rightarrow> bool) \<Rightarrow> ('s, 'a) runner \<Rightarrow> bool" where
  "run_ok spurious fresh armed due s \<longleftrightarrow>
     (let waits = armed (fut s) \<and> \<not> notified s; woken = due (fut s) \<and> notified s in
      case mode s of
        Polling \<Rightarrow> poll_count s = 0 \<and> \<not> notified s \<and> (fresh (fut s) \<or> due (fut s)) \<or>
          poll_count s > 0 \<and> (waits \<and> spurious \<or> due (fut s)) \<and> (spurious \<or> poll_count s = 1)
      | Locking \<Rightarrow> (waits \<or> woken) \<and> poll_count s > 0 \<and> (spurious \<or> poll_count s = 1)
      | Asleep t \<Rightarrow> waits \<and> poll_count s > 0 \<and> (spurious \<or> poll_count s = 1)
      | Woken \<Rightarrow> (waits \<and> spurious \<or> woken) \<and> poll_count s > 0 \<and> (spurious \<or> poll_count s = 1)
      | Expired \<Rightarrow> waits \<or> woken
      | Returned out st \<Rightarrow> spurious \<or> stat_polls st = 1 \<or> stat_polls st = 2
      | TimedOut \<Rightarrow> True)"

text \<open>An executor with a single future has a single waker.\<close>

locale solo_future = wakeful pl ext fresh armed due
  for pl :: "unit \<Rightarrow> 's \<Rightarrow> 'a poll \<times> 's \<times> unit list"
    and ext fresh armed due
begin

lemma run_ok_init: "fresh f \<or> due f \<Longrightarrow> run_ok sp fresh (armed ()) due (run_init t f)"
  by (auto simp: run_ok_def run_init_def)

lemma wait_enter_ok:
  assumes "mode s = Locking" "run_ok sp fresh (armed ()) due s"
  shows "run_ok sp fresh (armed ()) due (wait_enter s)"
  using assms by (auto simp: run_ok_def wait_enter_def Let_def)

lemma wait_exit_ok:
  assumes "mode s = Woken \<and> \<not> b \<or> mode s = Expired \<and> b" "run_ok sp fresh (armed ()) due s"
  shows "run_ok sp fresh (armed ()) due (wait_exit b s)"
  using assms by (auto simp: run_ok_def wait_exit_def Let_def)

lemma notify_ok:
  assumes "ext t (fut s) (f, ws)" "run_ok sp fresh (armed ()) due s"
  shows "run_ok sp fresh (armed ()) due (notify_all ws (s\<lparr>fut := f\<rparr>))"
  using assms(2) ext_fresh [OF _ assms(1)] ext_armed [OF _ assms(1)] ext_due [OF _ assms(1)] not_both
  by (cases "mode s") (auto simp: run_ok_def Let_def notify_all_def signal_notify_def)

lemma run_poll_ok:
  assumes "mode s = Polling" "run_ok sp fresh (armed ()) due s"
  shows "run_ok sp fresh (armed ()) due (run_poll pl s)"
proof (cases "due (fut s)")
  case True
  then obtain a f where "pl () (fut s) = (PollReady a, f, [])" using poll_due by blast
  with assms True show ?thesis by (auto simp: run_ok_def Let_def run_poll_def notify_all_def)
next
  case False
  with assms have "fresh (fut s) \<or> armed () (fut s)" "\<not> notified s"
    by (auto simp: run_ok_def Let_def)
  with poll_early obtain f ws where "pl () (fut s) = (PollPending, f, ws)"
    "ws = [()] \<and> due f \<or> ws = [] \<and> armed () f" by blast
  with assms False \<open>\<not> notified s\<close> show ?thesis
    by (auto simp: run_ok_def Let_def run_poll_def notify_all_def signal_notify_def)
qed

lemma run_step_ok:
  assumes "run_step sp pl ext s s'" "run_ok sp fresh (armed ()) due s"
  shows "run_ok sp fresh (armed ()) due s'"
  using assms
proof cases
  case (run_other f ws)
  with assms(2) show ?thesis by (simp add: notify_ok)
qed (use assms(2) in \<open>auto simp: run_poll_ok wait_enter_ok wait_exit_ok, auto simp: run_ok_def Let_def split: run_mode.splits\<close>)

lemma run_reach_ok:
  assumes "run_reach sp pl ext (run_init t f) s" "fresh f \<or> due f"
  shows "run_ok sp fresh (armed ()) due s"
  using assms by (induction rule: rtranclp_induct) (auto simp: run_ok_init intro: run_step_ok)

lemma run_finishes:
  assumes "mode s = Polling" "due (fut s)"
  shows "\<exists>out st s'. run_reach False pl nobody s s' \<and> mode s' = Returned out st"
proof -
  obtain a f where "pl () (fut s) = (PollReady a, f, [])" using poll_due [OF assms(2)] by blast
  then have "\<exists>st. mode (run_poll pl s) = Returned a st" by (simp add: run_poll_def Let_def)
  with run_step.run_poll [OF assms(1), of False pl nobody] show ?thesis by blast
qed

lemma due_run_returns:
  assumes "run_ok sp fresh (armed ()) due s" "due (fut s)"
    and "mode s = Polling \<or> mode s = Locking \<or> (\<exists>u. mode s = Asleep u) \<or> mode s = Woken"
  shows "\<exists>out st s'. run_reach False pl nobody s s' \<and> mode s' = Returned out st"
proof -
  have "\<exists>s'. run_reach False pl nobody s s' \<and> mode s' = Polling \<and> due (fut s')"
    using assms(3)
  proof (elim disjE exE)
    assume "mode s = Locking"
    with assms run_step.run_enter [of s False pl nobody] not_both(1) show ?thesis
      by (intro exI [of _ "wait_enter s"]) (auto simp: run_ok_def Let_def wait_enter_def)
  next
    assume "mode s = Woken"
    with assms run_step.run_exit [of s False pl nobody] show ?thesis
      by (intro exI [of _ "wait_exit False s"]) (auto simp: wait_exit_def)
  qed (use assms not_both(1) in \<open>auto simp: run_ok_def Let_def\<close>)
  then obtain s' where "run_reach False pl nobody s s'" "mode s' = Polling" "due (fut s')" by blast
  with run_finishes show ?thesis by (meson rtranclp_trans)
qed

end

interpretation yield_solo: solo_future poll_yield_now yield_ext yield_fresh "\<lambda>w self. False" yielded ..

interpretation delay_solo: solo_future poll_delay delay_ext "delay_phase False None"
    "\<lambda>w. delay_phase False (Some w)" "delay_phase True None" ..

interpretation oneshot_solo: solo_future poll_receiver "oneshot_ext val" "rx_phase None None"
    "\<lambda>w. rx_phase None (Some w)" "rx_phase (Some val) None" for val ..

text \<open>
  C18: the contract of \<open>ex1_executor\<close>. If a future answers \<open>Pending\<close> only with the waker called or
  kept for its completion, then in every reachable state of the executor the thread sleeps only
  while the future is not yet due and still keeps the waker; and unless the condition variable
  wakes spuriously, the future is polled exactly once or twice.
\<close>

theorem executor_sleeps_only_armed:
  assumes "wakeful pl ext fresh armed due" "fresh f \<or> due f"
    and "run_reach spurious pl ext (run_init t f) s"
  shows "(\<forall>u. mode s = Asleep u \<longrightarrow> armed () (fut s) \<and> \<not> due (fut s)) \<and>
    (\<forall>out st. mode s = Returned out st \<longrightarrow> \<not> spurious \<longrightarrow> stat_polls st \<in> {1, 2})"
proof -
  from assms(1) have "solo_future pl ext fresh armed due" by (rule solo_future.intro)
  from solo_future.run_reach_ok [OF this assms(3,2)] show ?thesis
    using wakeful.not_both(1) [OF assms(1)] by (auto simp: run_ok_def Let_def)
qed

lemma delay_new_fresh: "delay_phase False None (delay_new t dur)"
  by (simp add: delay_new_def delay_phase_def)

lemma oneshot_fresh: "rx_phase None None oneshot"
  by (simp add: oneshot_def rx_phase_def)

lemma delay_falls_asleep:
  "run_reach sp poll_delay delay_ext (run_init t (delay_new t dur))
     (wait_enter (run_poll poll_delay (run_init t (delay_new t dur))))"
proof -
  let ?i = "run_init t (delay_new t dur)"
  have "run_step sp poll_delay delay_ext ?i (run_poll poll_delay ?i)"
    by (rule run_step.run_poll) (simp add: run_init_def)
  moreover have "mode (run_poll poll_delay ?i) = Locking"
    by (simp add: run_poll_def run_init_def delay_new_def poll_delay_def)
  then have "run_step sp poll_delay delay_ext (run_poll poll_delay ?i) (wait_enter (run_poll poll_delay ?i))"
    by (rule run_step.run_enter)
  ultimately show ?thesis by simp
qed

lemmas delay_eval = wait_enter_def wait_exit_def run_poll_def run_init_def delay_new_def poll_delay_def
  delay_ext_def delay_thread_def notify_all_def signal_notify_def delay_phase_def five_secs_def

theorem executor_sleeps_only_armed_witness:
  "delay_phase False (Some ())
     (fut (wait_enter (run_poll poll_delay (run_init 0 (delay_new 0 7) :: (unit Delay, unit) runner))))"
proof -
  let ?s = "wait_enter (run_poll poll_delay (run_init 0 (delay_new 0 7) :: (unit Delay, unit) runner))"
  from executor_sleeps_only_armed [OF delay_future.wakeful_axioms disjI1 [OF delay_new_fresh]
      delay_falls_asleep [of True]]
  have "\<forall>u. mode ?s = Asleep u \<longrightarrow> delay_phase False (Some ()) (fut ?s)" by blast
  moreover have "mode ?s = Asleep 5000000000" by (simp add: delay_eval)
  ultimately show ?thesis by blast
qed

text \<open>
  The executor of exercise 1 returns. From every reachable state in which the next poll would
  complete the future and the executor has not timed out, its own steps, without any of another
  thread and without a spurious wake-up, lead to the return: no
  wake-up is lost, neither between the poll and the wait nor while the thread falls asleep.
\<close>

theorem executor_returns:
  assumes "wakeful pl ext fresh armed due" "fresh f \<or> due f"
    and "run_reach spurious pl ext (run_init t f) s" "due (fut s)"
    and "mode s \<noteq> Expired" "mode s \<noteq> TimedOut"
  shows "\<exists>out st s'. run_reach False pl nobody s s' \<and> mode s' = Returned out st"
proof -
  from assms(1) have sf: "solo_future pl ext fresh armed due" by (rule solo_future.intro)
  note ok = solo_future.run_reach_ok [OF sf assms(3,2)]
  show ?thesis
  proof (cases "mode s")
    case (Returned out st)
    then show ?thesis by blast
  qed (use assms(5,6) solo_future.due_run_returns [OF sf ok assms(4)] in auto)
qed

lemma delay_step_time:
  assumes "run_step sp poll_delay delay_ext s s'"
    and "sleeper (fut s) = Some (start s + dur) \<or> start s + dur \<le> now s"
    and "complete (dstate (fut s)) \<longrightarrow> start s + dur \<le> now s"
    and "\<And>out st. mode s = Returned out st \<Longrightarrow> dur \<le> stat_time st"
  shows "(sleeper (fut s') = Some (start s' + dur) \<or> start s' + dur \<le> now s') \<and>
    (complete (dstate (fut s')) \<longrightarrow> start s' + dur \<le> now s') \<and>
    (\<forall>out st. mode s' = Returned out st \<longrightarrow> dur \<le> stat_time st)"
  using assms
  by (cases rule: run_step.cases)
    (auto simp: run_poll_def wait_enter_def wait_exit_def notify_all_def signal_notify_def Let_def
      poll_delay_def delay_ext_def delay_thread_def split: prod.splits poll.splits option.splits
      if_splits run_mode.splits)

lemma delay_time:
  assumes "run_reach sp poll_delay delay_ext (run_init t (delay_new t dur)) s"
  shows "(sleeper (fut s) = Some (start s + dur) \<or> start s + dur \<le> now s) \<and>
    (complete (dstate (fut s)) \<longrightarrow> start s + dur \<le> now s) \<and>
    (\<forall>out st. mode s = Returned out st \<longrightarrow> dur \<le> stat_time st)"
  using assms
proof (induction rule: rtranclp_induct)
  case base
  show ?case by (simp add: run_init_def delay_new_def)
next
  case (step s s')
  from delay_step_time [OF step.hyps(2)] step.IH show ?case by blast
qed

lemma oneshot_step_value:
  assumes "run_step sp poll_receiver (oneshot_ext val) s s'"
    and "slot (inner (fut s)) \<in> {None, Some val}" "\<And>out st. mode s = Returned out st \<Longrightarrow> out = val"
  shows "slot (inner (fut s')) \<in> {None, Some val} \<and> (\<forall>out st. mode s' = Returned out st \<longrightarrow> out = val)"
  using assms
  by (cases rule: run_step.cases)
    (auto simp: run_poll_def wait_enter_def wait_exit_def notify_all_def signal_notify_def Let_def
      poll_receiver_def oneshot_ext_def oneshot_send_def split: prod.splits poll.splits option.splits
      if_splits run_mode.splits)

lemma oneshot_value:
  assumes "run_reach sp poll_receiver (oneshot_ext val) (run_init t oneshot) s"
  shows "slot (inner (fut s)) \<in> {None, Some val} \<and> (\<forall>out st. mode s = Returned out st \<longrightarrow> out = val)"
  using assms
proof (induction rule: rtranclp_induct)
  case base
  show ?case by (simp add: run_init_def oneshot_def)
next
  case (step s s')
  from oneshot_step_value [OF step.hyps(2)] step.IH show ?case by blast
qed

lemma delay_fires:
  assumes "s = (wait_enter (run_poll poll_delay (run_init t (delay_new t dur))))\<lparr>now := t + dur\<rparr>"
  shows "run_reach sp poll_delay delay_ext (run_init t (delay_new t dur)) s"
    "run_step sp poll_delay delay_ext s (notify_all [()] (s\<lparr>fut := fst (delay_thread (fut s))\<rparr>))"
proof -
  let ?a = "wait_enter (run_poll poll_delay (run_init t (delay_new t dur)))"
  have "run_step sp poll_delay delay_ext ?a (?a\<lparr>now := now ?a + dur\<rparr>)" by (rule run_step.run_tick)
  moreover have "now ?a = t" by (simp add: delay_eval)
  ultimately have "run_step sp poll_delay delay_ext ?a s" using assms by simp
  with delay_falls_asleep show "run_reach sp poll_delay delay_ext (run_init t (delay_new t dur)) s"
    by (rule rtranclp.rtrancl_into_rtrancl)
  show "run_step sp poll_delay delay_ext s (notify_all [()] (s\<lparr>fut := fst (delay_thread (fut s))\<rparr>))"
    unfolding assms by (rule run_step.run_other) (simp add: delay_eval)
qed

theorem executor_returns_witness:
  "\<exists>s out st s'. run_reach False poll_delay delay_ext (run_init 0 (delay_new 0 7)) s \<and> mode s = Woken \<and>
     run_reach False poll_delay nobody s s' \<and> mode s' = Returned out st"
proof -
  let ?s = "(wait_enter (run_poll poll_delay (run_init 0 (delay_new 0 7))))\<lparr>now := 0 + 7\<rparr>"
  let ?t = "notify_all [()] (?s\<lparr>fut := fst (delay_thread (fut ?s))\<rparr>)"
  have r: "run_reach False poll_delay delay_ext (run_init 0 (delay_new 0 7)) ?t"
    using delay_fires [OF refl, of False 0 7] by (rule rtranclp.rtrancl_into_rtrancl)
  have t: "delay_phase True None (fut ?t)" "mode ?t \<noteq> Expired" "mode ?t \<noteq> TimedOut" and w: "mode ?t = Woken"
    by (simp_all add: delay_eval)
  from executor_returns [OF delay_future.wakeful_axioms disjI1 [OF delay_new_fresh] r t] r w show ?thesis
    by blast
qed

text \<open>
  A \<open>Delay\<close> run by the executor of exercise 1 returns only after its duration, whatever the
  interleaving with the timer thread, and with one or two polls.
\<close>

theorem delay_takes_its_time:
  assumes "run_reach False poll_delay delay_ext (run_init t (delay_new t dur)) s"
    and "mode s = Returned out st"
  shows "dur \<le> stat_time st \<and> stat_polls st \<in> {1, 2}"
  using delay_solo.run_reach_ok [OF assms(1) disjI1 [OF delay_new_fresh]] delay_time [OF assms(1)] assms(2)
  by (simp add: run_ok_def)

theorem delay_takes_its_time_witness:
  "\<exists>s st. run_reach False poll_delay delay_ext (run_init 3 (delay_new 3 7)) s \<and> mode s = Returned () st \<and>
     7 \<le> stat_time st"
proof -
  let ?i = "run_init 3 (delay_new 3 7) :: (unit Delay, unit) runner"
  let ?s = "(wait_enter (run_poll poll_delay ?i))\<lparr>now := 3 + 7\<rparr>"
  let ?t = "notify_all [()] (?s\<lparr>fut := fst (delay_thread (fut ?s))\<rparr>)"
  let ?u = "run_poll poll_delay (wait_exit False ?t)"
  have "run_reach False poll_delay delay_ext ?i ?t"
    using delay_fires [OF refl, of False 3 7] by (rule rtranclp.rtrancl_into_rtrancl)
  moreover have "run_step False poll_delay delay_ext ?t (wait_exit False ?t)"
    by (rule run_step.run_exit) (simp add: delay_eval)
  moreover have "run_step False poll_delay delay_ext (wait_exit False ?t) ?u"
    by (rule run_step.run_poll) (simp add: delay_eval)
  ultimately have r: "run_reach False poll_delay delay_ext ?i ?u" by (meson rtranclp.rtrancl_into_rtrancl)
  have m: "mode ?u = Returned () \<lparr>stat_polls = 2, stat_time = 7\<rparr>" by (simp add: delay_eval)
  from delay_takes_its_time [OF r m] r m show ?thesis by blast
qed

text \<open>
  The receiver of a oneshot channel returns exactly the value that was sent, whether it was
  sent before the first poll, between a poll and the wait, or while the executor slept.
\<close>

theorem oneshot_delivers:
  assumes "run_reach False poll_receiver (oneshot_ext val) (run_init t oneshot) s"
    and "mode s = Returned out st"
  shows "out = val \<and> stat_polls st \<in> {1, 2}"
  using oneshot_solo.run_reach_ok [OF assms(1) disjI1 [OF oneshot_fresh]] oneshot_value [OF assms(1)] assms(2)
  by (simp add: run_ok_def)

theorem oneshot_delivers_witness:
  "\<exists>s st. run_reach False poll_receiver (oneshot_ext (42::nat)) (run_init 0 oneshot) s \<and>
     mode s = Returned 42 st \<and> stat_polls st \<in> {1, 2}"
proof -
  let ?i = "run_init 0 oneshot :: ((nat, unit) channel, nat) runner"
  let ?s = "notify_all [] (?i\<lparr>fut := fst (oneshot_send 42 (fut ?i))\<rparr>)"
  have "run_step False poll_receiver (oneshot_ext 42) ?i ?s"
    by (rule run_step.run_other) (simp add: oneshot_ext_def oneshot_send_def oneshot_def run_init_def)
  moreover have "run_step False poll_receiver (oneshot_ext 42) ?s (run_poll poll_receiver ?s)"
    by (rule run_step.run_poll) (simp add: run_init_def notify_all_def)
  ultimately have r: "run_reach False poll_receiver (oneshot_ext 42) ?i (run_poll poll_receiver ?s)" by simp
  have m: "mode (run_poll poll_receiver ?s) = Returned 42 \<lparr>stat_polls = 1, stat_time = 0\<rparr>"
    by (simp add: run_poll_def run_init_def poll_receiver_def oneshot_send_def notify_all_def)
  from oneshot_delivers [OF r m] r m show ?thesis by blast
qed

text \<open>
  The panic message says that nobody called \<open>wake()\<close>. It is also raised when the wake-up comes
  after the wait has timed out and before the thread has the lock again: the flag is set, the
  future is complete, and the executor panics all the same.
\<close>

theorem timeout_ignores_wake:
  "\<exists>s. run_reach False poll_delay delay_ext (run_init 0 (delay_new 0 five_secs)) s \<and>
     mode s = (TimedOut :: unit run_mode) \<and> notified s \<and> complete (dstate (fut s))"
proof -
  let ?i = "run_init 0 (delay_new 0 five_secs) :: (unit Delay, unit) runner"
  let ?s = "(wait_enter (run_poll poll_delay ?i))\<lparr>now := 0 + five_secs\<rparr>"
  let ?e = "?s\<lparr>mode := Expired\<rparr>"
  let ?f = "notify_all [()] (?e\<lparr>fut := fst (delay_thread (fut ?e))\<rparr>)"
  have "run_step False poll_delay delay_ext ?s ?e"
    by (rule run_step.run_expire [of _ five_secs]) (simp_all add: delay_eval)
  moreover have "run_step False poll_delay delay_ext ?e ?f"
    by (rule run_step.run_other) (simp add: delay_eval)
  moreover have "run_step False poll_delay delay_ext ?f (wait_exit True ?f)"
    by (rule run_step.run_timeout) (simp add: delay_eval)
  ultimately have "run_reach False poll_delay delay_ext ?i (wait_exit True ?f)"
    using delay_fires(1) [OF refl, of False 0 five_secs] by (meson rtranclp.rtrancl_into_rtrancl)
  moreover have "mode (wait_exit True ?f) = TimedOut" "notified (wait_exit True ?f)"
    "complete (dstate (fut (wait_exit True ?f)))" by (simp_all add: delay_eval)
  ultimately show ?thesis by blast
qed

end
