(* ===== verification/Block_On.thy ===== *)
theory Block_On
  imports Futures
begin

text \<open>
  \<open>src/workshop/src/solutions/ex2_1.rs\<close>: \<open>block_on\<close> for a single future. The run queue holds
  clones of the one task; a waker pushes a clone under the lock of the queue and then unparks the
  executor's thread. Another thread can be between the two (\<open>unparks\<close> counts the calls of
  \<open>unpark\<close> that are still owed), and \<open>park\<close> may return without a reason. The lemmas show that no
  wake-up is lost on the way and that a future that keeps the contract \<open>wakeful\<close> is driven to its
  end.
\<close>

section \<open>State and steps\<close>

datatype solo_pc =
    Draining
  | Parking
  | Parked
  | Finished

text \<open>
  \<open>token\<close> is the token of \<open>std::thread::park\<close>: \<open>unpark\<close> makes it available, \<open>park\<close> takes it and
  blocks without it.
\<close>

record 's solo =
  future :: 's
  solo_queue :: "unit list"
  token :: bool
  unparks :: nat
  solo_pc :: solo_pc

definition solo_init :: "'s \<Rightarrow> 's solo" where
  "solo_init f = \<lparr>future = f, solo_queue = [()], token = False, unparks = 0, solo_pc = Draining\<rparr>"

text \<open>\<open>ArcWake::wake_by_ref\<close> in two halves.\<close>

definition solo_push :: "unit list \<Rightarrow> 's solo \<Rightarrow> 's solo" where
  "solo_push ws s = s\<lparr>solo_queue := solo_queue s @ ws\<rparr>"

definition solo_unpark :: "'s solo \<Rightarrow> 's solo" where
  "solo_unpark s = s\<lparr>token := True\<rparr>"

definition solo_wake :: "unit list \<Rightarrow> 's solo \<Rightarrow> 's solo" where
  "solo_wake ws s = (if ws = [] then s else solo_unpark (solo_push ws s))"

text \<open>The body of the inner loop: pop a task, poll its future, return when it is ready.\<close>

definition solo_poll :: "(unit \<Rightarrow> 's \<Rightarrow> 'a poll \<times> 's \<times> unit list) \<Rightarrow> 's solo \<Rightarrow> 's solo" where
  "solo_poll pl s =
     (case solo_queue s of
        [] \<Rightarrow> s\<lparr>solo_pc := Parking\<rparr>
      | task # queue \<Rightarrow>
          (case pl () (future s) of (r, f, ws) \<Rightarrow>
             let s = solo_wake ws (s\<lparr>solo_queue := queue, future := f\<rparr>) in
             case r of PollReady _ \<Rightarrow> s\<lparr>solo_pc := Finished\<rparr> | PollPending \<Rightarrow> s))"

definition solo_park :: "'s solo \<Rightarrow> 's solo" where
  "solo_park s = (if token s then s\<lparr>token := False, solo_pc := Draining\<rparr> else s\<lparr>solo_pc := Parked\<rparr>)"

inductive solo_step ::
    "bool \<Rightarrow> (unit \<Rightarrow> 's \<Rightarrow> 'a poll \<times> 's \<times> unit list) \<Rightarrow> (instant \<Rightarrow> 's \<Rightarrow> 's \<times> unit list \<Rightarrow> bool) \<Rightarrow>
     's solo \<Rightarrow> 's solo \<Rightarrow> bool"
  for spurious pl ext where
  solo_drain: "solo_pc s = Draining \<Longrightarrow> solo_step spurious pl ext s (solo_poll pl s)"
| solo_park: "solo_pc s = Parking \<or> solo_pc s = Parked \<and> token s \<Longrightarrow> solo_step spurious pl ext s (solo_park s)"
| solo_spurious: "spurious \<Longrightarrow> solo_pc s = Parked \<Longrightarrow> solo_step spurious pl ext s (s\<lparr>solo_pc := Draining\<rparr>)"
| solo_other: "ext t (future s) (f, ws) \<Longrightarrow>
    solo_step spurious pl ext s (solo_push ws (s\<lparr>future := f, unparks := unparks s + length ws\<rparr>))"
| solo_owed: "unparks s = Suc n \<Longrightarrow> solo_step spurious pl ext s (solo_unpark (s\<lparr>unparks := n\<rparr>))"

abbreviation solo_reach where
  "solo_reach spurious pl ext \<equiv> (solo_step spurious pl ext)\<^sup>*\<^sup>*"

section \<open>No wake-up is lost\<close>

definition solo_awake :: "'s solo \<Rightarrow> bool" where
  "solo_awake s \<longleftrightarrow>
     (solo_pc s = Parking \<or> solo_pc s = Parked) \<and> solo_queue s \<noteq> [] \<longrightarrow> token s \<or> 0 < unparks s"

lemma solo_step_awake:
  assumes "solo_step sp pl ext s s'" "solo_awake s"
  shows "solo_awake s'"
  using assms
  by (cases rule: solo_step.cases)
    (auto simp: solo_awake_def solo_poll_def solo_park_def solo_push_def solo_unpark_def solo_wake_def
      Let_def split: list.splits prod.splits poll.splits)

lemma solo_reach_awake:
  assumes "solo_reach sp pl ext (solo_init f) s"
  shows "solo_awake s"
  using assms by (rule reach_invariant) (simp add: solo_awake_def solo_init_def, rule solo_step_awake)

section \<open>A future that keeps the contract is driven to its end\<close>

text \<open>The future is queued once while it is fresh or due, and not at all while it keeps the waker.\<close>

definition solo_ok :: "('s \<Rightarrow> bool) \<Rightarrow> ('s \<Rightarrow> bool) \<Rightarrow> ('s \<Rightarrow> bool) \<Rightarrow> 's solo \<Rightarrow> bool" where
  "solo_ok fresh armed due s \<longleftrightarrow>
     solo_pc s = Finished \<or>
     solo_queue s = [()] \<and> (fresh (future s) \<or> due (future s)) \<or>
     solo_queue s = [] \<and> armed (future s)"

context solo_future
begin

lemma solo_poll_ok:
  assumes "solo_ok fresh (armed ()) due s" "solo_pc s = Draining"
  shows "solo_ok fresh (armed ()) due (solo_poll pl s)"
proof (cases "solo_queue s")
  case Nil
  with assms show ?thesis by (simp add: solo_ok_def solo_poll_def)
next
  case (Cons t q)
  with assms have q: "q = []" "fresh (future s) \<or> due (future s)" by (auto simp: solo_ok_def)
  show ?thesis
  proof (cases "due (future s)")
    case True
    then obtain a f where "pl () (future s) = (PollReady a, f, [])" using poll_due by blast
    with Cons show ?thesis by (simp add: solo_ok_def solo_poll_def Let_def)
  next
    case False
    with q poll_early obtain f ws where "pl () (future s) = (PollPending, f, ws)"
      "ws = [()] \<and> due f \<or> ws = [] \<and> armed () f" by blast
    with Cons q assms show ?thesis
      by (auto simp: solo_ok_def solo_poll_def Let_def solo_wake_def solo_push_def solo_unpark_def)
  qed
qed

lemma solo_step_ok:
  assumes "solo_step sp pl ext s s'" "solo_ok fresh (armed ()) due s"
  shows "solo_ok fresh (armed ()) due s'"
  using assms
proof cases
  case solo_drain
  with assms(2) show ?thesis by (simp add: solo_poll_ok)
next
  case (solo_other t f ws)
  with assms(2) ext_fresh [OF _ solo_other(2)] ext_armed [OF _ solo_other(2)] ext_due [OF _ solo_other(2)]
  show ?thesis by (auto simp: solo_ok_def solo_push_def)
qed (use assms(2) in \<open>auto simp: solo_ok_def solo_park_def solo_unpark_def\<close>)

lemma solo_reach_ok:
  assumes "solo_reach sp pl ext (solo_init f) s" "fresh f \<or> due f"
  shows "solo_ok fresh (armed ()) due s"
  using assms(1)
proof (rule reach_invariant)
  show "solo_ok fresh (armed ()) due (solo_init f)" using assms(2) by (simp add: solo_ok_def solo_init_def)
qed (rule solo_step_ok)

lemma solo_ok_queue:
  "solo_ok fresh (armed ()) due s \<Longrightarrow>
     solo_pc s = Finished \<or> length (solo_queue s) \<le> 1 \<and> (due (future s) \<longrightarrow> solo_queue s = [()]) \<and>
       (solo_queue s = [] \<longrightarrow> armed () (future s))"
  using not_both by (auto simp: solo_ok_def)

lemma solo_drains:
  assumes "solo_awake s" "solo_queue s \<noteq> []" "solo_pc s \<noteq> Finished"
  shows "\<exists>s'. solo_reach False pl nobody s s' \<and> solo_pc s' = Draining \<and> solo_queue s' = solo_queue s \<and> future s' = future s"
proof -
  have parked: ?thesis if "solo_pc s = Parking \<or> solo_pc s = Parked" "token s"
  proof -
    have "solo_step False pl nobody s (solo_park s)" using that by (intro solo_step.solo_park) auto
    with that show ?thesis by (intro exI [of _ "solo_park s"]) (auto simp: solo_park_def)
  qed
  have owed: ?thesis if pc: "solo_pc s = Parking \<or> solo_pc s = Parked" and u: "unparks s = Suc n" for n
  proof -
    let ?t = "solo_unpark (s\<lparr>unparks := n\<rparr>)"
    have "solo_step False pl nobody s ?t" using u by (rule solo_step.solo_owed)
    moreover have "solo_step False pl nobody ?t (solo_park ?t)"
      using pc by (intro solo_step.solo_park) (auto simp: solo_unpark_def)
    ultimately show ?thesis
      by (intro exI [of _ "solo_park ?t"]) (auto simp: solo_park_def solo_unpark_def)
  qed
  show ?thesis
  proof (cases "solo_pc s")
    case Draining
    then show ?thesis by blast
  qed (use assms parked owed in \<open>auto simp: solo_awake_def gr0_conv_Suc\<close>)
qed

lemma solo_due_finishes:
  assumes "solo_awake s" "solo_ok fresh (armed ()) due s" "due (future s)"
  shows "\<exists>s'. solo_reach False pl nobody s s' \<and> solo_pc s' = Finished"
proof (cases "solo_pc s = Finished")
  case False
  with assms not_both(1) have "solo_queue s = [()]" by (auto simp: solo_ok_def)
  with solo_drains [OF assms(1) _ False] obtain t where t: "solo_reach False pl nobody s t" "solo_pc t = Draining"
    "solo_queue t = [()]" "future t = future s" by auto
  from poll_due [OF assms(3)] obtain a f where "pl () (future s) = (PollReady a, f, [])" by blast
  with t have "solo_pc (solo_poll pl t) = Finished" by (simp add: solo_poll_def Let_def)
  with t solo_step.solo_drain [OF t(2), of False pl nobody] show ?thesis
    by (meson rtranclp.rtrancl_into_rtrancl)
qed auto

end

text \<open>
  \<open>block_on\<close> of exercise 2.1 loses no wake-up, for every future and every interleaving with
  other threads: whenever its thread is about to park or parked with a task in the queue, the park
  token is there or a waker that has already pushed the task is about to hand it over.
\<close>

theorem block_on_no_lost_wakeup:
  assumes "solo_reach sp pl ext (solo_init f) s" "solo_pc s = Parking \<or> solo_pc s = Parked"
    and "solo_queue s \<noteq> []"
  shows "token s \<or> 0 < unparks s"
  using solo_reach_awake [OF assms(1)] assms(2,3) by (simp add: solo_awake_def)

theorem block_on_no_lost_wakeup_witness:
  "\<exists>s. solo_reach False poll_delay delay_ext (solo_init (delay_new 0 7)) s \<and> solo_pc s = Parked \<and>
     (token s \<or> 0 < unparks s)"
proof -
  let ?a = "solo_init (delay_new 0 7)"
  let ?b = "solo_poll poll_delay ?a"
  let ?c = "solo_park (solo_poll poll_delay ?b)"
  let ?d = "solo_push [()] (?c\<lparr>future := fst (delay_thread (future ?c)), unparks := unparks ?c + length [()]\<rparr>)"
  note ev = solo_init_def solo_poll_def solo_park_def poll_delay_def delay_new_def delay_ext_def
    delay_thread_def solo_push_def solo_wake_def
  have "solo_step False poll_delay delay_ext ?a ?b" by (rule solo_step.solo_drain) (simp add: ev)
  moreover have "solo_step False poll_delay delay_ext ?b (solo_poll poll_delay ?b)"
    by (rule solo_step.solo_drain) (simp add: ev)
  moreover have "solo_step False poll_delay delay_ext (solo_poll poll_delay ?b) ?c"
    by (rule solo_step.solo_park) (simp add: ev)
  moreover have "solo_step False poll_delay delay_ext ?c ?d"
    by (rule solo_step.solo_other [where t = 7]) (simp add: ev)
  ultimately have r: "solo_reach False poll_delay delay_ext ?a ?d" by (meson r_into_rtranclp rtranclp.rtrancl_into_rtrancl)
  have pc: "solo_pc ?d = Parked" "solo_queue ?d \<noteq> []" by (simp_all add: ev)
  from block_on_no_lost_wakeup [OF r disjI2 [OF pc(1)] pc(2)] r pc(1) show ?thesis by blast
qed

text \<open>
  C23: \<open>block_on\<close> of exercise 2.1 returns. In every reachable state, however other threads
  interleave and with spurious wake-ups, until \<open>block_on\<close> has returned a future that keeps the contract of wakers
  is in the queue at most once; it is there when its next poll would complete it, and when it is not, it
  keeps its waker. And when its next poll would complete it, the steps of the executor and the unparks on their way lead
  to the return of \<open>block_on\<close>, without a step of another thread and without a spurious wake-up.
\<close>

theorem block_on_returns:
  assumes "wakeful pl ext fresh armed due" "fresh f \<or> due f"
    and "solo_reach sp pl ext (solo_init f) s"
  shows "(solo_pc s = Finished \<or> length (solo_queue s) \<le> 1 \<and> (due (future s) \<longrightarrow> solo_queue s = [()]) \<and>
      (solo_queue s = [] \<longrightarrow> armed () (future s))) \<and>
    (due (future s) \<longrightarrow> (\<exists>s'. solo_reach False pl nobody s s' \<and> solo_pc s' = Finished))"
proof -
  from assms(1) have sf: "solo_future pl ext fresh armed due" by (rule solo_future.intro)
  note ok = solo_future.solo_reach_ok [OF sf assms(3,2)]
  show ?thesis
    using solo_future.solo_due_finishes [OF sf solo_reach_awake [OF assms(3)] ok] solo_future.solo_ok_queue [OF sf ok]
    by blast
qed

theorem block_on_returns_witness:
  "\<exists>s'. solo_reach False poll_yield_now nobody (solo_poll poll_yield_now (solo_init yield_now)) s' \<and>
     solo_pc s' = Finished"
proof -
  let ?a = "solo_init yield_now" and ?b = "solo_poll poll_yield_now (solo_init yield_now)"
  have "solo_step False poll_yield_now yield_ext ?a ?b" by (rule solo_step.solo_drain) (simp add: solo_init_def)
  then have r: "solo_reach False poll_yield_now yield_ext ?a ?b" by simp
  have "yield_fresh yield_now \<or> yielded yield_now" by (simp add: yield_fresh_def)
  moreover have "yielded (future ?b)"
    by (simp add: solo_poll_def solo_init_def yield_now_def poll_yield_now_def solo_wake_def solo_push_def
        solo_unpark_def)
  ultimately show ?thesis
    using block_on_returns [OF yield_future.wakeful_axioms _ r] by blast
qed

end
