(* ===== verification/Executor.thy ===== *)
theory Executor
  imports Prelude
begin

text \<open>
  \<open>src/workshop/src/solutions/ex2_2.rs\<close>: \<open>block_on\<close> with \<open>spawn\<close>. A task is its index in the list
  of futures given to the executor so far; the main future is task 0. The futures are a parameter:
  a poll changes the future and what it shares with others and performs a list of actions (wake a
  task, spawn a future). Other threads push tasks into the queue between any two actions; the
  wakers among them that have not yet unparked the executor are counted in \<open>ex_owed\<close>.
\<close>

section \<open>State and operations\<close>

datatype 'f action = Wake nat | Spawn 'f

type_synonym ('f, 'e) poll_fn = "nat \<Rightarrow> 'f \<Rightarrow> 'e \<Rightarrow> bool \<times> 'f \<times> 'e \<times> 'f action list"

datatype 'f exec_pc =
    Draining
  | Acting "'f action list"
  | Parking
  | Parked
  | Returned
  | Panicked

text \<open>
  \<open>ex_futures\<close> holds \<open>None\<close> for a future that has returned; \<open>ex_current\<close> says whether the
  thread-local \<open>CURRENT\<close> holds the executor; \<open>ex_pushed\<close> and \<open>ex_polled\<close> record what was pushed
  into the queue and what was polled, in order.
\<close>

record ('f, 'e) exec =
  ex_queue :: "nat list"
  ex_futures :: "'f option list"
  ex_world :: 'e
  ex_token :: bool
  ex_owed :: nat
  ex_current :: bool
  ex_done :: bool
  ex_pc :: "'f exec_pc"
  ex_pushed :: "nat list"
  ex_polled :: "nat list"

definition ex_init :: "'f \<Rightarrow> 'e \<Rightarrow> ('f, 'e) exec" where
  "ex_init main w =
     \<lparr>ex_queue = [0], ex_futures = [Some main], ex_world = w, ex_token = False, ex_owed = 0,
      ex_current = True, ex_done = False, ex_pc = Draining, ex_pushed = [0], ex_polled = []\<rparr>"

definition ex_push :: "nat list \<Rightarrow> ('f, 'e) exec \<Rightarrow> ('f, 'e) exec" where
  "ex_push ts s = s\<lparr>ex_queue := ex_queue s @ ts, ex_pushed := ex_pushed s @ ts\<rparr>"

definition ex_unpark :: "('f, 'e) exec \<Rightarrow> ('f, 'e) exec" where
  "ex_unpark s = s\<lparr>ex_token := True\<rparr>"

text \<open>\<open>ArcWake::wake_by_ref\<close> on the executor's own thread.\<close>

definition wake_by_ref :: "nat \<Rightarrow> ('f, 'e) exec \<Rightarrow> ('f, 'e) exec" where
  "wake_by_ref t s = ex_unpark (ex_push [t] s)"

text \<open>\<open>spawn\<close>: take the executor out of the thread-local, push the new task, put it back.\<close>

definition spawn :: "'f \<Rightarrow> ('f, 'e) exec \<Rightarrow> ('f, 'e) exec" where
  "spawn f s =
     (if \<not> ex_current s then s\<lparr>ex_pc := Panicked\<rparr>
      else
        let s = s\<lparr>ex_current := False\<rparr>;
            s = s\<lparr>ex_futures := ex_futures s @ [Some f]\<rparr>;
            s = ex_unpark (ex_push [length (ex_futures s) - 1] s)
        in s\<lparr>ex_current := True\<rparr>)"

text \<open>A waker is a reference to a task, so it exists for tasks of the executor only.\<close>

fun perform :: "'f action \<Rightarrow> ('f, 'e) exec \<Rightarrow> ('f, 'e) exec" where
  "perform (Wake t) s = (if t < length (ex_futures s) then wake_by_ref t s else s)"
| "perform (Spawn f) s = spawn f s"

text \<open>
  The body of the inner loop. A future that has returned must not be polled again: the main task
  and every \<open>async\<close> block panic. The wrapper around the main future sets \<open>done\<close> when it returns.
  With an empty queue the loop ends, and \<open>done\<close> decides between returning and parking.
\<close>

definition drain :: "('f, 'e) poll_fn \<Rightarrow> ('f, 'e) exec \<Rightarrow> ('f, 'e) exec" where
  "drain pl s =
     (case ex_queue s of
        [] \<Rightarrow>
          if ex_done s then s\<lparr>ex_current := False, ex_pc := Returned\<rparr>
          else s\<lparr>ex_pc := Parking\<rparr>
      | t # q \<Rightarrow>
          let s = s\<lparr>ex_queue := q, ex_polled := ex_polled s @ [t]\<rparr> in
          (case ex_futures s ! t of
             None \<Rightarrow> s\<lparr>ex_pc := Panicked\<rparr>
           | Some f \<Rightarrow>
               (case pl t f (ex_world s) of (ready, f, w, acts) \<Rightarrow>
                  s\<lparr>ex_futures := (ex_futures s)[t := if ready then None else Some f],
                    ex_world := w, ex_done := ex_done s \<or> ready \<and> t = 0, ex_pc := Acting acts\<rparr>)))"

definition ex_park :: "('f, 'e) exec \<Rightarrow> ('f, 'e) exec" where
  "ex_park s = (if ex_token s then s\<lparr>ex_token := False, ex_pc := Draining\<rparr> else s\<lparr>ex_pc := Parked\<rparr>)"

text \<open>The actions of the poll that is under way, one at a time.\<close>

definition act :: "('f, 'e) exec \<Rightarrow> ('f, 'e) exec" where
  "act s = (case ex_pc s of
     Acting (a # as) \<Rightarrow> perform a (s\<lparr>ex_pc := Acting as\<rparr>)
   | _ \<Rightarrow> s\<lparr>ex_pc := Draining\<rparr>)"

inductive exec_step ::
    "bool \<Rightarrow> ('f, 'e) poll_fn \<Rightarrow> ('e \<Rightarrow> 'e \<times> nat list \<Rightarrow> bool) \<Rightarrow> ('f, 'e) exec \<Rightarrow> ('f, 'e) exec \<Rightarrow> bool"
  for spurious pl ext where
  exec_drain: "ex_pc s = Draining \<Longrightarrow> exec_step spurious pl ext s (drain pl s)"
| exec_act: "ex_pc s = Acting as \<Longrightarrow> exec_step spurious pl ext s (act s)"
| exec_park: "ex_pc s = Parking \<or> ex_pc s = Parked \<and> ex_token s \<Longrightarrow> exec_step spurious pl ext s (ex_park s)"
| exec_spurious: "spurious \<Longrightarrow> ex_pc s = Parked \<Longrightarrow> exec_step spurious pl ext s (s\<lparr>ex_pc := Draining\<rparr>)"
| exec_other: "ext (ex_world s) (w, ts) \<Longrightarrow> \<forall>t \<in> set ts. t < length (ex_futures s) \<Longrightarrow>
    exec_step spurious pl ext s (ex_push ts (s\<lparr>ex_world := w, ex_owed := ex_owed s + length ts\<rparr>))"
| exec_owed: "ex_owed s = Suc n \<Longrightarrow> exec_step spurious pl ext s (ex_unpark (s\<lparr>ex_owed := n\<rparr>))"

abbreviation exec_reach where
  "exec_reach spurious pl ext \<equiv> (exec_step spurious pl ext)\<^sup>*\<^sup>*"

section \<open>Invariants\<close>

lemmas exec_defs = ex_push_def ex_unpark_def wake_by_ref_def spawn_def drain_def ex_park_def act_def

text \<open>
  While the executor runs it is in the thread-local; what was pushed is what was polled and what
  is queued; a parked executor with work has the token or will get it; it has returned only when
  the main future has.
\<close>

definition exec_ok :: "('f, 'e) exec \<Rightarrow> bool" where
  "exec_ok s \<longleftrightarrow>
     (ex_pc s \<noteq> Returned \<longrightarrow> ex_current s) \<and>
     ex_pushed s = ex_polled s @ ex_queue s \<and>
     ((ex_pc s = Parking \<or> ex_pc s = Parked) \<and> ex_queue s \<noteq> [] \<longrightarrow> ex_token s \<or> 0 < ex_owed s) \<and>
     (\<forall>t \<in> set (ex_queue s). t < length (ex_futures s)) \<and>
     ex_futures s \<noteq> [] \<and> (ex_done s \<longrightarrow> ex_futures s ! 0 = None) \<and>
     (ex_pc s = Parking \<or> ex_pc s = Parked \<longrightarrow> \<not> ex_done s) \<and>
     (ex_pc s = Returned \<longrightarrow> ex_done s \<and> \<not> ex_current s)"

lemma perform_ok:
  assumes "exec_ok s" "ex_pc s = Acting as"
  shows "exec_ok (perform a s)"
  using assms by (cases a) (auto simp: exec_ok_def exec_defs Let_def nth_append)

lemma act_ok:
  assumes "exec_ok s" "ex_pc s = Acting as"
  shows "exec_ok (act s)"
proof (cases as)
  case Nil
  with assms show ?thesis by (simp add: exec_ok_def act_def)
next
  case (Cons a as')
  with assms have "exec_ok (s\<lparr>ex_pc := Acting as'\<rparr>)" by (simp add: exec_ok_def)
  from perform_ok [OF this] assms(2) Cons show ?thesis by (simp add: act_def)
qed

lemma drain_ok:
  assumes "exec_ok s" "ex_pc s = Draining"
  shows "exec_ok (drain pl s)"
  using assms
  by (auto simp: exec_ok_def drain_def Let_def nth_list_update split: list.splits option.splits prod.splits)

lemma exec_step_ok:
  assumes "exec_step sp pl ext s s'" "exec_ok s"
  shows "exec_ok s'"
  using assms(1)
proof cases
  case (exec_other w ts)
  with assms(2) show ?thesis by (auto simp: exec_ok_def ex_push_def)
qed (use assms(2) in \<open>auto simp: drain_ok act_ok, auto simp: exec_ok_def ex_park_def ex_unpark_def\<close>)

lemma exec_reach_ok:
  assumes "exec_reach sp pl ext (ex_init main w) s"
  shows "exec_ok s"
  using assms by (rule reach_invariant) (simp add: exec_ok_def ex_init_def, rule exec_step_ok)

section \<open>A woken task is polled\<close>

lemma act_keeps:
  assumes "ex_pc s = Acting as" "ex_current s"
  shows "\<exists>new. ex_queue (act s) = ex_queue s @ new" "ex_polled (act s) = ex_polled s"
    "ex_current (act s)" "ex_pc (act s) = (case as of [] \<Rightarrow> Draining | a # as' \<Rightarrow> Acting as')"
proof -
  have "(\<exists>new. ex_queue (act s) = ex_queue s @ new) \<and> ex_polled (act s) = ex_polled s \<and>
    ex_current (act s) \<and> ex_pc (act s) = (case as of [] \<Rightarrow> Draining | a # as' \<Rightarrow> Acting as')"
  proof (cases as)
    case (Cons a as')
    with assms show ?thesis by (cases a) (auto simp: exec_defs Let_def)
  qed (use assms in \<open>simp add: act_def\<close>)
  then show "\<exists>new. ex_queue (act s) = ex_queue s @ new" "ex_polled (act s) = ex_polled s"
    "ex_current (act s)" "ex_pc (act s) = (case as of [] \<Rightarrow> Draining | a # as' \<Rightarrow> Acting as')" by auto
qed

text \<open>The actions of a poll end, and they only add to the queue.\<close>

lemma acts_end:
  assumes "ex_pc s = Acting as" "ex_current s"
  shows "\<exists>s' new. exec_reach sp pl ext s s' \<and> ex_pc s' = Draining \<and> ex_current s' \<and>
    ex_queue s' = ex_queue s @ new \<and> ex_polled s' = ex_polled s"
  using assms
proof (induction as arbitrary: s)
  case Nil
  with act_keeps [of s "[]"] exec_step.exec_act [of s "[]" sp pl ext] show ?case
    by (intro exI [of _ "act s"]) auto
next
  case (Cons a as)
  note k = act_keeps [OF Cons.prems]
  from k(4) have "ex_pc (act s) = Acting as" by simp
  from Cons.IH [OF this k(3)] obtain s' new where s': "exec_reach sp pl ext (act s) s'" "ex_pc s' = Draining"
    "ex_current s'" "ex_queue s' = ex_queue (act s) @ new" "ex_polled s' = ex_polled (act s)" by blast
  have "exec_reach sp pl ext s s'"
    using exec_step.exec_act [OF Cons.prems(1)] s'(1) by (rule converse_rtranclp_into_rtranclp)
  with s' k(1,2) show ?case by auto
qed

lemma poll_next:
  assumes "ex_pc s = Draining" "ex_current s" "ex_queue s = t # q"
  shows "\<exists>s' new. exec_reach sp pl ext s s' \<and> ex_polled s' = ex_polled s @ [t] \<and>
    (ex_pc s' = Panicked \<or> ex_pc s' = Draining \<and> ex_current s' \<and> ex_queue s' = q @ new)"
proof (cases "ex_futures s ! t")
  case None
  with assms exec_step.exec_drain [OF assms(1), of sp pl ext] show ?thesis
    by (intro exI [of _ "drain pl s"]) (auto simp: drain_def)
next
  case (Some f)
  obtain ready f' w acts where "pl t f (ex_world s) = (ready, f', w, acts)" by (metis surj_pair)
  with assms Some have d: "ex_pc (drain pl s) = Acting acts" "ex_current (drain pl s)"
    "ex_queue (drain pl s) = q" "ex_polled (drain pl s) = ex_polled s @ [t]"
    by (simp_all add: drain_def)
  from acts_end [OF d(1,2)] obtain s' new where "exec_reach sp pl ext (drain pl s) s'" "ex_pc s' = Draining"
    "ex_current s'" "ex_queue s' = q @ new" "ex_polled s' = ex_polled s @ [t]"
    unfolding d by blast
  with exec_step.exec_drain [OF assms(1), of sp pl ext] show ?thesis
    by (meson converse_rtranclp_into_rtranclp)
qed

lemma drain_up_to:
  assumes "ex_pc s = Draining" "ex_current s" "ex_queue s = q1 @ t # q2"
  shows "\<exists>s'. exec_reach sp pl ext s s' \<and>
    (ex_pc s' = Panicked \<or> ex_polled s' = ex_polled s @ q1 @ [t])"
  using assms
proof (induction q1 arbitrary: s q2)
  case Nil
  with poll_next [of s t q2 sp pl ext] show ?case by auto
next
  case (Cons u q1)
  from poll_next [OF Cons.prems(1,2), of u "q1 @ t # q2" sp pl ext] Cons.prems(3)
  obtain s1 new where s1: "exec_reach sp pl ext s s1" "ex_polled s1 = ex_polled s @ [u]"
    "ex_pc s1 = Panicked \<or> ex_pc s1 = Draining \<and> ex_current s1 \<and> ex_queue s1 = q1 @ t # q2 @ new" by auto
  show ?case
  proof (cases "ex_pc s1 = Panicked")
    case False
    with s1(3) have "ex_pc s1 = Draining" "ex_current s1" "ex_queue s1 = q1 @ t # (q2 @ new)" by auto
    from Cons.IH [OF this] s1(1,2) show ?thesis by (auto intro: rtranclp_trans)
  qed (use s1 in blast)
qed

lemma gets_draining:
  assumes "exec_ok s" "ex_queue s \<noteq> []" "ex_pc s \<noteq> Returned" "ex_pc s \<noteq> Panicked"
  shows "\<exists>s' new. exec_reach sp pl ext s s' \<and> ex_pc s' = Draining \<and> ex_current s' \<and>
    ex_queue s' = ex_queue s @ new \<and> ex_polled s' = ex_polled s"
proof -
  have c: "ex_current s" using assms by (simp add: exec_ok_def)
  have parked: ?thesis if "ex_pc s = Parking \<or> ex_pc s = Parked" "ex_token s"
    using that c exec_step.exec_park [of s sp pl ext]
    by (intro exI [of _ "ex_park s"]) (auto simp: ex_park_def)
  have owed: ?thesis if pc: "ex_pc s = Parking \<or> ex_pc s = Parked" and u: "ex_owed s = Suc n" for n
  proof -
    let ?t = "ex_unpark (s\<lparr>ex_owed := n\<rparr>)"
    have "exec_step sp pl ext s ?t" using u by (rule exec_step.exec_owed)
    moreover have "exec_step sp pl ext ?t (ex_park ?t)"
      using pc by (intro exec_step.exec_park) (auto simp: ex_unpark_def)
    ultimately show ?thesis
      using c by (intro exI [of _ "ex_park ?t"]) (auto simp: ex_park_def ex_unpark_def)
  qed
  show ?thesis
  proof (cases "ex_pc s")
    case Draining
    with c show ?thesis by (intro exI [of _ s]) simp
  next
    case (Acting as)
    from acts_end [OF this c] show ?thesis .
  qed (use assms parked owed in \<open>auto simp: exec_ok_def gr0_conv_Suc\<close>)
qed

text \<open>Runs of the executor on its own, for concrete futures.\<close>

definition advance_exec :: "('f, 'e) poll_fn \<Rightarrow> ('f, 'e) exec \<Rightarrow> ('f, 'e) exec" where
  "advance_exec pl s = (case ex_pc s of Draining \<Rightarrow> drain pl s | Acting _ \<Rightarrow> act s | _ \<Rightarrow> s)"

lemma advance_exec_reach: "exec_reach sp pl ext s ((advance_exec pl ^^ n) s)"
proof (induction n)
  case (Suc n)
  have "exec_reach sp pl ext t (advance_exec pl t)" for t
    by (cases "ex_pc t") (simp_all add: advance_exec_def r_into_rtranclp exec_step.intros)
  with Suc.IH show ?case by (simp add: rtranclp_trans)
qed simp

lemmas exec_eval = ex_init_def advance_exec_def exec_defs numeral_eq_Suc

text \<open>A main future that spawns a task and returns; the task yields for ever.\<close>

definition spin :: "(nat, unit) poll_fn" where
  "spin t f w = (if f = 0 then (True, f, w, [Spawn 1]) else (False, f, w, [Wake t]))"

text \<open>A future that wakes itself twice before it returns, as two futures that yield side by side do.\<close>

definition twice :: "(nat, unit) poll_fn" where
  "twice t f w = (if f = 0 then (False, 1, w, [Wake t, Wake t]) else (True, f, w, []))"

text \<open>
  No wake-up is lost by the executor of exercise 2.2 and the run queue is fair: from every
  reachable state with a task in the queue, whatever the executor is doing, its own steps and the
  unparks on their way (no step of another thread and no spurious wake-up) poll first the tasks queued before it, in their order, and then the task
  itself (unless one of these polls panics).
\<close>

theorem queued_task_polled:
  assumes "exec_reach sp pl ext (ex_init main w) s" "ex_queue s = q1 @ t # q2"
    and "ex_pc s \<noteq> Returned" "ex_pc s \<noteq> Panicked"
  shows "\<exists>s'. exec_reach False pl (\<lambda>_ _. False) s s' \<and>
    (ex_pc s' = Panicked \<or> ex_polled s' = ex_polled s @ q1 @ [t])"
proof -
  from gets_draining [OF exec_reach_ok [OF assms(1)] _ assms(3,4), of False pl "\<lambda>_ _. False"] assms(2) obtain s1 new where
    s1: "exec_reach False pl (\<lambda>_ _. False) s s1" "ex_pc s1 = Draining" "ex_current s1" "ex_queue s1 = q1 @ t # (q2 @ new)"
      "ex_polled s1 = ex_polled s" by auto
  from drain_up_to [OF s1(2-4), of False pl "\<lambda>_ _. False"] s1(1,5) show ?thesis by (auto intro: rtranclp_trans)
qed

theorem queued_task_polled_witness:
  "\<exists>s'. exec_reach False spin (\<lambda>_ _. False) (ex_init 0 ()) s' \<and>
     (ex_pc s' = Panicked \<or> ex_polled s' = [0, 1])"
proof -
  let ?s = "(advance_exec spin ^^ 2) (ex_init 0 ())"
  have "ex_queue ?s = [] @ 1 # []" "ex_pc ?s \<noteq> Returned" "ex_pc ?s \<noteq> Panicked" "ex_polled ?s = [0]"
    by (simp_all add: exec_eval spin_def Let_def)
  with queued_task_polled [OF advance_exec_reach [of False spin "\<lambda>_ _. False" "ex_init 0 ()" 2]]
    advance_exec_reach [of False spin "\<lambda>_ _. False" "ex_init 0 ()" 2]
  show ?thesis by (metis (no_types, lifting) append_Cons append_Nil rtranclp_trans)
qed

text \<open>
  \<open>block_on\<close> of exercise 2.2 returns only when the main future has, with the thread-local
  cleared; tasks are polled in exactly the order in which they were pushed, once per push; and
  while the executor runs, \<open>spawn\<close> finds it.
\<close>

theorem executor_order:
  assumes "exec_reach sp pl ext (ex_init main w) s"
  shows "ex_pushed s = ex_polled s @ ex_queue s \<and>
    (if ex_pc s = Returned then ex_done s \<and> ex_futures s ! 0 = None \<and> \<not> ex_current s
     else ex_current s)"
  using exec_reach_ok [OF assms] by (auto simp: exec_ok_def)

theorem executor_order_witness:
  "ex_pushed ((advance_exec spin ^^ 4) (ex_init 0 ())) = [0, 1] @ ex_queue ((advance_exec spin ^^ 4) (ex_init 0 ()))"
proof -
  have "ex_polled ((advance_exec spin ^^ 4) (ex_init 0 ())) = [0, 1]"
    by (simp add: exec_eval spin_def Let_def)
  with executor_order [OF advance_exec_reach [of False spin "\<lambda>_ _. False" "ex_init 0 ()" 4]] show ?thesis by simp
qed

section \<open>Two flaws\<close>

text \<open>What keeps the executor from returning: the spinning task is queued or about to be.\<close>

definition spinning :: "(nat, unit) exec \<Rightarrow> bool" where
  "spinning s \<longleftrightarrow>
     ex_pc s = Panicked \<or>
     ex_current s \<and> ex_pc s \<noteq> Returned \<and>
     (\<not> ex_done s \<and> ex_futures s = [Some 0] \<and> (\<forall>as. ex_pc s \<noteq> Acting as) \<or>
      ex_futures s = [None] \<and> ex_pc s = Acting [Spawn 1] \<or>
      ex_futures s = [None, Some 1] \<and>
        (1 \<in> set (ex_queue s) \<and> (\<forall>as. ex_pc s = Acting as \<longrightarrow> as = [] \<or> as = [Wake 1]) \<or> ex_pc s = Acting [Wake 1]))"

lemma spinning_step:
  assumes "exec_step sp spin ext s s'" "spinning s" "exec_ok s"
  shows "spinning s'"
  using assms(1)
proof cases
  case exec_drain
  with assms(2,3) show ?thesis
    by (cases "ex_queue s")
      (auto simp: spinning_def exec_ok_def drain_def spin_def Let_def nth_Cons split: option.splits nat.splits)
next
  case (exec_act as)
  with assms(2) show ?thesis by (auto simp: spinning_def act_def exec_defs Let_def)
qed (use assms(2) in \<open>auto simp: spinning_def ex_push_def ex_unpark_def ex_park_def\<close>)

text \<open>
  \<open>block_on\<close> of exercise 2.2 does not return as soon as the main future completes. It drains the
  queue first, so a spawned task that keeps yielding keeps it from returning for ever, with the
  main future done and whatever other threads do.
\<close>

theorem done_but_never_returns:
  "(\<exists>s. exec_reach sp spin ext (ex_init 0 ()) s \<and> ex_done s) \<and>
   \<not> (\<exists>s. exec_reach sp spin ext (ex_init 0 ()) s \<and> ex_pc s = Returned)"
proof (intro conjI notI)
  have "ex_done ((advance_exec spin ^^ 1) (ex_init 0 ()))" by (simp add: exec_eval spin_def)
  with advance_exec_reach show "\<exists>s. exec_reach sp spin ext (ex_init 0 ()) s \<and> ex_done s" by blast
next
  assume "\<exists>s. exec_reach sp spin ext (ex_init 0 ()) s \<and> ex_pc s = Returned"
  then obtain s where s: "exec_reach sp spin ext (ex_init 0 ()) s" "ex_pc s = Returned" by blast
  from s(1) have "spinning s \<and> exec_ok s"
  proof (rule reach_invariant)
    show "spinning (ex_init 0 ()) \<and> exec_ok (ex_init 0 ())"
      by (simp add: spinning_def ex_init_def exec_ok_def)
  qed (blast intro: spinning_step exec_step_ok)
  with s(2) show False by (simp add: spinning_def)
qed

text \<open>
  A task woken twice before it is polled is in the queue twice. If the first of the two polls
  completes it, the second polls a future that has returned: the executor of exercise 2.2 panics,
  although the main future has completed.
\<close>

theorem second_wake_panics:
  "\<exists>s. exec_reach sp twice ext (ex_init 0 ()) s \<and> ex_done s \<and> ex_pc s = Panicked"
proof -
  let ?s = "(advance_exec twice ^^ 7) (ex_init 0 ())"
  have "ex_done ?s" "ex_pc ?s = Panicked" by (simp_all add: exec_eval twice_def Let_def)
  with advance_exec_reach show ?thesis by blast
qed

end
