(* ===== verification/Async_Blocks.thy ===== *)
theory Async_Blocks
  imports Block_On Executor
begin

text \<open>
  Asynchronous blocks over the futures of exercise 1 on the executors of exercise 2: the language
  of the programs in \<open>run\<close> and in the tests of \<open>src/workshop/src/ex2_1.rs\<close> and \<open>ex2_2.rs\<close>. A block
  yields, sleeps, receives from a oneshot channel, sends, starts a thread that sends later, spawns
  a block, and writes to something its tests look at. Its future is what the block awaits and the
  code after the \<open>await\<close>; the timers, channels and threads it started are shared with other
  threads and make up the world of the executor. The lemmas hold for every block: handles keep a
  single owner, no task is polled after its end, an executor at rest waits for a timer or a
  message, and a run without the clock is finite.
\<close>

section \<open>Blocks and their futures\<close>

text \<open>
  A channel is a number: \<open>oneshot()\<close> hands out its two halves. \<open>Record\<close> stands for the effects the
  tests look at (a push, a store, a \<open>fetch_add\<close>, a line printed); a received value is recorded
  too, since the programs assert or print it.
\<close>

datatype 'v stmt =
    AwaitYield
  | AwaitDelay duration
  | AwaitRecv nat
  | Send nat 'v
  | SendLater nat duration 'v
  | SpawnAsync "'v stmt list"
  | Record 'v

datatype awaiting =
    Running
  | OnYield YieldNow
  | OnDelay nat
  | OnRecv nat

type_synonym 'v block = "awaiting \<times> 'v stmt list"

text \<open>A thread of the program sleeps until an instant and sends a value.\<close>

record 'v world =
  w_clock :: instant
  w_timers :: "nat Delay list"
  w_chans :: "nat \<Rightarrow> ('v, nat) channel"
  w_threads :: "(instant \<times> nat \<times> 'v) list"
  w_log :: "'v list"

definition world_init :: "'v world" where
  "world_init = \<lparr>w_clock = 0, w_timers = [], w_chans = \<lambda>_. oneshot, w_threads = [], w_log = []\<rparr>"

text \<open>Polls of the awaited future, with the waker of task \<open>t\<close>.\<close>

fun poll_await :: "nat \<Rightarrow> awaiting \<Rightarrow> 'v world \<Rightarrow> bool \<times> awaiting \<times> 'v world \<times> nat list" where
  "poll_await t Running w = (True, Running, w, [])"
| "poll_await t (OnYield y) w =
     (case poll_yield_now t y of (r, y, ws) \<Rightarrow> (r \<noteq> PollPending, OnYield y, w, ws))"
| "poll_await t (OnDelay i) w =
     (case poll_delay t (w_timers w ! i) of (r, d, ws) \<Rightarrow>
        (r \<noteq> PollPending, OnDelay i, w\<lparr>w_timers := (w_timers w)[i := d]\<rparr>, ws))"
| "poll_await t (OnRecv c) w =
     (case poll_receiver t (w_chans w c) of (r, ch, ws) \<Rightarrow>
        (r \<noteq> PollPending, OnRecv c,
         w\<lparr>w_chans := (w_chans w)(c := ch),
           w_log := w_log w @ (case r of PollReady v \<Rightarrow> [v] | PollPending \<Rightarrow> [])\<rparr>, ws))"

text \<open>A statement up to its \<open>await\<close>, if it has one.\<close>

fun enter :: "'v stmt \<Rightarrow> 'v world \<Rightarrow> awaiting \<times> 'v world \<times> 'v block action list" where
  "enter AwaitYield w = (OnYield yield_now, w, [])"
| "enter (AwaitDelay dur) w =
     (OnDelay (length (w_timers w)), w\<lparr>w_timers := w_timers w @ [delay_new (w_clock w) dur]\<rparr>, [])"
| "enter (AwaitRecv c) w = (OnRecv c, w, [])"
| "enter (Send c v) w =
     (case oneshot_send v (w_chans w c) of (ch, ws) \<Rightarrow>
        (Running, w\<lparr>w_chans := (w_chans w)(c := ch)\<rparr>, map Wake ws))"
| "enter (SendLater c dur v) w =
     (Running, w\<lparr>w_threads := w_threads w @ [(w_clock w + dur, c, v)]\<rparr>, [])"
| "enter (SpawnAsync b) w = (Running, w, [Spawn (Running, b)])"
| "enter (Record v) w = (Running, w\<lparr>w_log := w_log w @ [v]\<rparr>, [])"

text \<open>The code runs until it ends or awaits a future that is pending.\<close>

fun run_code :: "nat \<Rightarrow> 'v stmt list \<Rightarrow> 'v world \<Rightarrow> bool \<times> 'v block \<times> 'v world \<times> 'v block action list" where
  "run_code t [] w = (True, (Running, []), w, [])"
| "run_code t (st # k) w =
     (case enter st w of (aw, w, new) \<Rightarrow>
        case poll_await t aw w of (ready, aw, w, ws) \<Rightarrow>
          if ready then
            (case run_code t k w of (r, b, w, acts) \<Rightarrow> (r, b, w, new @ map Wake ws @ acts))
          else (False, (aw, k), w, new @ map Wake ws))"

fun poll_block :: "nat \<Rightarrow> 'v block \<Rightarrow> 'v world \<Rightarrow> bool \<times> 'v block \<times> 'v world \<times> 'v block action list" where
  "poll_block t (aw, k) w =
     (case poll_await t aw w of (ready, aw, w, ws) \<Rightarrow>
        if ready then (case run_code t k w of (r, b, w, acts) \<Rightarrow> (r, b, w, map Wake ws @ acts))
        else (False, (aw, k), w, map Wake ws))"

text \<open>The other threads: the clock (if \<open>ticks\<close>), the timers, and the threads that send.\<close>

inductive others :: "bool \<Rightarrow> 'v world \<Rightarrow> 'v world \<times> nat list \<Rightarrow> bool" for ticks where
  others_tick: "ticks \<Longrightarrow> others ticks w (w\<lparr>w_clock := w_clock w + d\<rparr>, [])"
| others_fire: "i < length (w_timers w) \<Longrightarrow> delay_ext (w_clock w) (w_timers w ! i) (d, ws) \<Longrightarrow>
    others ticks w (w\<lparr>w_timers := (w_timers w)[i := d]\<rparr>, ws)"
| others_send: "w_threads w = th1 @ (due, c, v) # th2 \<Longrightarrow> due \<le> w_clock w \<Longrightarrow>
    oneshot_send v (w_chans w c) = (ch, ws) \<Longrightarrow>
    others ticks w (w\<lparr>w_chans := (w_chans w)(c := ch), w_threads := th1 @ th2\<rparr>, ws)"

text \<open>The executor of exercise 2.2 on the main block \<open>b\<close>.\<close>

abbreviation async_start :: "'v stmt list \<Rightarrow> ('v block, 'v world) exec" where
  "async_start b \<equiv> ex_init (Running, b) world_init"

abbreviation async_step where
  "async_step sp ticks \<equiv> exec_step sp poll_block (others ticks)"

abbreviation async_reach where
  "async_reach sp \<equiv> exec_reach sp poll_block (others True)"

section \<open>Costs\<close>

text \<open>
  A cost weighs the statements of a block (those of the blocks it spawns included) with \<open>f\<close>, what
  it awaits with \<open>g\<close>, each action with \<open>n\<close> and the world with \<open>ww\<close>. If awaiting and entering a
  statement do not add to it, no poll does, and the cost of the executor's state bounds what
  its tasks can still do.
\<close>

fun uses :: "('v stmt \<Rightarrow> nat) \<Rightarrow> 'v stmt list \<Rightarrow> nat" where
  "uses f [] = 0"
| "uses f (SpawnAsync b # k) = f (SpawnAsync b) + uses f b + uses f k"
| "uses f (st # k) = f st + uses f k"

definition nested :: "('v stmt \<Rightarrow> nat) \<Rightarrow> 'v stmt \<Rightarrow> nat" where
  "nested f st = f st + (case st of SpawnAsync b \<Rightarrow> uses f b | _ \<Rightarrow> 0)"

lemma uses_Cons: "uses f (st # k) = nested f st + uses f k"
  by (cases st) (simp_all add: nested_def)

definition block_cost :: "(awaiting \<Rightarrow> nat) \<Rightarrow> ('v stmt \<Rightarrow> nat) \<Rightarrow> 'v block \<Rightarrow> nat" where
  "block_cost g f b = g (fst b) + uses f (snd b)"

fun action_cost :: "nat \<Rightarrow> (awaiting \<Rightarrow> nat) \<Rightarrow> ('v stmt \<Rightarrow> nat) \<Rightarrow> 'v block action \<Rightarrow> nat" where
  "action_cost n g f (Wake t) = n"
| "action_cost n g f (Spawn b) = n + block_cost g f b"

definition acts_cost :: "nat \<Rightarrow> (awaiting \<Rightarrow> nat) \<Rightarrow> ('v stmt \<Rightarrow> nat) \<Rightarrow> 'v block action list \<Rightarrow> nat" where
  "acts_cost n g f as = sum_list (map (action_cost n g f) as)"

definition pending :: "('v block, 'v world) exec \<Rightarrow> 'v block action list" where
  "pending s = (case ex_pc s of Acting as \<Rightarrow> as | _ \<Rightarrow> [])"

definition cost ::
    "nat \<Rightarrow> (awaiting \<Rightarrow> nat) \<Rightarrow> ('v stmt \<Rightarrow> nat) \<Rightarrow> ('v world \<Rightarrow> nat) \<Rightarrow> ('v block, 'v world) exec \<Rightarrow> nat" where
  "cost n g f ww s =
     sum_list (map (case_option 0 (block_cost g f)) (ex_futures s)) + ww (ex_world s) +
     acts_cost n g f (pending s)"

lemma acts_cost_simps [simp]:
  "acts_cost n g f [] = 0" "acts_cost n g f (a # as) = action_cost n g f a + acts_cost n g f as"
  "acts_cost n g f (as @ bs) = acts_cost n g f as + acts_cost n g f bs"
  "acts_cost n g f (map Wake ts) = n * length ts"
  by (simp_all add: acts_cost_def, induction ts) simp_all

lemma sum_list_map_update:
  fixes f :: "'a \<Rightarrow> nat"
  assumes "i < length xs"
  shows "sum_list (map f (xs[i := y])) + f (xs ! i) = sum_list (map f xs) + f y"
  using assms
proof (induction xs arbitrary: i)
  case (Cons x xs)
  then show ?case by (cases i) simp_all
qed simp

locale conserved =
  fixes n :: nat
    and g :: "awaiting \<Rightarrow> nat"
    and f :: "'v stmt \<Rightarrow> nat"
    and ww :: "'v world \<Rightarrow> nat"
  assumes running: "g Running = 0"
    and poll_law: "poll_await t aw w = (r, aw', w', ws) \<Longrightarrow>
      (if r then 0 else g aw') + ww w' + n * length ws \<le> g aw + ww w"
    and enter_law: "enter st w = (aw, w', as) \<Longrightarrow> g aw + ww w' + acts_cost n g f as \<le> nested f st + ww w"
begin

lemma run_code_law:
  assumes "run_code t k w = (r, b, w', as)"
  shows "block_cost g f b + ww w' + acts_cost n g f as \<le> uses f k + ww w"
  using assms
proof (induction k arbitrary: w r b w' as)
  case Nil
  then show ?case by (auto simp: block_cost_def running)
next
  case (Cons st k)
  obtain aw w1 new where e: "enter st w = (aw, w1, new)" by (metis surj_pair)
  obtain ready aw2 w2 ws where p: "poll_await t aw w1 = (ready, aw2, w2, ws)" by (metis surj_pair)
  note le = enter_law [OF e] poll_law [OF p]
  show ?case
  proof (cases ready)
    case True
    obtain r3 b3 w3 as3 where c: "run_code t k w2 = (r3, b3, w3, as3)" by (metis surj_pair)
    from Cons.prems True e p c have "b = b3" "w' = w3" "as = new @ map Wake ws @ as3" by auto
    with Cons.IH [OF c] le True show ?thesis by (simp add: uses_Cons)
  next
    case False
    with Cons.prems e p have "b = (aw2, k)" "w' = w2" "as = new @ map Wake ws" by auto
    with le False show ?thesis by (simp add: uses_Cons block_cost_def)
  qed
qed

lemma poll_block_law:
  assumes "poll_block t b w = (r, b', w', as)"
  shows "block_cost g f b' + ww w' + acts_cost n g f as \<le> block_cost g f b + ww w"
proof -
  obtain aw k where b: "b = (aw, k)" by (cases b)
  obtain ready aw2 w2 ws where p: "poll_await t aw w = (ready, aw2, w2, ws)" by (metis surj_pair)
  show ?thesis
  proof (cases ready)
    case True
    obtain r3 b3 w3 as3 where c: "run_code t k w2 = (r3, b3, w3, as3)" by (metis surj_pair)
    with assms b p True have "b' = b3" "w' = w3" "as = map Wake ws @ as3" by auto
    with run_code_law [OF c] poll_law [OF p] b True show ?thesis by (simp add: block_cost_def)
  next
    case False
    with assms b p have "b' = (aw2, k)" "w' = w2" "as = map Wake ws" by auto
    with poll_law [OF p] b False show ?thesis by (simp add: block_cost_def)
  qed
qed

lemma drain_law:
  assumes "ex_pc s = Draining" "exec_ok s"
  shows "cost n g f ww (drain poll_block s) \<le> cost n g f ww s"
proof (cases "ex_queue s")
  case (Cons t q)
  with assms(2) have t: "t < length (ex_futures s)" by (simp add: exec_ok_def)
  show ?thesis
  proof (cases "ex_futures s ! t")
    case None
    with Cons assms show ?thesis by (simp add: drain_def cost_def pending_def)
  next
    case (Some b)
    obtain r b' w' as where p: "poll_block t b (ex_world s) = (r, b', w', as)" by (metis surj_pair)
    let ?F = "(ex_futures s)[t := if r then None else Some b']"
    have "sum_list (map (case_option 0 (block_cost g f)) ?F) + block_cost g f b
      \<le> sum_list (map (case_option 0 (block_cost g f)) (ex_futures s)) + block_cost g f b'"
      using sum_list_map_update [OF t, of "case_option 0 (block_cost g f)" "if r then None else Some b'"] Some
      by (simp split: if_splits)
    with poll_block_law [OF p] Cons Some p assms(1) show ?thesis
      by (simp add: drain_def cost_def pending_def)
  qed
qed (use assms(1) in \<open>simp add: drain_def cost_def pending_def\<close>)

lemma act_law:
  assumes "ex_pc s = Acting (a # as)"
  shows "cost n g f ww (act s) + n \<le> cost n g f ww s"
proof (cases a)
  case (Wake t)
  with assms show ?thesis
    by (simp add: act_def cost_def pending_def wake_by_ref_def ex_push_def ex_unpark_def)
next
  case (Spawn b)
  with assms show ?thesis
    by (simp add: act_def cost_def pending_def spawn_def ex_push_def ex_unpark_def Let_def)
qed

end

section \<open>A run without the clock is finite\<close>

text \<open>
  What is left to do: a statement pays for the wake-up, the timer or the thread it starts, a
  timer and a thread for the wake-up they owe, a task in the queue for its poll.
\<close>

definition aw_work :: "awaiting \<Rightarrow> nat" where
  "aw_work aw = (case aw of OnYield y \<Rightarrow> if yielded y then 0 else 10 | _ \<Rightarrow> 0)"

definition world_work :: "'v world \<Rightarrow> nat" where
  "world_work w =
     sum_list (map (\<lambda>d. if sleeper d = None then 0 else 10) (w_timers w)) + 10 * length (w_threads w)"

definition pc_work :: "'v block exec_pc \<Rightarrow> nat" where
  "pc_work p = (case p of Draining \<Rightarrow> 2 | Acting as \<Rightarrow> 3 | Parking \<Rightarrow> 1 | _ \<Rightarrow> 0)"

definition work :: "('v block, 'v world) exec \<Rightarrow> nat" where
  "work s = cost 9 aw_work (\<lambda>_. 20) world_work s + 4 * length (ex_queue s) + 4 * ex_owed s +
     (if ex_token s then 3 else 0) + pc_work (ex_pc s)"

lemma timer_update_work:
  assumes "sleeper d = sleeper (w_timers w ! i)"
  shows "world_work (w\<lparr>w_timers := (w_timers w)[i := d]\<rparr>) = world_work w"
proof (cases "i < length (w_timers w)")
  case True
  with sum_list_map_update [of i "w_timers w" "\<lambda>d. if sleeper d = None then 0 else 10" d] assms show ?thesis
    by (simp add: world_work_def)
qed (simp add: list_update_beyond)

lemma chan_update_work [simp]:
  "world_work (w\<lparr>w_chans := C\<rparr>) = world_work w" "world_work (w\<lparr>w_chans := C, w_log := l\<rparr>) = world_work w"
  "world_work (w\<lparr>w_log := l\<rparr>) = world_work w" "world_work (w\<lparr>w_clock := t\<rparr>) = world_work w"
  by (simp_all add: world_work_def)

lemma poll_await_work:
  assumes "poll_await t aw w = (r, aw', w', ws)"
  shows "(if r then 0 else aw_work aw') + world_work w' + 9 * length ws \<le> aw_work aw + world_work w"
  using assms
  by (cases aw)
    (auto simp: aw_work_def poll_yield_now_def poll_delay_def poll_receiver_def timer_update_work
      split: prod.splits if_splits option.splits)

lemma enter_work:
  assumes "enter st w = (aw, w', as)"
  shows "aw_work aw + world_work w' + acts_cost 9 aw_work (\<lambda>_. 20) as \<le> nested (\<lambda>_. 20) st + world_work w"
  using assms
  by (cases st)
    (auto simp: nested_def aw_work_def yield_now_def world_work_def delay_new_def block_cost_def
      oneshot_send_def split: prod.splits option.splits)

interpretation work: conserved 9 aw_work "\<lambda>_. 20" world_work
proof unfold_locales
  show "aw_work Running = 0" by (simp add: aw_work_def)
qed (fact poll_await_work, fact enter_work)

lemma others_work:
  assumes "others False w (w', ts)"
  shows "world_work w' + 10 \<le> world_work w \<and> length ts \<le> 1"
  using assms
proof (cases rule: others.cases)
  case (others_fire i d)
  then have d: "sleeper (w_timers w ! i) \<noteq> None" "sleeper d = None" "length ts \<le> 1"
    by (auto simp: delay_ext_def delay_thread_def split: option.splits)
  from sum_list_map_update [OF others_fire(2), of "\<lambda>d. if sleeper d = None then 0 else 10" d] d others_fire
  show ?thesis by (simp add: world_work_def)
qed (auto simp: world_work_def oneshot_send_def split: option.splits)

lemma drain_work:
  assumes "ex_pc s = Draining" "exec_ok s"
  shows "work (drain poll_block s) < work s"
proof (cases "ex_queue s")
  case (Cons t q)
  with work.drain_law [OF assms] assms(1) show ?thesis
    by (auto simp: drain_def work_def pc_work_def Let_def split: option.splits prod.splits)
qed (use assms(1) in \<open>simp add: drain_def work_def pc_work_def cost_def pending_def\<close>)

lemma act_work:
  assumes "ex_pc s = Acting as"
  shows "work (act s) < work s"
proof (cases as)
  case (Cons a as')
  with work.act_law [of s a as'] assms show ?thesis
    by (cases a) (auto simp: act_def work_def pc_work_def spawn_def wake_by_ref_def ex_push_def
      ex_unpark_def Let_def)
qed (use assms in \<open>simp add: act_def work_def pc_work_def cost_def pending_def\<close>)

lemma async_step_work:
  assumes "async_step False False s s'" "exec_ok s"
  shows "work s' < work s"
  using assms(1)
proof cases
  case exec_drain
  with assms(2) show ?thesis by (simp add: drain_work)
next
  case (exec_act as)
  then show ?thesis by (simp add: act_work)
next
  case (exec_other w ts)
  with others_work [OF exec_other(2)] show ?thesis by (simp add: work_def cost_def pending_def ex_push_def)
next
  case exec_park
  then show ?thesis by (auto simp: work_def cost_def pending_def ex_park_def pc_work_def)
qed (simp_all add: work_def cost_def pending_def ex_unpark_def)

text \<open>The clock does not add work, so all that happens between its ticks is bounded too.\<close>

lemma others_cases_tick:
  assumes "others ticks w r"
  obtains "others False w r" | d where "ticks" "r = (w\<lparr>w_clock := w_clock w + d\<rparr>, [])"
  using assms by cases (auto intro: others.intros)

lemma async_tick_work:
  assumes "async_step False ticks s s'" "exec_ok s"
  shows "work s' \<le> work s"
  using assms(1)
proof cases
  case (exec_other w ts)
  from exec_other(2) show ?thesis
  proof (rule others_cases_tick)
    assume "others False (ex_world s) (w, ts)"
    with exec_other have "async_step False False s s'" by (auto intro: exec_step.exec_other)
    from async_step_work [OF this assms(2)] show ?thesis by simp
  qed (use exec_other in \<open>simp add: work_def cost_def pending_def ex_push_def\<close>)
qed (use assms(2) async_step_work [OF _ assms(2)] in \<open>auto intro: exec_step.intros less_imp_le\<close>)

lemma async_reach_work:
  assumes "async_reach False (async_start b) s"
  shows "work s \<le> uses (\<lambda>_. 20) b + 6"
  using assms
proof (induction rule: rtranclp_induct)
  case base
  show ?case
    by (simp add: work_def cost_def pending_def ex_init_def block_cost_def aw_work_def world_work_def
        world_init_def pc_work_def)
next
  case (step s s')
  with async_tick_work [OF step.hyps(2) exec_reach_ok [OF step.hyps(1)]] show ?case by simp
qed

lemma async_run_length:
  assumes "(async_step False False ^^ n) s s'" "exec_ok s"
  shows "n + work s' \<le> work s \<and> exec_ok s'"
  using assms(1)
proof (induction n arbitrary: s')
  case 0
  with assms(2) show ?case by simp
next
  case (Suc n)
  from Suc.prems obtain t where t: "(async_step False False ^^ n) s t" "async_step False False t s'"
    by (rule relpowp_Suc_E)
  from Suc.IH [OF t(1)] async_step_work [OF t(2)] exec_step_ok [OF t(2)] show ?case by simp
qed

section \<open>Handles have one owner\<close>

text \<open>The halves of channels that a block uses, those of the blocks it spawns included.\<close>

fun receivers :: "'v stmt list \<Rightarrow> nat list" where
  "receivers [] = []"
| "receivers (AwaitRecv c # k) = c # receivers k"
| "receivers (SpawnAsync b # k) = receivers b @ receivers k"
| "receivers (st # k) = receivers k"

fun senders :: "'v stmt list \<Rightarrow> nat list" where
  "senders [] = []"
| "senders (Send c v # k) = c # senders k"
| "senders (SendLater c dur v # k) = c # senders k"
| "senders (SpawnAsync b # k) = senders b @ senders k"
| "senders (st # k) = senders k"

text \<open>What the borrow checker guarantees: \<open>await\<close> and \<open>send\<close> consume the halves of a channel.\<close>

definition well_owned :: "'v stmt list \<Rightarrow> bool" where
  "well_owned b \<longleftrightarrow> distinct (receivers b) \<and> distinct (senders b)"

definition rx_use :: "nat \<Rightarrow> 'v stmt \<Rightarrow> nat" where
  "rx_use c st = (case st of AwaitRecv d \<Rightarrow> if d = c then 1 else 0 | _ \<Rightarrow> 0)"

definition rx_aw :: "nat \<Rightarrow> awaiting \<Rightarrow> nat" where
  "rx_aw c aw = (if aw = OnRecv c then 1 else 0)"

definition tx_use :: "nat \<Rightarrow> 'v stmt \<Rightarrow> nat" where
  "tx_use c st =
     (case st of Send d v \<Rightarrow> if d = c then 1 else 0 | SendLater d dur v \<Rightarrow> if d = c then 1 else 0 | _ \<Rightarrow> 0)"

definition tx_world :: "nat \<Rightarrow> 'v world \<Rightarrow> nat" where
  "tx_world c w =
     length (filter (\<lambda>(due, d, v). d = c) (w_threads w)) + (if sender (w_chans w c) then 0 else 1)"

text \<open>
  The owners of the receiver of \<open>c\<close> in a state: tasks that await it, and code that will; and of
  its sender: code and threads that will send, or the message that was sent.
\<close>

definition rx_owners :: "nat \<Rightarrow> ('v block, 'v world) exec \<Rightarrow> nat" where
  "rx_owners c s = cost 0 (rx_aw c) (rx_use c) (\<lambda>_. 0) s"

definition tx_owners :: "nat \<Rightarrow> ('v block, 'v world) exec \<Rightarrow> nat" where
  "tx_owners c s = cost 0 (\<lambda>_. 0) (tx_use c) (tx_world c) s"

lemma uses_receivers: "uses (rx_use c) b = count_list (receivers b) c"
  by (induction b rule: receivers.induct) (simp_all add: rx_use_def)

lemma uses_senders: "uses (tx_use c) b = count_list (senders b) c"
  by (induction b rule: senders.induct) (simp_all add: tx_use_def)

lemma distinct_count_list: "distinct xs \<Longrightarrow> count_list xs x \<le> Suc 0"
  by (induction xs) auto

interpretation rx: conserved 0 "rx_aw c" "rx_use c" "\<lambda>_. 0" for c
proof unfold_locales
  show "(if r then 0 else rx_aw c aw') + 0 + 0 * length ws \<le> rx_aw c aw + 0"
    if "poll_await t aw w = (r, aw', w', ws)" for t aw and w w' :: "'v world" and r aw' ws
    using that by (cases aw) (auto simp: rx_aw_def split: prod.splits)
  show "rx_aw c aw + 0 + acts_cost 0 (rx_aw c) (rx_use c) as \<le> nested (rx_use c) st + 0"
    if "enter st w = (aw, w', as)" for st :: "'v stmt" and aw w w' as
    using that
    by (cases st) (auto simp: rx_aw_def rx_use_def nested_def block_cost_def oneshot_send_def
      split: prod.splits option.splits)
qed (simp add: rx_aw_def)

interpretation tx: conserved 0 "\<lambda>_. 0" "tx_use c" "tx_world c" for c
proof unfold_locales
  show "(if r then 0 else 0) + tx_world c w' + 0 * length ws \<le> 0 + tx_world c w"
    if "poll_await t aw w = (r, aw', w', ws)" for t aw and w w' :: "'v world" and r aw' ws
    using that
    by (cases aw) (auto simp: tx_world_def poll_receiver_def split: prod.splits option.splits if_splits)
  show "0 + tx_world c w' + acts_cost 0 (\<lambda>_. 0) (tx_use c) as \<le> nested (tx_use c) st + tx_world c w"
    if "enter st w = (aw, w', as)" for st :: "'v stmt" and aw w w' as
    using that
    by (cases st) (auto simp: tx_world_def tx_use_def nested_def block_cost_def oneshot_send_def
      split: prod.splits option.splits)
qed simp

lemma others_tx:
  assumes "others ticks w (w', ts)"
  shows "tx_world c w' \<le> tx_world c w"
  using assms by cases (auto simp: tx_world_def oneshot_send_def split: option.splits)

text \<open>No step adds an owner.\<close>

context conserved
begin

lemma step_law:
  assumes "async_step sp ticks s s'" "exec_ok s"
    and others_law: "\<And>w w' ts. others ticks w (w', ts) \<Longrightarrow> ww w' \<le> ww w"
  shows "n = 0 \<Longrightarrow> cost n g f ww s' \<le> cost n g f ww s"
  using assms(1)
proof cases
  case exec_drain
  with assms(2) show ?thesis by (simp add: drain_law)
next
  case (exec_act as)
  then show ?thesis
  proof (cases as)
    case (Cons a as')
    with act_law [of s a as'] exec_act show ?thesis by simp
  qed (simp add: cost_def pending_def act_def)
next
  case (exec_other w ts)
  with others_law [OF exec_other(2)] show ?thesis by (simp add: cost_def pending_def ex_push_def)
qed (auto simp: cost_def pending_def ex_park_def ex_unpark_def)

end

lemma owners_start:
  assumes "well_owned b"
  shows "rx_owners c (async_start b) \<le> 1" "tx_owners c (async_start b) \<le> 1"
  using assms
  by (simp_all add: rx_owners_def tx_owners_def cost_def pending_def ex_init_def block_cost_def rx_aw_def
      tx_world_def world_init_def oneshot_def uses_receivers uses_senders well_owned_def distinct_count_list)

lemma owners_step:
  assumes "async_step sp ticks s s'" "exec_ok s"
  shows "rx_owners c s' \<le> rx_owners c s" "tx_owners c s' \<le> tx_owners c s"
  using rx.step_law [OF assms] tx.step_law [OF assms, OF others_tx]
  by (simp_all add: rx_owners_def tx_owners_def)

lemma owners_reach:
  assumes "async_reach sp (async_start b) s" "well_owned b"
  shows "rx_owners c s \<le> 1 \<and> tx_owners c s \<le> 1"
  using assms(1)
proof (induction rule: rtranclp_induct)
  case base
  show ?case using owners_start [OF assms(2)] by simp
next
  case (step s s')
  from owners_step [OF step.hyps(2) exec_reach_ok [OF step.hyps(1)], of c] step.IH show ?case by simp
qed

end
