(* ===== verification/Async_Tasks.thy ===== *)
theory Async_Tasks
  imports Async_Blocks
begin

text \<open>
  What holds of every asynchronous block on the executor of exercise 2.2, whatever the clock, the
  timers, the sending threads and spurious wake-ups do: a task is queued exactly once when its next
  poll can make progress and not at all while it waits; no task is polled after its end; an
  executor at rest waits for a timer or a message; \<open>block_on\<close> returns unless all that is left waits
  for messages that nobody sends.
\<close>

section \<open>A task is queued when its next poll can make progress\<close>

text \<open>
  A runnable task has completed what it awaits, or has not started; an armed one has left its
  waker with the timer or the channel it awaits.
\<close>

definition runnable :: "'v world \<Rightarrow> awaiting \<Rightarrow> bool" where
  "runnable w aw =
     (case aw of Running \<Rightarrow> True | OnYield y \<Rightarrow> yielded y
      | OnDelay i \<Rightarrow> i < length (w_timers w) \<and> complete (dstate (w_timers w ! i))
      | OnRecv c \<Rightarrow> slot (inner (w_chans w c)) \<noteq> None)"

definition parked_on :: "'v world \<Rightarrow> nat \<Rightarrow> awaiting \<Rightarrow> bool" where
  "parked_on w t aw =
     (case aw of OnDelay i \<Rightarrow> i < length (w_timers w) \<and> delay_phase False (Some t) (w_timers w ! i)
      | OnRecv c \<Rightarrow> inner (w_chans w c) = \<lparr>slot = None, rx_waker = Some t\<rparr>
      | _ \<Rightarrow> False)"

text \<open>
  The tasks \<open>B\<close> and the wake-ups \<open>W\<close> under way fit the world: a task has exactly one wake-up when
  it is runnable and none when it is parked, and a waker kept by a timer or a channel belongs to
  the task that awaits it.
\<close>

definition tasks_fit :: "'v world \<Rightarrow> (nat \<Rightarrow> 'v block option) \<Rightarrow> (nat \<Rightarrow> nat) \<Rightarrow> bool" where
  "tasks_fit w B W \<longleftrightarrow>
     (\<forall>t. case B t of None \<Rightarrow> W t = 0
        | Some (aw, k) \<Rightarrow> runnable w aw \<and> W t = 1 \<or> parked_on w t aw \<and> W t = 0)"

definition timer_fits :: "(nat \<Rightarrow> 'v block option) \<Rightarrow> nat \<Rightarrow> nat Delay \<Rightarrow> bool" where
  "timer_fits B i d \<longleftrightarrow>
     delay_phase True None d \<or> delay_phase False None d \<or>
     (\<exists>t k. delay_phase False (Some t) d \<and> B t = Some (OnDelay i, k))"

definition chan_fits :: "(nat \<Rightarrow> 'v block option) \<Rightarrow> nat \<Rightarrow> ('v, nat) channel \<Rightarrow> bool" where
  "chan_fits B c ch \<longleftrightarrow>
     rx_waker (inner ch) = None \<or>
     slot (inner ch) = None \<and> (\<exists>t k. rx_waker (inner ch) = Some t \<and> B t = Some (OnRecv c, k))"

definition fits :: "'v world \<Rightarrow> (nat \<Rightarrow> 'v block option) \<Rightarrow> (nat \<Rightarrow> nat) \<Rightarrow> bool" where
  "fits w B W \<longleftrightarrow>
     tasks_fit w B W \<and> (\<forall>i < length (w_timers w). timer_fits B i (w_timers w ! i)) \<and>
     (\<forall>c. chan_fits B c (w_chans w c))"

lemma fitsI:
  assumes "\<And>t. B t = None \<Longrightarrow> W t = 0"
    and "\<And>t aw k. B t = Some (aw, k) \<Longrightarrow> runnable w aw \<and> W t = 1 \<or> parked_on w t aw \<and> W t = 0"
    and "\<And>i. i < length (w_timers w) \<Longrightarrow> timer_fits B i (w_timers w ! i)"
    and "\<And>c. chan_fits B c (w_chans w c)"
  shows "fits w B W"
  using assms by (auto simp: fits_def tasks_fit_def split: option.splits)

lemma fitsD:
  assumes "fits w B W"
  shows "B t = None \<Longrightarrow> W t = 0"
    and "B t = Some (aw, k) \<Longrightarrow> runnable w aw \<and> W t = 1 \<or> parked_on w t aw \<and> W t = 0"
    and "i < length (w_timers w) \<Longrightarrow> timer_fits B i (w_timers w ! i)"
    and "chan_fits B c (w_chans w c)"
  using assms unfolding fits_def tasks_fit_def by (auto split: option.splits dest: spec [of _ t])

lemma fits_cong:
  assumes "fits w B W" "w_timers w' = w_timers w" "w_chans w' = w_chans w" "\<And>t. W' t = W t"
  shows "fits w' B W'"
proof -
  have eqs: "W' = W" "runnable w' = runnable w" "parked_on w' = parked_on w"
    by (simp_all add: fun_eq_iff runnable_def parked_on_def assms(2-4) split: awaiting.split)
  from assms(1) show ?thesis unfolding fits_def tasks_fit_def eqs assms(2,3) .
qed

text \<open>A task that is taken out of the queue leaves no waker behind.\<close>

lemma fits_take:
  assumes "fits w B W" "B t = Some (aw, k)" "W t \<noteq> 0"
  shows "fits w (B(t := None)) (W(t := 0))" "runnable w aw"
proof -
  note d = fitsD [OF assms(1)]
  from d(2) [OF assms(2)] assms(3) show r: "runnable w aw" by auto
  show "fits w (B(t := None)) (W(t := 0))"
  proof (rule fitsI)
    show "timer_fits (B(t := None)) i (w_timers w ! i)" if "i < length (w_timers w)" for i
    proof -
      have "u \<noteq> t" if "delay_phase False (Some u) (w_timers w ! i)" "B u = Some (OnDelay i, l)" for u l
        using that assms(2) r by (auto simp: delay_phase_def runnable_def)
      with d(3) [OF that] show ?thesis unfolding timer_fits_def by (metis fun_upd_other)
    qed
    show "chan_fits (B(t := None)) c (w_chans w c)" for c
    proof -
      have "u \<noteq> t" if "slot (inner (w_chans w c)) = None" "B u = Some (OnRecv c, l)" for u l
        using that assms(2) r by (auto simp: runnable_def)
      with d(4) [of c] show ?thesis unfolding chan_fits_def by (metis fun_upd_other)
    qed
  qed (use d(1,2) in \<open>auto split: if_splits\<close>)
qed

text \<open>Sending wakes the task that awaits the channel.\<close>

lemma fits_send:
  assumes "fits w B W" "oneshot_send v (w_chans w c) = (ch, ws)" "w_chans w' = (w_chans w)(c := ch)"
    "w_timers w' = w_timers w" "\<And>u. W' u = W u + count_list ws u"
  shows "fits w' B W'"
proof (rule fitsI)
  note d = fitsD [OF assms(1)]
  from d(4) [of c] assms(2) have ws: "ws = [] \<and> rx_waker (inner (w_chans w c)) = None \<or>
    (\<exists>t k. ws = [t] \<and> slot (inner (w_chans w c)) = None \<and> rx_waker (inner (w_chans w c)) = Some t \<and>
       B t = Some (OnRecv c, k))"
    by (auto simp: chan_fits_def oneshot_send_def split: option.splits)
  have ch: "inner ch = \<lparr>slot = Some v, rx_waker = None\<rparr>" using assms(2) by (auto simp: oneshot_send_def)
  show "W' t = 0" if "B t = None" for t using d(1) [OF that] ws that assms(5) by auto
  show "runnable w' aw \<and> W' t = 1 \<or> parked_on w' t aw \<and> W' t = 0" if "B t = Some (aw, k)" for t aw k
    using d(2) [OF that] ws that assms(3-5) ch
    by (auto simp: runnable_def parked_on_def split: awaiting.splits if_splits)
  show "timer_fits B i (w_timers w' ! i)" if "i < length (w_timers w')" for i
    using d(3) that assms(4) by simp
  show "chan_fits B c' (w_chans w' c')" for c'
    using d(4) [of c'] ch assms(3) by (simp add: chan_fits_def)
qed

text \<open>A timer that fires wakes the task that awaits it.\<close>

lemma fits_fire:
  assumes "fits w B W" "i < length (w_timers w)" "delay_ext (w_clock w) (w_timers w ! i) (d, ws)"
    "\<And>u. W' u = W u + count_list ws u"
  shows "fits (w\<lparr>w_timers := (w_timers w)[i := d]\<rparr>) B W'"
proof (rule fitsI)
  note d = fitsD [OF assms(1)]
  let ?w = "w\<lparr>w_timers := (w_timers w)[i := d]\<rparr>"
  from assms(3) have s: "sleeper (w_timers w ! i) \<noteq> None" "delay_phase True None d"
    "ws = (case waker (dstate (w_timers w ! i)) of Some t \<Rightarrow> [t] | None \<Rightarrow> [])"
    by (auto simp: delay_ext_def delay_thread_def delay_phase_def split: option.splits)
  with d(3) [OF assms(2)] have ws: "ws = [] \<and> delay_phase False None (w_timers w ! i) \<or>
    (\<exists>t k. ws = [t] \<and> delay_phase False (Some t) (w_timers w ! i) \<and> B t = Some (OnDelay i, k))"
    by (auto simp: timer_fits_def delay_phase_def)
  show "W' t = 0" if "B t = None" for t using d(1) [OF that] ws that assms(4) by auto
  show "runnable ?w aw \<and> W' t = 1 \<or> parked_on ?w t aw \<and> W' t = 0" if "B t = Some (aw, k)" for t aw k
    using d(2) [OF that] ws that assms(2,4) s(2)
    by (auto simp: runnable_def parked_on_def delay_phase_def nth_list_update split: awaiting.splits if_splits)
  show "timer_fits B j (w_timers ?w ! j)" if "j < length (w_timers ?w)" for j
    using d(3) [of j] that s(2) by (cases "i = j") (simp_all add: timer_fits_def)
qed (use fitsD(4) [OF assms(1)] in simp)

text \<open>The wake-ups and the blocks among the actions of a poll.\<close>

definition wakes :: "'f action list \<Rightarrow> nat \<Rightarrow> nat" where
  "wakes as u = length (filter (\<lambda>a. case a of Wake t \<Rightarrow> t = u | Spawn f \<Rightarrow> False) as)"

definition new_blocks :: "'v block action list \<Rightarrow> bool" where
  "new_blocks as \<longleftrightarrow> (\<forall>a \<in> set as. case a of Wake t \<Rightarrow> True | Spawn b \<Rightarrow> fst b = Running)"

lemma wakes_simps [simp]:
  "wakes [] u = 0" "wakes (Wake t # as) u = (if t = u then 1 else 0) + wakes as u"
  "wakes (Spawn f # as) u = wakes as u" "wakes (as @ bs) u = wakes as u + wakes bs u"
  "wakes (map Wake ts) u = count_list ts u"
  by (simp_all add: wakes_def, induction ts) simp_all

lemma new_blocks_simps [simp]:
  "new_blocks []" "new_blocks (Wake t # as) \<longleftrightarrow> new_blocks as"
  "new_blocks (Spawn b # as) \<longleftrightarrow> fst b = Running \<and> new_blocks as"
  "new_blocks (as @ bs) \<longleftrightarrow> new_blocks as \<and> new_blocks bs" "new_blocks (map Wake ts)"
  by (auto simp: new_blocks_def)

text \<open>What a task about to be polled may await: nobody else has left a waker there.\<close>

definition awaited :: "(nat \<Rightarrow> 'v block option) \<Rightarrow> nat \<Rightarrow> bool" where
  "awaited B c \<longleftrightarrow> (\<exists>u k. B u = Some (OnRecv c, k))"

definition startable :: "'v world \<Rightarrow> (nat \<Rightarrow> 'v block option) \<Rightarrow> awaiting \<Rightarrow> bool" where
  "startable w B aw =
     (case aw of
        OnDelay i \<Rightarrow> i < length (w_timers w) \<and>
          (delay_phase True None (w_timers w ! i) \<or> delay_phase False None (w_timers w ! i))
      | OnRecv c \<Rightarrow> \<not> awaited B c
      | _ \<Rightarrow> True)"

lemma runnable_startable:
  assumes "fits w B W" "runnable w aw" "\<And>c. aw = OnRecv c \<Longrightarrow> \<not> awaited B c"
  shows "startable w B aw"
proof (cases aw)
  case (OnDelay i)
  with assms fitsD(3) [OF assms(1), of i] show ?thesis
    by (auto simp: startable_def runnable_def timer_fits_def delay_phase_def)
qed (use assms(3) in \<open>simp_all add: startable_def\<close>)

lemma pieces_fit_new_task:
  assumes "B t = None"
  shows timer_fits_upd: "timer_fits B i d \<Longrightarrow> timer_fits (B(t := Some b)) i d"
    and chan_fits_upd: "chan_fits B c ch \<Longrightarrow> chan_fits (B(t := Some b)) c ch"
proof -
  have "u \<noteq> t" if "B u = Some x" for u x using that assms by auto
  then show "timer_fits B i d \<Longrightarrow> timer_fits (B(t := Some b)) i d"
    "chan_fits B c ch \<Longrightarrow> chan_fits (B(t := Some b)) c ch"
    unfolding timer_fits_def chan_fits_def by (metis fun_upd_other)+
qed

lemma fits_update:
  assumes "fits w B W" "B t = None" "\<And>u. W' u = W u + (if u = t then m else 0)"
    and "runnable w aw \<and> m = 1 \<or> parked_on w t aw \<and> m = 0"
  shows "fits w (B(t := Some (aw, k))) W'"
proof (rule fitsI)
  note d = fitsD [OF assms(1)]
  show "W' u = 0" if "(B(t := Some (aw, k))) u = None" for u
    using that d(1) assms(3) by (simp split: if_splits)
  show "runnable w aw' \<and> W' u = 1 \<or> parked_on w u aw' \<and> W' u = 0"
    if "(B(t := Some (aw, k))) u = Some (aw', k')" for u aw' k'
    using that d(1) [OF assms(2)] d(2) [of u] assms(3,4) by (auto split: if_splits)
qed (use assms(2) fitsD(3,4) [OF assms(1)] in \<open>simp_all add: timer_fits_upd chan_fits_upd\<close>)

text \<open>A poll completes what is awaited, calls the waker, or leaves it behind.\<close>

lemma fits_poll:
  assumes "fits w B W" "B t = None" "startable w B aw" "poll_await t aw w = (r, aw', w', ws)"
  shows "if r then fits w' B W \<and> ws = []
    else fits w' (B(t := Some (aw', k))) (\<lambda>u. W u + count_list ws u)"
proof (cases aw)
  case Running
  with assms show ?thesis by auto
next
  case (OnYield y)
  show ?thesis
  proof (cases "yielded y")
    case False
    with assms(4) OnYield have "\<not> r" "aw' = OnYield (y\<lparr>yielded := True\<rparr>)" "w' = w" "ws = [t]"
      by (auto simp: poll_yield_now_def)
    moreover have "fits w (B(t := Some (OnYield (y\<lparr>yielded := True\<rparr>), k))) (\<lambda>u. W u + count_list [t] u)"
      by (rule fits_update [OF assms(1,2), where m = 1]) (simp_all add: runnable_def)
    ultimately show ?thesis by simp
  qed (use assms(1,4) OnYield in \<open>auto simp: poll_yield_now_def\<close>)
next
  case (OnDelay i)
  with assms(3) have i: "i < length (w_timers w)" by (simp add: startable_def)
  show ?thesis
  proof (cases "complete (dstate (w_timers w ! i))")
    case True
    with assms(1,4) OnDelay fits_cong [OF assms(1)] show ?thesis by (auto simp: poll_delay_def)
  next
    case False
    let ?d = "(w_timers w ! i)\<lparr>dstate := (dstate (w_timers w ! i))\<lparr>waker := Some t\<rparr>\<rparr>"
    from False assms(4) OnDelay have p: "\<not> r" "aw' = OnDelay i" "ws = []"
      "w' = w\<lparr>w_timers := (w_timers w)[i := ?d]\<rparr>" by (auto simp: poll_delay_def)
    from False assms(3) OnDelay have ph: "delay_phase False None (w_timers w ! i)" "delay_phase False (Some t) ?d"
      by (auto simp: startable_def delay_phase_def)
    note d = fitsD [OF assms(1)]
    have "fits w' (B(t := Some (aw', k))) W"
    proof (rule fitsI)
      show "W u = 0" if "(B(t := Some (aw', k))) u = None" for u
        using that d(1) by (simp split: if_splits)
      show "runnable w' a \<and> W u = 1 \<or> parked_on w' u a \<and> W u = 0"
        if "(B(t := Some (aw', k))) u = Some (a, k')" for u a k'
        using that d(1) [OF assms(2)] d(2) [of u a k'] p(2,4) ph i
        by (cases "u = t") (auto simp: runnable_def parked_on_def delay_phase_def nth_list_update
          split: awaiting.splits if_splits)
      show "timer_fits (B(t := Some (aw', k))) j (w_timers w' ! j)" if "j < length (w_timers w')" for j
      proof (cases "j = i")
        case True
        with p ph i show ?thesis unfolding timer_fits_def by auto
      next
        case False
        with d(3) [of j] that p(4) assms(2) show ?thesis by (simp add: timer_fits_upd)
      qed
      show "chan_fits (B(t := Some (aw', k))) c (w_chans w' c)" for c
        using d(4) [of c] p(4) assms(2) by (simp add: chan_fits_upd)
    qed
    with p show ?thesis by simp
  qed
next
  case (OnRecv c)
  with assms(3) have na: "\<not> awaited B c" by (simp add: startable_def)
  note d = fitsD [OF assms(1)]
  from d(4) [of c] na have nw: "rx_waker (inner (w_chans w c)) = None" by (auto simp: chan_fits_def awaited_def)
  show ?thesis
  proof (cases "slot (inner (w_chans w c))")
    case (Some v)
    with assms(4) OnRecv have p: "r" "ws = []" "w_timers w' = w_timers w"
      "w_chans w' = (w_chans w)(c := w_chans w c\<lparr>inner := inner (w_chans w c)\<lparr>slot := None\<rparr>\<rparr>)"
      by (auto simp: poll_receiver_def)
    have "fits w' B W"
    proof (rule fitsI)
      show "runnable w' a \<and> W u = 1 \<or> parked_on w' u a \<and> W u = 0" if "B u = Some (a, k')" for u a k'
        using d(2) [OF that] that na p(3,4)
        by (auto simp: runnable_def parked_on_def awaited_def split: awaiting.splits if_splits)
      show "chan_fits B c' (w_chans w' c')" for c'
        using d(4) [of c'] p(4) nw by (simp add: chan_fits_def)
    qed (use d(1,3) p(3) in simp_all)
    with p show ?thesis by simp
  next
    case None
    let ?ch = "w_chans w c\<lparr>inner := inner (w_chans w c)\<lparr>rx_waker := Some t\<rparr>\<rparr>"
    from None assms(4) OnRecv have p: "\<not> r" "ws = []" "aw' = OnRecv c" "w_timers w' = w_timers w"
      "w_chans w' = (w_chans w)(c := ?ch)"
      by (auto simp: poll_receiver_def)
    have "fits w' (B(t := Some (aw', k))) W"
    proof (rule fitsI)
      show "W u = 0" if "(B(t := Some (aw', k))) u = None" for u
        using that d(1) by (simp split: if_splits)
      show "runnable w' a \<and> W u = 1 \<or> parked_on w' u a \<and> W u = 0"
        if "(B(t := Some (aw', k))) u = Some (a, k')" for u a k'
        using that d(1) [OF assms(2)] d(2) [of u a k'] p(3-5) na None
        by (cases "u = t") (auto simp: runnable_def parked_on_def awaited_def split: awaiting.splits if_splits)
      show "timer_fits (B(t := Some (aw', k))) j (w_timers w' ! j)" if "j < length (w_timers w')" for j
        using d(3) [of j] that p(4) assms(2) by (simp add: timer_fits_upd)
      show "chan_fits (B(t := Some (aw', k))) c' (w_chans w' c')" for c'
      proof (cases "c' = c")
        case True
        with p None show ?thesis unfolding chan_fits_def by auto
      next
        case False
        with d(4) [of c'] p(5) assms(2) show ?thesis by (simp add: chan_fits_upd)
      qed
    qed
    with p show ?thesis by simp
  qed
qed


text \<open>Entering a statement wakes the receivers it sends to and starts a timer or a block.\<close>

lemma fits_enter:
  assumes "fits w B W" "enter st w = (aw, w', as)" "\<And>c. rx_use c st > 0 \<Longrightarrow> \<not> awaited B c"
  shows "fits w' B (\<lambda>u. W u + wakes as u) \<and> startable w' B aw \<and> new_blocks as"
proof (cases st)
  case (AwaitDelay dur)
  let ?w = "w\<lparr>w_timers := w_timers w @ [delay_new (w_clock w) dur]\<rparr>"
  note d = fitsD [OF assms(1)]
  have "delay_phase False None (delay_new (w_clock w) dur)" by (simp add: delay_phase_def delay_new_def)
  moreover have "fits ?w B W"
  proof (rule fitsI)
    show "runnable ?w a \<and> W u = 1 \<or> parked_on ?w u a \<and> W u = 0" if "B u = Some (a, k)" for u a k
      using d(2) [OF that] by (auto simp: runnable_def parked_on_def nth_append split: awaiting.splits)
    show "timer_fits B i (w_timers ?w ! i)" if "i < length (w_timers ?w)" for i
      using that d(3) [of i] by (auto simp: nth_append less_Suc_eq timer_fits_def delay_phase_def delay_new_def)
  qed (use d(1,4) in simp_all)
  ultimately show ?thesis using AwaitDelay assms(2) by (auto simp: startable_def)
next
  case (AwaitRecv c)
  with assms(3) [of c] have "\<not> awaited B c" by (simp add: rx_use_def)
  with assms(1,2) AwaitRecv show ?thesis by (auto simp: startable_def)
next
  case (Send c v)
  obtain ch ws where s: "oneshot_send v (w_chans w c) = (ch, ws)" by (cases "oneshot_send v (w_chans w c)")
  with Send assms(2) have "aw = Running" "w' = w\<lparr>w_chans := (w_chans w)(c := ch)\<rparr>" "as = map Wake ws" by auto
  with fits_send [OF assms(1) s, of w' "\<lambda>u. W u + wakes as u"] show ?thesis by (simp add: startable_def)
qed (use assms(1,2) fits_cong [OF assms(1)] in \<open>auto simp: startable_def\<close>)

lemma fits_run_code:
  assumes "fits w B W" "B t = None" "run_code t k w = (r, b, w', as)"
    and "\<And>c. uses (rx_use c) k > 0 \<Longrightarrow> \<not> awaited B c"
  shows "fits w' (if r then B else B(t := Some b)) (\<lambda>u. W u + wakes as u) \<and> new_blocks as"
  using assms
proof (induction k arbitrary: w W r b w' as)
  case Nil
  then show ?case by auto
next
  case (Cons st k)
  obtain aw w1 new where e: "enter st w = (aw, w1, new)" by (metis surj_pair)
  obtain ready aw2 w2 ws where p: "poll_await t aw w1 = (ready, aw2, w2, ws)" by (metis surj_pair)
  have own: "\<not> awaited B c" if "rx_use c st > 0 \<or> uses (rx_use c) k > 0" for c
    using Cons.prems(4) [of c] that by (auto simp: uses_Cons nested_def)
  from fits_enter [OF Cons.prems(1) e] own
  have f: "fits w1 B (\<lambda>u. W u + wakes new u)" "startable w1 B aw" "new_blocks new" by blast+
  note g = fits_poll [OF f(1) Cons.prems(2) f(2) p, of k]
  show ?case
  proof (cases ready)
    case True
    obtain r3 b3 w3 as3 where c: "run_code t k w2 = (r3, b3, w3, as3)" by (metis surj_pair)
    from Cons.prems(3) True e p c have x: "r = r3" "b = b3" "w' = w3" "as = new @ map Wake ws @ as3" by auto
    from g True have "fits w2 B (\<lambda>u. W u + wakes new u)" "ws = []" by auto
    from Cons.IH [OF this(1) Cons.prems(2) c] own this(2) x f(3) show ?thesis
      by (simp add: add.assoc split: if_splits)
  next
    case False
    with Cons.prems(3) e p have "\<not> r" "b = (aw2, k)" "w' = w2" "as = new @ map Wake ws" by auto
    with g False f(3) show ?thesis by (simp add: add.assoc fun_upd_def)
  qed
qed

lemma fits_poll_block:
  assumes "fits w B W" "B t = None" "poll_block t (aw, k) w = (r, b, w', as)" "startable w B aw"
    and "\<And>c. uses (rx_use c) k > 0 \<Longrightarrow> \<not> awaited B c"
  shows "fits w' (if r then B else B(t := Some b)) (\<lambda>u. W u + wakes as u) \<and> new_blocks as"
proof -
  obtain ready aw2 w2 ws where p: "poll_await t aw w = (ready, aw2, w2, ws)" by (metis surj_pair)
  note g = fits_poll [OF assms(1,2,4) p, of k]
  show ?thesis
  proof (cases ready)
    case True
    obtain r3 b3 w3 as3 where c: "run_code t k w2 = (r3, b3, w3, as3)" by (metis surj_pair)
    with assms(3) p True have x: "r = r3" "b = b3" "w' = w3" "as = map Wake ws @ as3" by auto
    from g True have "fits w2 B W" "ws = []" by auto
    from fits_run_code [OF this(1) assms(2) c assms(5)] this(2) x show ?thesis by (simp split: if_splits)
  next
    case False
    with assms(3) p have "\<not> r" "b = (aw2, k)" "w' = w2" "as = map Wake ws" by auto
    with g False show ?thesis by simp
  qed
qed


section \<open>No task is polled after its end\<close>

definition task_at :: "('v block, 'v world) exec \<Rightarrow> nat \<Rightarrow> 'v block option" where
  "task_at s t = (if t < length (ex_futures s) then ex_futures s ! t else None)"

definition wake_count :: "('v block, 'v world) exec \<Rightarrow> nat \<Rightarrow> nat" where
  "wake_count s t = count_list (ex_queue s) t + wakes (pending s) t"

definition tasks_ok :: "('v block, 'v world) exec \<Rightarrow> bool" where
  "tasks_ok s \<longleftrightarrow>
     fits (ex_world s) (task_at s) (wake_count s) \<and> new_blocks (pending s) \<and> ex_pc s \<noteq> Panicked"

lemma two_in_sum_list:
  fixes f :: "'a \<Rightarrow> nat"
  assumes "i < length xs" "j < length xs" "i \<noteq> j"
  shows "f (xs ! i) + f (xs ! j) \<le> sum_list (map f xs)"
proof -
  show ?thesis
    using assms
  proof (induction xs arbitrary: i j)
    case (Cons x xs)
    have le: "f (xs ! m) \<le> sum_list (map f xs)" if "m < length xs" for m
      using that by (intro member_le_sum_list) simp_all
    from Cons show ?case by (cases i; cases j) (auto simp: le add.commute intro: trans_le_add2)
  qed simp
qed

lemma owner_unique:
  assumes "rx_owners c s \<le> 1" "task_at s t = Some (aw, k)" "rx_aw c aw + uses (rx_use c) k > 0"
  shows "\<not> awaited ((task_at s)(t := None)) c"
proof
  let ?f = "case_option 0 (block_cost (rx_aw c) (rx_use c))"
  assume "awaited ((task_at s)(t := None)) c"
  then obtain u l where u: "u \<noteq> t" "task_at s u = Some (OnRecv c, l)"
    unfolding awaited_def by (metis fun_upd_apply option.distinct(1))
  from u(2) assms(2) have i: "t < length (ex_futures s)" "u < length (ex_futures s)"
    "ex_futures s ! t = Some (aw, k)" "ex_futures s ! u = Some (OnRecv c, l)"
    by (auto simp: task_at_def split: if_splits)
  with two_in_sum_list [OF i(1,2), of ?f] u(1) assms(3)
  have "2 \<le> sum_list (map ?f (ex_futures s))" by (simp add: block_cost_def rx_aw_def split: if_splits)
  with assms(1) show False by (simp add: rx_owners_def cost_def)
qed

lemma fits_new_task:
  assumes "fits w B W" "B t = None"
  shows "fits w (B(t := Some (Running, k))) (\<lambda>u. W u + (if u = t then 1 else 0))"
  using assms by (intro fits_update [where m = 1]) (simp_all add: runnable_def)

lemma tasks_still:
  assumes "tasks_ok s" "ex_queue s' = ex_queue s" "ex_world s' = ex_world s" "ex_futures s' = ex_futures s"
    "pending s' = pending s" "ex_pc s' \<noteq> Panicked"
  shows "tasks_ok s'"
proof -
  have "task_at s' = task_at s" "wake_count s' = wake_count s"
    by (simp_all add: fun_eq_iff task_at_def wake_count_def assms)
  with assms show ?thesis by (simp add: tasks_ok_def)
qed

lemma tasks_drain:
  assumes "tasks_ok s" "ex_pc s = Draining" "exec_ok s" "\<And>c. rx_owners c s \<le> 1"
  shows "tasks_ok (drain poll_block s)"
proof (cases "ex_queue s")
  case Nil
  with assms(2) show ?thesis
    by (intro tasks_still [OF assms(1)]) (simp_all add: drain_def pending_def)
next
  case (Cons t q)
  from assms(1) have f: "fits (ex_world s) (task_at s) (wake_count s)" by (simp add: tasks_ok_def)
  from Cons have "wake_count s t \<noteq> 0" by (simp add: wake_count_def)
  with fitsD(1) [OF f, of t] obtain aw k where b: "task_at s t = Some (aw, k)" by (cases "task_at s t") auto
  then have t: "t < length (ex_futures s)" "ex_futures s ! t = Some (aw, k)"
    by (auto simp: task_at_def split: if_splits)
  obtain r b' w' as where p: "poll_block t (aw, k) (ex_world s) = (r, b', w', as)" by (metis surj_pair)
  let ?B = "(task_at s)(t := None)" and ?W = "(wake_count s)(t := 0)"
  from fits_take [OF f b \<open>wake_count s t \<noteq> 0\<close>] have g: "fits (ex_world s) ?B ?W" "runnable (ex_world s) aw" .
  have own: "\<not> awaited ?B c" if "rx_aw c aw + uses (rx_use c) k > 0" for c
    using owner_unique [OF assms(4) b that] .
  have st: "startable (ex_world s) ?B aw"
    by (rule runnable_startable [OF g]) (rule own, simp add: rx_aw_def)
  let ?s = "drain poll_block s"
  from fits_poll_block [OF g(1) _ p st] own
  have h: "fits w' (if r then ?B else ?B(t := Some b')) (\<lambda>u. ?W u + wakes as u)" "new_blocks as" by auto
  from Cons t p have s: "ex_queue ?s = q" "ex_world ?s = w'" "ex_pc ?s = Acting as"
    "ex_futures ?s = (ex_futures s)[t := if r then None else Some b']"
    by (simp_all add: drain_def)
  have "(if r then ?B else ?B(t := Some b')) = task_at ?s"
    using t(1) by (auto simp: task_at_def fun_eq_iff s nth_list_update)
  moreover from f b have "wake_count s t = 1"
    using fitsD(2) [OF f b] \<open>wake_count s t \<noteq> 0\<close> by auto
  then have "(\<lambda>u. ?W u + wakes as u) = wake_count ?s"
    using Cons assms(2) by (auto simp: wake_count_def fun_eq_iff s pending_def)
  ultimately show ?thesis using h s by (simp add: tasks_ok_def pending_def)
qed

lemma tasks_act:
  assumes "tasks_ok s" "ex_pc s = Acting as" "exec_ok s"
  shows "tasks_ok (act s)"
proof (cases as)
  case Nil
  with assms(2) show ?thesis
    by (intro tasks_still [OF assms(1)]) (simp_all add: act_def pending_def)
next
  case (Cons a as')
  from assms(1) have f: "fits (ex_world s) (task_at s) (wake_count s)" and n: "new_blocks as"
    using assms(2) by (simp_all add: tasks_ok_def pending_def)
  from assms(2,3) have c: "ex_current s" by (simp add: exec_ok_def)
  show ?thesis
  proof (cases a)
    case (Wake t)
    with Cons assms(2) have "wake_count s t \<noteq> 0" by (simp add: wake_count_def pending_def)
    with fitsD(1) [OF f, of t] have "task_at s t \<noteq> None" by metis
    then have "t < length (ex_futures s)" by (auto simp: task_at_def split: if_splits)
    with Wake Cons assms(2) have s: "ex_queue (act s) = ex_queue s @ [t]" "ex_pc (act s) = Acting as'"
      "ex_world (act s) = ex_world s" "ex_futures (act s) = ex_futures s"
      by (simp_all add: act_def wake_by_ref_def ex_push_def ex_unpark_def)
    have "wake_count (act s) = wake_count s" "task_at (act s) = task_at s"
      using Wake Cons assms(2) by (simp_all add: wake_count_def task_at_def pending_def fun_eq_iff s)
    with f n Cons Wake show ?thesis by (simp add: tasks_ok_def pending_def s)
  next
    case (Spawn b)
    with Cons n obtain k where b: "b = (Running, k)" by (cases b) auto
    let ?t = "length (ex_futures s)"
    from Spawn Cons assms(2) c have s: "ex_queue (act s) = ex_queue s @ [?t]" "ex_pc (act s) = Acting as'"
      "ex_world (act s) = ex_world s" "ex_futures (act s) = ex_futures s @ [Some b]"
      by (simp_all add: act_def spawn_def ex_push_def ex_unpark_def Let_def)
    have "(task_at s)(?t := Some (Running, k)) = task_at (act s)"
      by (auto simp: task_at_def fun_eq_iff s b nth_append)
    moreover have "(\<lambda>u. wake_count s u + (if u = ?t then 1 else 0)) = wake_count (act s)"
      using Spawn Cons assms(2) by (auto simp: wake_count_def pending_def s fun_eq_iff)
    ultimately have "fits (ex_world s) (task_at (act s)) (wake_count (act s))"
      using fits_new_task [OF f, of ?t k] by (simp add: task_at_def)
    with n Cons Spawn show ?thesis by (simp add: tasks_ok_def pending_def s)
  qed
qed

lemma fits_others:
  assumes "fits w B W" "others ticks w (w', ts)"
  shows "fits w' B (\<lambda>u. W u + count_list ts u)"
  using assms(2)
proof cases
  case (others_tick d)
  with fits_cong [OF assms(1)] show ?thesis by simp
next
  case (others_fire i d)
  with fits_fire [OF assms(1) others_fire(2,3)] show ?thesis by simp
next
  case (others_send th1 due c v th2 ch)
  with fits_send [OF assms(1) others_send(4)] show ?thesis by simp
qed

lemma others_targets:
  assumes "fits w (task_at s) W" "others ticks w (w', ts)"
  shows "\<forall>t \<in> set ts. t < length (ex_futures s)"
proof
  fix t assume t: "t \<in> set ts"
  then have "count_list ts t \<noteq> 0" by (simp add: count_list_0_iff)
  with fitsD(1) [OF fits_others [OF assms], of t] have "task_at s t \<noteq> None" by (metis add_is_0)
  then show "t < length (ex_futures s)" by (auto simp: task_at_def split: if_splits)
qed

lemma tasks_other:
  assumes "tasks_ok s" "others ticks (ex_world s) (w, ts)"
  shows "tasks_ok (ex_push ts (s\<lparr>ex_world := w, ex_owed := m\<rparr>))"
proof -
  from assms(1) have f: "fits (ex_world s) (task_at s) (wake_count s)" by (simp add: tasks_ok_def)
  have "fits w (task_at s) (\<lambda>u. wake_count s u + count_list ts u)"
    by (rule fits_others [OF f assms(2)])
  moreover have "(\<lambda>u. wake_count s u + count_list ts u) =
      wake_count (ex_push ts (s\<lparr>ex_world := w, ex_owed := m\<rparr>))"
    by (simp add: wake_count_def fun_eq_iff ex_push_def pending_def)
  moreover have "task_at s = task_at (ex_push ts (s\<lparr>ex_world := w, ex_owed := m\<rparr>))"
    by (simp add: task_at_def fun_eq_iff ex_push_def)
  ultimately show ?thesis using assms(1) by (simp add: tasks_ok_def ex_push_def pending_def)
qed

lemma tasks_step:
  assumes "async_step sp ticks s s'" "tasks_ok s" "exec_ok s" "\<And>c. rx_owners c s \<le> 1"
  shows "tasks_ok s'"
  using assms(1)
proof cases
  case exec_drain
  with assms(2-4) show ?thesis by (simp add: tasks_drain)
next
  case (exec_act as)
  with assms(2,3) show ?thesis by (simp add: tasks_act)
next
  case (exec_other w ts)
  with assms(2) show ?thesis by (simp add: tasks_other)
qed (use tasks_still [OF assms(2)] assms(2) in \<open>auto simp: ex_park_def ex_unpark_def pending_def tasks_ok_def\<close>)

lemma tasks_reach:
  assumes "async_reach sp (async_start b) s" "well_owned b"
  shows "tasks_ok s"
  using assms(1)
proof (induction rule: rtranclp_induct)
  case base
  have "fits world_init (\<lambda>t. if t = 0 then Some (Running, b) else None) (\<lambda>t. if t = 0 then 1 else 0)"
    by (rule fitsI) (auto simp: runnable_def timer_fits_def chan_fits_def world_init_def oneshot_def split: if_splits)
  moreover have "task_at (async_start b) = (\<lambda>t. if t = 0 then Some (Running, b) else None)"
    "wake_count (async_start b) = (\<lambda>t. if t = 0 then 1 else 0)"
    by (auto simp: fun_eq_iff task_at_def wake_count_def ex_init_def pending_def)
  ultimately show ?case by (simp add: tasks_ok_def, simp add: ex_init_def pending_def)
next
  case (step s s')
  with tasks_step [OF step.hyps(2) step.IH exec_reach_ok [OF step.hyps(1)]] owners_reach [OF step.hyps(1) assms(2)]
  show ?case by simp
qed

section \<open>Properties\<close>

text \<open>
  C21: a block whose channel halves have one owner (what Rust's ownership enforces) keeps that for
  ever and never goes wrong: in every reachable state the receiver of a channel is owned by at most
  one task or piece of code, its sender by at most one task, thread or message, and the executor of
  exercise 2.2 has not panicked, so no future was polled after it returned and \<open>spawn\<close> found the
  executor.
\<close>

theorem owned_blocks_never_panic:
  assumes "well_owned b" "async_reach sp (async_start b) s"
  shows "ex_pc s \<noteq> Panicked \<and> rx_owners c s \<le> 1 \<and> tx_owners c s \<le> 1"
  using tasks_reach [OF assms(2,1)] owners_reach [OF assms(2,1)] by (simp add: tasks_ok_def)

definition sample_block :: "nat stmt list" where
  "sample_block = [SpawnAsync [Send 0 42], AwaitYield, AwaitRecv 0]"

lemma sample_owned: "well_owned sample_block"
  by (simp add: sample_block_def well_owned_def)

theorem owned_blocks_never_panic_witness:
  "ex_pc ((advance_exec poll_block ^^ 4) (async_start sample_block)) \<noteq> Panicked \<and>
   rx_owners 0 ((advance_exec poll_block ^^ 4) (async_start sample_block)) \<le> 1"
  using owned_blocks_never_panic [OF sample_owned
      advance_exec_reach [of False poll_block "others True" "async_start sample_block" 4], of 0] by simp

text \<open>
  C19: in every reachable state a live task has exactly one wake-up under way (in the queue or about
  to be pushed) when what it awaits is complete, and none while it is not; then the timer or the
  channel it awaits holds the waker of this very task.
\<close>

theorem task_woken_exactly_once:
  assumes "well_owned b" "async_reach sp (async_start b) s" "task_at s t = Some (aw, k)"
  shows "if runnable (ex_world s) aw then wake_count s t = 1
    else wake_count s t = 0 \<and> parked_on (ex_world s) t aw"
proof -
  from tasks_reach [OF assms(2,1)] have f: "fits (ex_world s) (task_at s) (wake_count s)" by (simp add: tasks_ok_def)
  have "\<not> (runnable (ex_world s) aw \<and> parked_on (ex_world s) t aw)"
    by (auto simp: runnable_def parked_on_def delay_phase_def split: awaiting.splits)
  with fitsD(2) [OF f assms(3)] show ?thesis by auto
qed

theorem task_woken_exactly_once_witness:
  "wake_count (async_start sample_block) 0 = 1"
proof -
  have "runnable (ex_world (async_start sample_block)) Running" by (simp add: runnable_def)
  with task_woken_exactly_once [OF sample_owned rtranclp.rtrancl_refl [of "async_step False True"], of 0 Running sample_block]
  show ?thesis by (simp add: task_at_def ex_init_def)
qed

text \<open>
  C22: between two ticks of the clock only finitely much happens, and how much is bounded by the
  program: from every state that is reached without spurious wake-ups, a run of the executor, the timers and the sending threads
  without a tick and without spurious wake-ups has at most twenty steps per statement and six more.
\<close>

theorem async_run_finite:
  assumes "async_reach False (async_start b) s" "(async_step False False ^^ n) s s'"
  shows "n \<le> uses (\<lambda>_. 20) b + 6"
  using async_run_length [OF assms(2) exec_reach_ok [OF assms(1)]] async_reach_work [OF assms(1)] by simp

theorem async_run_finite_witness:
  "(2::nat) \<le> uses (\<lambda>_. 20) sample_block + 6"
proof (rule async_run_finite)
  let ?s = "async_start sample_block"
  show "async_reach False ?s ?s" by simp
  have "async_step False False ?s (drain poll_block ?s)"
    by (rule exec_step.exec_drain) (simp add: ex_init_def)
  moreover have "async_step False False (drain poll_block ?s) (act (drain poll_block ?s))"
    by (rule exec_step.exec_act [of _ "[Spawn (Running, [Send 0 42]), Wake 0]"])
      (simp add: ex_init_def drain_def sample_block_def poll_yield_now_def yield_now_def)
  ultimately show "(async_step False False ^^ 2) ?s (act (drain poll_block ?s))"
    unfolding numeral_2_eq_2 by auto
qed

lemma not_done_step:
  assumes "exec_step sp pl ext s s'" "exec_ok s" "ex_done s \<or> ex_futures s ! 0 \<noteq> None"
  shows "ex_done s' \<or> ex_futures s' ! 0 \<noteq> None"
  using assms(1)
proof cases
  case exec_drain
  with assms(2,3) show ?thesis
    by (auto simp: drain_def exec_ok_def Let_def nth_list_update split: list.splits option.splits prod.splits)
next
  case (exec_act as)
  from assms(2) have ne: "ex_futures s \<noteq> []" by (simp add: exec_ok_def)
  show ?thesis
  proof (cases as)
    case (Cons a as')
    with assms(3) exec_act ne show ?thesis
      by (cases a) (auto simp: act_def spawn_def wake_by_ref_def ex_push_def ex_unpark_def Let_def nth_append)
  qed (use exec_act assms(3) in \<open>simp add: act_def\<close>)
qed (use assms(3) in \<open>auto simp: ex_park_def ex_unpark_def ex_push_def\<close>)

lemma not_done_reach:
  assumes "exec_reach sp pl ext (ex_init f w) s"
  shows "ex_done s \<or> ex_futures s ! 0 \<noteq> None"
  using assms
proof (induction rule: rtranclp_induct)
  case (step s s')
  from not_done_step [OF step.hyps(2) exec_reach_ok [OF step.hyps(1)] step.IH] show ?case .
qed (simp add: ex_init_def)

text \<open>The next thing to happen: a timer is due or a thread is to send, once the clock is there.\<close>

lemma others_pending:
  assumes "(\<exists>i < length (w_timers w). sleeper (w_timers w ! i) \<noteq> None) \<or> w_threads w \<noteq> []"
  shows "\<exists>d w' ts. others False (w\<lparr>w_clock := w_clock w + d\<rparr>) (w', ts)"
proof -
  have fire: ?thesis if i: "i < length (w_timers w)" "sleeper (w_timers w ! i) = Some t" for i t
  proof -
    let ?w = "w\<lparr>w_clock := w_clock w + t\<rparr>"
    obtain d ws where "delay_thread (w_timers w ! i) = (d, ws)" by (metis surj_pair)
    with i have "delay_ext (w_clock ?w) (w_timers ?w ! i) (d, ws)" by (simp add: delay_ext_def)
    with others_fire [of i ?w d ws False] i(1) show ?thesis by (intro exI) auto
  qed
  have send: ?thesis if th: "w_threads w = (due, c, v) # th" for due c v th
  proof -
    let ?w = "w\<lparr>w_clock := w_clock w + due\<rparr>"
    obtain ch ws where "oneshot_send v (w_chans w c) = (ch, ws)" by (metis surj_pair)
    with th others_send [of ?w "[]" due c v th ch ws False] show ?thesis by (intro exI) auto
  qed
  from assms show ?thesis
  proof
    assume "w_threads w \<noteq> []"
    with send show ?thesis by (metis list.exhaust prod_cases3)
  qed (use fire in blast)
qed

text \<open>
  All that is left, the main task included, waits for messages that were not sent, and no thread
  is there to send one.
\<close>

definition starved :: "('v block, 'v world) exec \<Rightarrow> bool" where
  "starved s \<longleftrightarrow>
     task_at s 0 \<noteq> None \<and> w_threads (ex_world s) = [] \<and>
     (\<forall>t aw k. task_at s t = Some (aw, k) \<longrightarrow>
        (\<exists>c. aw = OnRecv c \<and> slot (inner (w_chans (ex_world s) c)) = None))"

lemma async_next:
  assumes "tasks_ok s" "exec_ok s" "ex_done s \<or> ex_futures s ! 0 \<noteq> None" "ex_pc s \<noteq> Returned"
  shows "(\<exists>s' t. async_step False True s s' \<and> work s' \<le> work s \<and> async_step False False s' t) \<or>
    (\<exists>t. async_step False False s t) \<or>
    starved s"
proof (cases "ex_pc s")
  case Parked
  show ?thesis
  proof (cases "ex_token s \<or> 0 < ex_owed s")
    case True
    with Parked exec_step.exec_park [of s False poll_block "others False"]
      exec_step.exec_owed [of s _ False poll_block "others False"] show ?thesis
      by (metis gr0_conv_Suc)
  next
    case False
    with Parked assms(2) have q: "ex_queue s = []" "\<not> ex_done s" "ex_futures s \<noteq> []" by (auto simp: exec_ok_def)
    with assms(3) obtain aw k where b: "task_at s 0 = Some (aw, k)" by (auto simp: task_at_def)
    from assms(1) have f: "fits (ex_world s) (task_at s) (wake_count s)" by (simp add: tasks_ok_def)
    have "wake_count s t = 0" for t using q(1) Parked by (simp add: wake_count_def pending_def)
    with fitsD(2) [OF f] have p: "parked_on (ex_world s) t aw" if "task_at s t = Some (aw, k)" for t aw k
      using that by (metis zero_neq_one)
    show ?thesis
    proof (cases "(\<exists>i < length (w_timers (ex_world s)). sleeper (w_timers (ex_world s) ! i) \<noteq> None) \<or>
        w_threads (ex_world s) \<noteq> []")
      case True
      from others_pending [OF this] obtain d w' ts where
        o: "others False ((ex_world s)\<lparr>w_clock := w_clock (ex_world s) + d\<rparr>) (w', ts)" by blast
      let ?s = "ex_push [] (s\<lparr>ex_world := (ex_world s)\<lparr>w_clock := w_clock (ex_world s) + d\<rparr>,
        ex_owed := ex_owed s + length ([]::nat list)\<rparr>)"
      have st: "async_step False True s ?s" by (rule exec_step.exec_other) (simp_all add: others_tick)
      have "async_step False False ?s
          (ex_push ts (?s\<lparr>ex_world := w', ex_owed := ex_owed ?s + length ts\<rparr>))"
      proof (rule exec_step.exec_other)
        show "others False (ex_world ?s) (w', ts)" using o by (simp add: ex_push_def)
        have "fits ((ex_world s)\<lparr>w_clock := w_clock (ex_world s) + d\<rparr>) (task_at s) (wake_count s)"
          by (rule fits_cong [OF f]) simp_all
        from others_targets [OF this o] show "\<forall>t \<in> set ts. t < length (ex_futures ?s)"
          by (simp add: ex_push_def)
      qed
      with st async_tick_work [OF st assms(2)] show ?thesis by blast
    next
      case False
      have "\<exists>c. aw = OnRecv c \<and> slot (inner (w_chans (ex_world s) c)) = None"
        if "task_at s t = Some (aw, k)" for t aw k
        using p [OF that] False by (cases aw) (auto simp: parked_on_def delay_phase_def)
      with b False have "starved s" by (simp add: starved_def)
      then show ?thesis by blast
    qed
  qed
qed (use assms(1,4) exec_step.exec_drain [of s False poll_block "others False"]
    exec_step.exec_act [of s _ False poll_block "others False"]
    exec_step.exec_park [of s False poll_block "others False"] in \<open>auto simp: tasks_ok_def\<close>)


lemma spurious_mono:
  assumes "exec_reach False pl ext s s'"
  shows "exec_reach sp pl ext s s'"
  using assms
proof (induction rule: rtranclp_induct)
  case (step s s')
  from step.hyps(2) have "exec_step sp pl ext s s'" by cases (auto intro: exec_step.intros)
  with step.IH show ?case by (rule rtranclp.rtrancl_into_rtrancl)
qed simp

lemma tick_mono: "async_step False False s s' \<Longrightarrow> async_step False True s s'"
  by (erule exec_step.cases) (auto intro!: exec_step.intros elim!: others.cases intro: others.intros)

lemma rx_owners_reach:
  assumes "async_reach sp (async_start b) s"
  shows "rx_owners c s \<le> count_list (receivers b) c"
  using assms
proof (induction rule: rtranclp_induct)
  case base
  show ?case
    by (simp add: rx_owners_def cost_def pending_def ex_init_def block_cost_def rx_aw_def uses_receivers)
next
  case (step s s')
  with owners_step(1) [OF step.hyps(2) exec_reach_ok [OF step.hyps(1)], of c] show ?case by simp
qed

lemma starved_receiver:
  assumes "async_reach sp (async_start b) s" "starved s"
  shows "receivers b \<noteq> []"
proof
  assume "receivers b = []"
  with rx_owners_reach [OF assms(1)] have 0: "rx_owners c s = 0" for c by (metis count_list.simps(1) le_zero_eq)
  from assms(2) obtain aw k where b: "task_at s 0 = Some (aw, k)" by (auto simp: starved_def)
  with assms(2) obtain c where "aw = OnRecv c" unfolding starved_def by blast
  note b = b [unfolded this]
  from b have i: "0 < length (ex_futures s)" "ex_futures s ! 0 = Some (OnRecv c, k)"
    by (auto simp: task_at_def split: if_splits)
  let ?f = "case_option 0 (block_cost (rx_aw c) (rx_use c))"
  have "?f (ex_futures s ! 0) \<le> sum_list (map ?f (ex_futures s))"
    using i(1) by (intro member_le_sum_list) simp_all
  moreover have "sum_list (map ?f (ex_futures s)) \<le> rx_owners c s" by (simp add: rx_owners_def cost_def)
  moreover have "1 \<le> ?f (ex_futures s ! 0)" using i(2) by (simp add: block_cost_def rx_aw_def)
  ultimately show False using 0 [of c] by linarith
qed

text \<open>
  C20: \<open>block_on\<close> of exercise 2.2 returns: from every reachable state of a well-owned block, the
  executor, the clock, the timers and the sending threads reach the return without a spurious
  wake-up, or a state in which every task left, the main one included, waits for a message that
  nobody will send; the latter only for a block that receives at all.
\<close>

theorem async_block_on_returns:
  assumes "well_owned b" "async_reach sp (async_start b) s"
  shows "\<exists>s'. async_reach False s s' \<and> (ex_pc s' = Returned \<or> receivers b \<noteq> [] \<and> starved s')"
  using assms(2)
proof (induction "work s" arbitrary: s rule: less_induct)
  case less
  note ok = tasks_reach [OF less.prems assms(1)] exec_reach_ok [OF less.prems] not_done_reach [OF less.prems]
  have further: ?case if t: "async_reach False s t" "work t < work s" for t
  proof -
    from less.prems spurious_mono [OF t(1)] have "async_reach sp (async_start b) t" by (rule rtranclp_trans)
    from less.hyps [OF t(2) this] t(1) show ?thesis by (meson rtranclp_trans)
  qed
  show ?case
  proof (cases "ex_pc s = Returned")
    case False
    from async_next [OF ok False] show ?thesis
    proof (elim disjE exE conjE)
      fix t u assume t: "async_step False True s t" "work t \<le> work s" "async_step False False t u"
      from async_step_work [OF t(3) exec_step_ok [OF t(1) ok(2)]] t(2) have "work u < work s" by simp
      have "async_reach False s u"
        using t(1) r_into_rtranclp [of "async_step False True", OF tick_mono [OF t(3)]]
        by (rule converse_rtranclp_into_rtranclp)
      from further [OF this \<open>work u < work s\<close>] show ?thesis .
    next
      fix t assume t: "async_step False False s t"
      from further [OF r_into_rtranclp [of "async_step False True", OF tick_mono [OF t]] async_step_work [OF t ok(2)]] show ?thesis .
    next
      assume "starved s"
      with starved_receiver [OF less.prems] show ?thesis by blast
    qed
  qed blast
qed

theorem async_block_on_returns_witness:
  "\<exists>s'. async_reach False (async_start [SpawnAsync [AwaitDelay 2], AwaitYield, AwaitDelay 1]) s' \<and>
     ex_pc s' = Returned"
  using async_block_on_returns [of "[SpawnAsync [AwaitDelay 2], AwaitYield, AwaitDelay 1]" False, OF _ rtranclp.rtrancl_refl]
  by (simp add: well_owned_def)

end
