(* ===== verification/Async_Tests.thy ===== *)
theory Async_Tests
  imports Async_Tasks
begin

text \<open>
  The programs of \<open>run\<close> and of the tests in \<open>src/workshop/src/ex2_2.rs\<close> as asynchronous blocks on
  the executor of the solution. Blocks that use neither timers nor threads run in one way only, up
  to the clock, so their outcome is computed; the others return by the general theorems.
\<close>

section \<open>Blocks without timers and threads run in one way\<close>

definition timed :: "'v stmt \<Rightarrow> nat" where
  "timed st = (case st of AwaitDelay dur \<Rightarrow> 1 | SendLater c dur v \<Rightarrow> 1 | _ \<Rightarrow> 0)"

definition timed_world :: "'v world \<Rightarrow> nat" where
  "timed_world w = length (w_timers w) + length (w_threads w)"

definition timeless :: "('v block, 'v world) exec \<Rightarrow> bool" where
  "timeless s \<longleftrightarrow> cost 0 (\<lambda>_. 0) timed timed_world s = 0"

interpretation timed: conserved 0 "\<lambda>_. 0" timed timed_world
proof unfold_locales
  show "(if r then 0 else 0) + timed_world w' + 0 * length ws \<le> 0 + timed_world w"
    if "poll_await t aw w = (r, aw', w', ws)" for t aw and w w' :: "'v world" and r aw' ws
    using that by (cases aw) (auto simp: timed_world_def split: prod.splits)
  show "0 + timed_world w' + acts_cost 0 (\<lambda>_. 0) timed as \<le> nested timed st + timed_world w"
    if "enter st w = (aw, w', as)" for st :: "'v stmt" and aw w w' as
    using that
    by (cases st) (auto simp: timed_world_def timed_def nested_def block_cost_def split: prod.splits)
qed simp

text \<open>The clock set to \<open>n\<close>: nothing but timers and threads reads it.\<close>

definition at_time :: "instant \<Rightarrow> 'v world \<Rightarrow> 'v world" where
  "at_time n w = w\<lparr>w_clock := n\<rparr>"

lemma at_time_sel [simp]:
  "w_clock (at_time n w) = n" "w_timers (at_time n w) = w_timers w" "w_chans (at_time n w) = w_chans w"
  "w_threads (at_time n w) = w_threads w" "w_log (at_time n w) = w_log w"
  "at_time m (at_time n w) = at_time m w"
  by (simp_all add: at_time_def)

lemma poll_await_at:
  "poll_await t aw (at_time n w) = (case poll_await t aw w of (r, aw, w, ws) \<Rightarrow> (r, aw, at_time n w, ws))"
  by (cases aw) (simp_all add: at_time_def split: prod.split poll.split)

lemma enter_at:
  assumes "timed st = 0"
  shows "enter st (at_time n w) = (case enter st w of (aw, w, as) \<Rightarrow> (aw, at_time n w, as))"
  using assms by (cases st) (simp_all add: at_time_def timed_def split: prod.split)

lemma run_code_at:
  assumes "uses timed k = 0"
  shows "run_code t k (at_time n w) = (case run_code t k w of (r, b, w, as) \<Rightarrow> (r, b, at_time n w, as))"
  using assms
proof (induction k arbitrary: w)
  case (Cons st k)
  then have "timed st = 0" "uses timed k = 0" by (simp_all add: uses_Cons nested_def)
  with Cons.IH show ?case by (simp add: enter_at poll_await_at split: prod.split)
qed simp

lemma poll_block_at:
  assumes "uses timed (snd b) = 0"
  shows "poll_block t b (at_time n w) = (case poll_block t b w of (r, b, w, as) \<Rightarrow> (r, b, at_time n w, as))"
  using assms by (cases b) (simp add: run_code_at poll_await_at split: prod.split)

definition exec_at :: "instant \<Rightarrow> ('v block, 'v world) exec \<Rightarrow> ('v block, 'v world) exec" where
  "exec_at n s = s\<lparr>ex_world := at_time n (ex_world s)\<rparr>"

lemma exec_at_sel [simp]:
  "ex_queue (exec_at n s) = ex_queue s" "ex_futures (exec_at n s) = ex_futures s"
  "ex_world (exec_at n s) = at_time n (ex_world s)" "ex_token (exec_at n s) = ex_token s"
  "ex_owed (exec_at n s) = ex_owed s" "ex_current (exec_at n s) = ex_current s"
  "ex_done (exec_at n s) = ex_done s" "ex_pc (exec_at n s) = ex_pc s"
  "exec_at m (exec_at n s) = exec_at m s"
  by (simp_all add: exec_at_def)

lemma drain_at:
  assumes "timeless s" "exec_ok s"
  shows "drain poll_block (exec_at n s) = exec_at n (drain poll_block s)"
proof (cases "ex_queue s")
  case (Cons t q)
  then have t: "t < length (ex_futures s)" using assms(2) by (simp add: exec_ok_def)
  show ?thesis
  proof (cases "ex_futures s ! t")
    case (Some b)
    let ?f = "case_option 0 (block_cost (\<lambda>_. 0) timed)"
    have "?f (ex_futures s ! t) \<le> sum_list (map ?f (ex_futures s))"
      using t by (intro member_le_sum_list) simp_all
    also have "\<dots> \<le> 0" using assms(1) by (simp add: timeless_def cost_def)
    finally have "uses timed (snd b) = 0" using Some by (simp add: block_cost_def)
    with poll_block_at [OF this] Cons Some show ?thesis
      by (simp add: drain_def exec_at_def split: prod.split)
  qed (use Cons in \<open>simp add: drain_def exec_at_def\<close>)
qed (simp add: drain_def exec_at_def)

lemma perform_at: "perform a (exec_at n s) = exec_at n (perform a s)"
  by (cases a) (simp_all add: exec_at_def wake_by_ref_def spawn_def ex_push_def ex_unpark_def Let_def)

lemma pc_at: "(exec_at n s)\<lparr>ex_pc := p\<rparr> = exec_at n (s\<lparr>ex_pc := p\<rparr>)"
  by (simp add: exec_at_def)

lemma act_at: "act (exec_at n s) = exec_at n (act s)"
  by (simp add: act_def perform_at pc_at split: exec_pc.split list.split)

lemma timeless_step:
  assumes "async_step sp ticks s s'" "exec_ok s" "timeless s"
  shows "timeless s'"
proof -
  have "timed_world w' \<le> timed_world w" if "others ticks w (w', ts)" for w w' :: "'a world" and ts
    using that by cases (auto simp: timed_world_def)
  from timed.step_law [OF assms(1,2) this] assms(3) show ?thesis by (simp add: timeless_def)
qed

abbreviation alone :: "nat \<Rightarrow> ('v block, 'v world) exec \<Rightarrow> ('v block, 'v world) exec" where
  "alone k s \<equiv> (advance_exec poll_block ^^ k) s"

lemma alone_keeps:
  assumes "ex_owed s = 0" "exec_ok s" "timeless s"
  shows "ex_owed (alone k s) = 0 \<and> exec_ok (alone k s) \<and> timeless (alone k s)"
proof (induction k)
  case (Suc k)
  have step: "async_step False False t (advance_exec poll_block t) \<or> advance_exec poll_block t = t"
    for t :: "('a block, 'a world) exec"
    by (cases "ex_pc t") (auto simp: advance_exec_def intro: exec_step.intros)
  have owed: "ex_owed (advance_exec poll_block t) = ex_owed t" for t :: "('a block, 'a world) exec"
  proof -
    have "ex_owed (perform a u) = ex_owed u" for a and u :: "('a block, 'a world) exec"
      by (cases a) (simp_all add: exec_defs Let_def)
    then show ?thesis
      by (auto simp: advance_exec_def act_def drain_def Let_def
        split: exec_pc.split list.split option.split prod.split)
  qed
  let ?t = "alone k s"
  from step [of ?t] Suc.IH exec_step_ok [of False poll_block "others False" ?t] timeless_step [of False False ?t]
  show ?case by (auto simp: owed)
qed (use assms in simp)

text \<open>
  When the executor on its own returns, it does so in every run, and what it leaves behind is the
  same up to the clock.
\<close>

lemma timeless_run:
  assumes "timeless s" "exec_ok s" "ex_owed s = 0" "ex_pc (alone n s) = Returned" "async_reach sp s s'"
  shows "\<exists>k m. k \<le> n \<and> s' = exec_at m (alone k s)"
  using assms(5)
proof (induction rule: rtranclp_induct)
  case base
  have "s = exec_at (w_clock (ex_world s)) (alone 0 s)" by (simp add: exec_at_def at_time_def)
  then show ?case by blast
next
  case (step t t')
  then obtain k m where k: "k \<le> n" "t = exec_at m (alone k s)" by blast
  let ?a = "alone k s"
  note keep = alone_keeps [OF assms(3,2,1), of k]
  have stays: "alone (j + k) s = ?a" if "advance_exec poll_block ?a = ?a" for j
    using that by (induction j) simp_all
  have moving: "ex_pc ?a \<noteq> Parking \<and> ex_pc ?a \<noteq> Parked \<and> ((\<exists>as. ex_pc ?a = Draining \<or> ex_pc ?a = Acting as) \<longrightarrow> k < n)"
    using stays [of "n - k"] k(1) assms(4) by (cases "k = n") (auto simp: advance_exec_def)
  from step.hyps(2) show ?case
  proof cases
    case exec_drain
    with k keep have "t' = exec_at m (alone (Suc k) s)" by (simp add: drain_at advance_exec_def)
    moreover have "Suc k \<le> n" using moving exec_drain k(2) by auto
    ultimately show ?thesis by blast
  next
    case (exec_act as)
    with k have "t' = exec_at m (alone (Suc k) s)" by (simp add: act_at advance_exec_def)
    moreover have "Suc k \<le> n" using moving exec_act k(2) by auto
    ultimately show ?thesis by blast
  next
    case (exec_other w ts)
    from keep have "w_timers (ex_world ?a) = []" "w_threads (ex_world ?a) = []"
      by (simp_all add: timeless_def cost_def timed_world_def)
    with exec_other(2) k(2) obtain d where "w = at_time (m + d) (ex_world ?a)" "ts = []"
      by cases (auto simp: at_time_def)
    with exec_other(1) k have "t' = exec_at (m + d) ?a" by (simp add: ex_push_def exec_at_def)
    with k(1) show ?thesis by blast
  qed (use k(2) moving keep in auto)
qed

lemma timeless_start:
  assumes "uses timed b = 0"
  shows "timeless (async_start b)" "exec_ok (async_start b)" "ex_owed (async_start b) = 0"
  using assms
  by (simp_all add: timeless_def cost_def pending_def ex_init_def block_cost_def timed_world_def world_init_def
      exec_ok_def)

lemma timeless_outcome:
  assumes "uses timed b = 0" "ex_pc (alone n (async_start b)) = Returned"
    and "async_reach sp (async_start b) s" "ex_pc s = Returned"
  shows "w_log (ex_world s) = w_log (ex_world (alone n (async_start b)))"
proof -
  note 0 = timeless_start [OF assms(1)]
  from timeless_run [OF 0 assms(2,3)] obtain k m where k: "k \<le> n" "s = exec_at m (alone k (async_start b))" by blast
  with assms(4) have "advance_exec poll_block (alone k (async_start b)) = alone k (async_start b)"
    by (simp add: advance_exec_def)
  then have "alone (j + k) (async_start b) = alone k (async_start b)" for j by (induction j) simp_all
  from this [of "n - k"] k show ?thesis by simp
qed

lemma advance_at:
  assumes "timeless t" "exec_ok t"
  shows "advance_exec poll_block (exec_at n t) = exec_at n (advance_exec poll_block t)"
  using assms by (cases "ex_pc t") (simp_all add: advance_exec_def drain_at act_at)

lemma alone_at:
  assumes "timeless s" "exec_ok s" "ex_owed s = 0"
  shows "alone k (exec_at n s) = exec_at n (alone k s)"
proof (induction k)
  case (Suc k)
  with alone_keeps [OF assms(3,2,1), of k] show ?case
    by (simp add: advance_at)
qed simp

lemma timeless_returns:
  assumes "uses timed b = 0" "ex_pc (alone n (async_start b)) = Returned" "async_reach sp (async_start b) s"
  shows "\<exists>s'. async_reach False s s' \<and> ex_pc s' = Returned \<and>
    w_log (ex_world s') = w_log (ex_world (alone n (async_start b)))"
proof -
  note 0 = timeless_start [OF assms(1)]
  from timeless_run [OF 0 assms(2,3)] obtain k m where k: "k \<le> n" "s = exec_at m (alone k (async_start b))" by blast
  note keep = alone_keeps [OF 0(3,2,1), of k]
  have "alone (n - k) s = exec_at m (alone n (async_start b))"
    using alone_at [of "alone k (async_start b)" "n - k" m] keep k
    by (simp flip: funpow_add [THEN fun_cong, simplified comp_apply])
  with assms(2) advance_exec_reach [of False poll_block "others True" s "n - k"] show ?thesis
    by (intro exI [of _ "alone (n - k) s"]) simp
qed

section \<open>The programs of exercise 2.2\<close>

text \<open>
  A test is its block and what it asserts on the effects, in the order in which they happen; the
  demonstration in \<open>run\<close> is the lines it prints. Durations are in nanoseconds.
\<close>

definition millis :: "nat \<Rightarrow> duration" where
  "millis n = n * 10 ^ 6"

definition ex2_2_run :: "string stmt list" where
  "ex2_2_run =
     [Record ''Main task starting'',
      SpawnAsync [Record ''  Spawned task 1 running''],
      SpawnAsync [Record ''  Spawned task 2 running''],
      AwaitYield,
      Record ''Main task finishing'']"

definition spawn_runs_task :: "string stmt list" where
  "spawn_runs_task = [SpawnAsync [Record ''ran''], AwaitYield]"

definition spawn_multiple_tasks :: "string stmt list" where
  "spawn_multiple_tasks = replicate 5 (SpawnAsync [Record ''count'']) @ [AwaitYield]"

definition spawned_task_can_spawn :: "string stmt list" where
  "spawned_task_can_spawn =
     [SpawnAsync [SpawnAsync [Record ''ran''], AwaitYield], AwaitYield, AwaitYield]"

definition main_future_completes_last :: "string stmt list" where
  "main_future_completes_last = [SpawnAsync [Record ''spawned''], AwaitYield, Record ''main'']"

definition returns_when_main_completes :: "string stmt list" where
  "returns_when_main_completes = [SpawnAsync [AwaitDelay (millis 2000)], AwaitYield]"

definition spawn_with_delay :: "string stmt list" where
  "spawn_with_delay = [SpawnAsync [AwaitDelay (millis 50)], AwaitDelay (millis 100)]"

definition spawn_with_oneshot :: "string stmt list" where
  "spawn_with_oneshot = [SpawnAsync [Send 0 ''42''], AwaitYield, AwaitRecv 0]"

lemmas ex2_2_defs = ex2_2_run_def spawn_runs_task_def spawn_multiple_tasks_def spawned_task_can_spawn_def
  main_future_completes_last_def spawn_with_oneshot_def

lemmas alone_eval = exec_eval world_init_def oneshot_def oneshot_send_def poll_yield_now_def yield_now_def
  poll_receiver_def

definition ex2_2_outcomes :: "(string stmt list \<times> string list) list" where
  "ex2_2_outcomes =
     [(ex2_2_run, [''Main task starting'', ''  Spawned task 1 running'', ''  Spawned task 2 running'',
        ''Main task finishing'']),
      (spawn_runs_task, [''ran'']),
      (spawn_multiple_tasks, replicate 5 ''count''),
      (spawned_task_can_spawn, [''ran'']),
      (main_future_completes_last, [''spawned'', ''main'']),
      (spawn_with_oneshot, [''42''])]"

lemma outcome_alone:
  assumes "(b, out) \<in> set ex2_2_outcomes"
  shows "uses timed b = 0 \<and> ex_pc (alone 24 (async_start b)) = Returned \<and>
    w_log (ex_world (alone 24 (async_start b))) = out"
proof -
  have "uses timed ex2_2_run = 0" "uses timed spawn_runs_task = 0" "uses timed spawn_multiple_tasks = 0"
    "uses timed spawned_task_can_spawn = 0" "uses timed main_future_completes_last = 0"
    "uses timed spawn_with_oneshot = 0"
    by (simp_all add: ex2_2_defs timed_def numeral_eq_Suc)
  moreover have
    "ex_pc (alone 24 (async_start ex2_2_run)) = Returned \<and>
     w_log (ex_world (alone 24 (async_start ex2_2_run))) = [''Main task starting'',
       ''  Spawned task 1 running'', ''  Spawned task 2 running'', ''Main task finishing'']"
    "ex_pc (alone 24 (async_start spawn_runs_task)) = Returned \<and>
     w_log (ex_world (alone 24 (async_start spawn_runs_task))) = [''ran'']"
    "ex_pc (alone 24 (async_start spawn_multiple_tasks)) = Returned \<and>
     w_log (ex_world (alone 24 (async_start spawn_multiple_tasks))) = replicate 5 ''count''"
    "ex_pc (alone 24 (async_start spawned_task_can_spawn)) = Returned \<and>
     w_log (ex_world (alone 24 (async_start spawned_task_can_spawn))) = [''ran'']"
    "ex_pc (alone 24 (async_start main_future_completes_last)) = Returned \<and>
     w_log (ex_world (alone 24 (async_start main_future_completes_last))) = [''spawned'', ''main'']"
    "ex_pc (alone 24 (async_start spawn_with_oneshot)) = Returned \<and>
     w_log (ex_world (alone 24 (async_start spawn_with_oneshot))) = [''42'']"
    by (simp_all add: alone_eval ex2_2_defs)
  ultimately show ?thesis
    using assms unfolding ex2_2_outcomes_def list.set insert_iff empty_iff prod.inject
    by (elim disjE conjE) (simp_all only: simp_thms)
qed

text \<open>
  C25: the tests of exercise 2.2 that use neither timers nor threads pass with the executor of the
  solution in every run: whatever spurious wake-ups there are, every reachable state can go on to
  the return of \<open>block_on\<close>, and when it has returned the effects are those asserted, in the order
  asserted (a spawned task has run, all five have, a spawned task spawned another, the main
  future completed last, the receiver got the value sent); the demonstration prints its four lines
  in order.
\<close>

theorem spawn_tests_pass:
  assumes "(b, out) \<in> set ex2_2_outcomes" "async_reach sp (async_start b) s"
  shows "if ex_pc s = Returned then w_log (ex_world s) = out
    else \<exists>s'. async_reach False s s' \<and> ex_pc s' = Returned \<and> w_log (ex_world s') = out"
proof -
  from outcome_alone [OF assms(1)] have o: "uses timed b = 0" "ex_pc (alone 24 (async_start b)) = Returned"
    "w_log (ex_world (alone 24 (async_start b))) = out" by blast+
  from timeless_returns [OF o(1,2) assms(2), unfolded o(3)] timeless_outcome [OF o(1,2) assms(2), unfolded o(3)]
  show ?thesis by simp
qed

theorem spawn_tests_pass_witness:
  "\<exists>s'. async_reach False (async_start main_future_completes_last) s' \<and> ex_pc s' = Returned \<and>
     w_log (ex_world s') = [''spawned'', ''main'']"
proof -
  have "(main_future_completes_last, [''spawned'', ''main'']) \<in> set ex2_2_outcomes"
    by (simp add: ex2_2_outcomes_def)
  from spawn_tests_pass [OF this rtranclp.rtrancl_refl [of "async_step False True"]] show ?thesis
    by (simp add: ex_init_def)
qed

text \<open>
  \<open>block_on\<close> returns when the main future has, although a spawned task still sleeps: the clock has
  not moved and the timer of the task is running.
\<close>

lemma returns_before_timer:
  fixes d :: duration
  defines "s \<equiv> alone 9 (async_start [SpawnAsync [AwaitDelay d], AwaitYield])"
  shows "ex_pc s = Returned" "w_clock (ex_world s) = 0" "sleeper (w_timers (ex_world s) ! 0) = Some d"
  by (simp_all add: s_def alone_eval delay_new_def poll_delay_def)

lemma returns_with_pending_task:
  "\<exists>s. exec_reach False poll_block (others False) (async_start returns_when_main_completes) s \<and>
     ex_pc s = Returned \<and> w_clock (ex_world s) = 0 \<and>
     sleeper (w_timers (ex_world s) ! 0) = Some (millis 2000)"
  unfolding returns_when_main_completes_def
  using returns_before_timer [of "millis 2000"] advance_exec_reach by blast

end
