(* ===== verification/Async_Solo.thy ===== *)
theory Async_Solo
  imports Async_Tests
begin

text \<open>
  The executor of exercise 2.1 (theory \<open>Block_On\<close>) on asynchronous blocks: on blocks that do not
  spawn, every run of it is a run of the executor of exercise 2.2, so that what holds there holds
  here too; and the programs of \<open>src/workshop/src/ex2_1.rs\<close>.
\<close>

section \<open>The executor of exercise 2.1\<close>

text \<open>
  The executor of exercise 2.1 polls the main block with a waker for its only task; the block and
  the world are the future of its model.
\<close>

definition only_wakes :: "'f action list \<Rightarrow> unit list" where
  "only_wakes as = replicate (length as) ()"

definition solo_block :: "unit \<Rightarrow> 'v block \<times> 'v world \<Rightarrow> unit poll \<times> ('v block \<times> 'v world) \<times> unit list" where
  "solo_block cx f =
     (case poll_block 0 (fst f) (snd f) of (r, b, w, as) \<Rightarrow>
        (if r then PollReady () else PollPending, (b, w), only_wakes as))"

definition solo_others ::
    "instant \<Rightarrow> 'v block \<times> 'v world \<Rightarrow> ('v block \<times> 'v world) \<times> unit list \<Rightarrow> bool" where
  "solo_others t f r \<longleftrightarrow>
     (\<exists>ts. others True (snd f) (snd (fst r), ts) \<and> fst (fst r) = fst f \<and> snd r = replicate (length ts) ())"

abbreviation solo_async where
  "solo_async sp b \<equiv> solo_reach sp solo_block solo_others (solo_init ((Running, b), world_init))"

definition spawning :: "'v stmt \<Rightarrow> nat" where
  "spawning st = (case st of SpawnAsync b \<Rightarrow> 1 | _ \<Rightarrow> 0)"

text \<open>A block that does not spawn performs wake-ups only, and never will spawn.\<close>

lemma enter_wakes:
  assumes "enter st w = (aw, w', as)" "spawning st = 0"
  shows "\<exists>ts. as = map Wake ts"
  using assms by (cases st) (auto simp: spawning_def split: prod.splits)

lemma run_code_wakes:
  assumes "run_code t k w = (r, b, w', as)" "uses spawning k = 0"
  shows "(\<exists>ts. as = map Wake ts) \<and> uses spawning (snd b) = 0"
  using assms
proof (induction k arbitrary: w r b w' as)
  case (Cons st k)
  obtain aw w1 new where e: "enter st w = (aw, w1, new)" by (metis surj_pair)
  obtain ready aw2 w2 ws where p: "poll_await t aw w1 = (ready, aw2, w2, ws)" by (metis surj_pair)
  from Cons.prems(2) have u: "spawning st = 0" "uses spawning k = 0" by (simp_all add: uses_Cons nested_def)
  from enter_wakes [OF e u(1)] obtain ts where ts: "new = map Wake ts" by blast
  show ?case
  proof (cases ready)
    case True
    obtain r3 b3 w3 as3 where c: "run_code t k w2 = (r3, b3, w3, as3)" by (metis surj_pair)
    from Cons.IH [OF c u(2)] obtain us where "as3 = map Wake us" "uses spawning (snd b3) = 0" by blast
    with Cons.prems(1) True e p c ts have "as = map Wake (ts @ ws @ us)" "uses spawning (snd b) = 0" by auto
    then show ?thesis by blast
  next
    case False
    with Cons.prems(1) e p ts u(2) have "as = map Wake (ts @ ws)" "uses spawning (snd b) = 0" by auto
    then show ?thesis by blast
  qed
qed auto

lemma poll_block_wakes:
  assumes "poll_block t b w = (r, b', w', as)" "uses spawning (snd b) = 0"
  shows "(\<exists>ts. as = map Wake ts) \<and> uses spawning (snd b') = 0"
proof -
  obtain aw k where b: "b = (aw, k)" by (cases b)
  obtain ready aw2 w2 ws where p: "poll_await t aw w = (ready, aw2, w2, ws)" by (metis surj_pair)
  show ?thesis
  proof (cases ready)
    case True
    obtain r3 b3 w3 as3 where c: "run_code t k w2 = (r3, b3, w3, as3)" by (metis surj_pair)
    from run_code_wakes [OF c] assms(2) b obtain us where "as3 = map Wake us" "uses spawning (snd b3) = 0" by auto
    with assms(1) b p c True have "as = map Wake (ws @ us)" "uses spawning (snd b') = 0" by auto
    then show ?thesis by blast
  qed (use assms b p in auto)
qed

text \<open>The state of exercise 2.2 that a state of exercise 2.1 stands for.\<close>

definition solo_refines :: "('v block \<times> 'v world) solo \<Rightarrow> ('v block, 'v world) exec \<Rightarrow> bool" where
  "solo_refines s e \<longleftrightarrow>
     ex_queue e = replicate (length (solo_queue s)) 0 \<and> ex_world e = snd (future s) \<and>
     ex_token e = token s \<and> ex_owed e = unparks s \<and>
     (case solo_pc s of
        solo_pc.Finished \<Rightarrow> ex_pc e = Draining \<and> ex_futures e = [None] \<and> ex_done e
      | p \<Rightarrow>
          ex_pc e = (case p of solo_pc.Draining \<Rightarrow> Draining | solo_pc.Parking \<Rightarrow> Parking | _ \<Rightarrow> Parked) \<and>
          ex_futures e = [Some (fst (future s))] \<and> \<not> ex_done e \<and> uses spawning (snd (fst (future s))) = 0)"

lemma acts_push:
  assumes "ex_pc e = Acting (map Wake (replicate n 0))" "ex_futures e \<noteq> []"
  shows "exec_reach sp pl ext e
    (e\<lparr>ex_queue := ex_queue e @ replicate n 0, ex_pushed := ex_pushed e @ replicate n 0,
       ex_token := (ex_token e \<or> n > 0), ex_pc := Draining\<rparr>)"
  using assms
proof (induction n arbitrary: e)
  case 0
  with exec_step.exec_act [of e "[]" sp pl ext] show ?case by (simp add: act_def r_into_rtranclp)
next
  case (Suc n)
  have st: "exec_step sp pl ext e (act e)" using Suc.prems(1) by (rule exec_step.exec_act)
  have a: "act e = e\<lparr>ex_queue := ex_queue e @ [0], ex_pushed := ex_pushed e @ [0], ex_token := True,
      ex_pc := Acting (map Wake (replicate n 0))\<rparr>"
    using Suc.prems by (simp add: act_def wake_by_ref_def ex_push_def ex_unpark_def)
  from Suc.IH [of "act e"] Suc.prems(2) have "exec_reach sp pl ext (act e)
    (e\<lparr>ex_queue := ex_queue e @ replicate (Suc n) 0, ex_pushed := ex_pushed e @ replicate (Suc n) 0,
       ex_token := (ex_token e \<or> Suc n > 0), ex_pc := Draining\<rparr>)" by (simp add: a)
  with st show ?case by (rule converse_rtranclp_into_rtranclp)
qed


lemma targets_zero:
  assumes "fits w (task_at e) W" "others ticks w (w', ts)" "length (ex_futures e) = 1"
  shows "ts = replicate (length ts) 0"
  using others_targets [OF assms(1,2)] assms(3) by (intro replicate_length_same [symmetric]) auto

lemma wakes_zero:
  assumes "tasks_ok e" "ex_pc e = Acting (map Wake ts)" "length (ex_futures e) = 1"
  shows "ts = replicate (length ts) 0"
proof (rule replicate_length_same [symmetric], rule ballI)
  fix t assume "t \<in> set ts"
  then have "wake_count e t \<noteq> 0" using assms(2) by (simp add: wake_count_def pending_def count_list_0_iff)
  moreover have "fits (ex_world e) (task_at e) (wake_count e)" using assms(1) by (simp add: tasks_ok_def)
  ultimately have "task_at e t \<noteq> None" using fitsD(1) by metis
  then show "t = 0" using assms(3) by (simp add: task_at_def split: if_splits)
qed

lemma solo_sim_drain:
  assumes "solo_refines s e" "solo_pc s = solo_pc.Draining" "tasks_ok e" "exec_ok e" "\<And>c. rx_owners c e \<le> 1"
  shows "\<exists>e'. async_reach sp e e' \<and> solo_refines (solo_poll solo_block s) e'"
proof -
  from assms(1,2) have r: "ex_queue e = replicate (length (solo_queue s)) 0" "ex_world e = snd (future s)"
    "ex_token e = token s" "ex_owed e = unparks s" "ex_pc e = Draining"
    "ex_futures e = [Some (fst (future s))]" "\<not> ex_done e" "uses spawning (snd (fst (future s))) = 0"
    by (simp_all add: solo_refines_def)
  have st: "async_reach sp e (drain poll_block e)"
    using r(5) by (intro r_into_rtranclp exec_step.exec_drain)
  show ?thesis
  proof (cases "solo_queue s")
    case Nil
    with r assms(2) have "solo_refines (solo_poll solo_block s) (drain poll_block e)"
      by (simp add: solo_refines_def solo_poll_def drain_def)
    with st show ?thesis by blast
  next
    case (Cons u q)
    obtain rd b w as where p: "poll_block 0 (fst (future s)) (snd (future s)) = (rd, b, w, as)" by (metis surj_pair)
    from poll_block_wakes [OF p r(8)] obtain ts where ts: "as = map Wake ts" "uses spawning (snd b) = 0" by blast
    let ?d = "drain poll_block e"
    from Cons r p ts have d: "ex_queue ?d = replicate (length q) 0" "ex_world ?d = w" "ex_token ?d = token s"
      "ex_owed ?d = unparks s" "ex_pc ?d = Acting (map Wake ts)" "ex_futures ?d = [if rd then None else Some b]"
      "ex_done ?d = rd"
      by (simp_all add: drain_def)
    have "tasks_ok ?d" by (rule tasks_drain [OF assms(3) r(5) assms(4,5)])
    from wakes_zero [OF this d(5)] d(6) have z: "ts = replicate (length ts) 0" by simp
    let ?e = "?d\<lparr>ex_queue := ex_queue ?d @ replicate (length ts) 0,
      ex_pushed := ex_pushed ?d @ replicate (length ts) 0, ex_token := (ex_token ?d \<or> length ts > 0), ex_pc := Draining\<rparr>"
    have "async_reach sp ?d ?e"
      using d(5,6) by (intro acts_push) (metis z, simp)
    moreover have "solo_refines (solo_poll solo_block s) ?e"
      using Cons p ts d assms(2)
      by (cases rd; cases ts) (simp_all add: solo_refines_def solo_poll_def solo_block_def only_wakes_def solo_wake_def
          solo_push_def solo_unpark_def Let_def replicate_add [symmetric] del: replicate_Suc)
    ultimately show ?thesis using st by (meson rtranclp_trans)
  qed
qed

lemma solo_sim:
  assumes "solo_step sp solo_block solo_others s s'" "solo_refines s e" "tasks_ok e" "exec_ok e"
    and "\<And>c. rx_owners c e \<le> 1"
  shows "\<exists>e'. async_reach sp e e' \<and> solo_refines s' e'"
  using assms(1)
proof cases
  case solo_drain
  with solo_sim_drain [OF assms(2) _ assms(3-5)] show ?thesis by simp
next
  case solo_park
  with assms(2) have "ex_pc e = Parking \<or> ex_pc e = Parked \<and> ex_token e" by (auto simp: solo_refines_def)
  then have "async_step sp True e (ex_park e)" by (rule exec_step.exec_park)
  moreover have "solo_refines s' (ex_park e)"
    using assms(2) solo_park by (auto simp: solo_refines_def solo_park_def ex_park_def)
  ultimately show ?thesis by blast
next
  case solo_spurious
  with assms(2) have "async_step sp True e (e\<lparr>ex_pc := Draining\<rparr>)"
    by (intro exec_step.exec_spurious) (auto simp: solo_refines_def)
  moreover have "solo_refines s' (e\<lparr>ex_pc := Draining\<rparr>)"
    using assms(2) solo_spurious by (auto simp: solo_refines_def)
  ultimately show ?thesis by blast
next
  case (solo_other t f ws)
  then obtain ts where ts: "others True (snd (future s)) (snd f, ts)" "fst f = fst (future s)"
    "ws = replicate (length ts) ()" by (auto simp: solo_others_def)
  have w: "ex_world e = snd (future s)" "length (ex_futures e) = 1"
    using assms(2) by (auto simp: solo_refines_def split: solo_pc.splits)
  from assms(3) have "fits (snd (future s)) (task_at e) (wake_count e)" by (simp add: tasks_ok_def w)
  from targets_zero [OF this ts(1) w(2)] have z: "ts = replicate (length ts) 0" .
  let ?e = "ex_push ts (e\<lparr>ex_world := snd f, ex_owed := ex_owed e + length ts\<rparr>)"
  have "async_step sp True e ?e"
    using ts(1) w others_targets [OF \<open>fits _ _ _\<close> ts(1)] by (intro exec_step.exec_other) simp_all
  moreover have "ex_queue ?e = replicate (length (solo_queue s) + length ts) 0"
    using assms(2) z by (simp add: solo_refines_def ex_push_def) (metis replicate_add)
  then have "solo_refines s' ?e"
    using assms(2) solo_other ts
    by (simp add: solo_refines_def ex_push_def solo_push_def split: solo_pc.splits)
  ultimately show ?thesis by blast
next
  case (solo_owed n)
  with assms(2) have "async_step sp True e (ex_unpark (e\<lparr>ex_owed := n\<rparr>))"
    by (intro exec_step.exec_owed) (simp add: solo_refines_def)
  moreover have "solo_refines s' (ex_unpark (e\<lparr>ex_owed := n\<rparr>))"
    using assms(2) solo_owed by (simp add: solo_refines_def ex_unpark_def solo_unpark_def split: solo_pc.splits)
  ultimately show ?thesis by blast
qed

lemma solo_async_refined:
  assumes "well_owned b" "uses spawning b = 0" "solo_async sp b s"
  shows "\<exists>e. async_reach sp (async_start b) e \<and> solo_refines s e"
  using assms(3)
proof (induction rule: rtranclp_induct)
  case base
  have "solo_refines (solo_init ((Running, b), world_init)) (async_start b)"
    using assms(2) by (simp add: solo_refines_def solo_init_def ex_init_def)
  then show ?case by blast
next
  case (step s s')
  then obtain e where e: "async_reach sp (async_start b) e" "solo_refines s e" by blast
  from solo_sim [OF step.hyps(2) e(2) tasks_reach [OF e(1) assms(1)] exec_reach_ok [OF e(1)]]
    owners_reach [OF e(1) assms(1)] obtain e' where "async_reach sp e e'" "solo_refines s' e'" by blast
  with e(1) show ?case by (meson rtranclp_trans)
qed


section \<open>The programs of exercise 2.1\<close>

definition ex2_1_run :: "string stmt list list" where
  "ex2_1_run =
     [[],
      [AwaitYield],
      [AwaitDelay (millis 200)],
      [SendLater 0 (millis 100) ''hello from the other side'', AwaitRecv 0]]"

definition ready_immediately :: "string stmt list" where
  "ready_immediately = []"

definition yield_once :: "string stmt list" where
  "yield_once = [AwaitYield]"

definition wake_from_another_thread :: "string stmt list" where
  "wake_from_another_thread = [AwaitDelay (millis 50)]"

definition oneshot_from_thread :: "string stmt list" where
  "oneshot_from_thread = [SendLater 0 0 ''42'', AwaitRecv 0]"

definition multiple_yields :: "string stmt list" where
  "multiple_yields = replicate 5 AwaitYield"

definition ex2_1_programs :: "string stmt list list" where
  "ex2_1_programs =
     ex2_1_run @
     [ready_immediately, yield_once, wake_from_another_thread, oneshot_from_thread, multiple_yields]"

lemma ex2_1_programs_owned:
  assumes "b \<in> set ex2_1_programs"
  shows "well_owned b" "uses spawning b = 0"
  using assms
  by (auto simp: ex2_1_programs_def ex2_1_run_def ready_immediately_def yield_once_def
      wake_from_another_thread_def oneshot_from_thread_def multiple_yields_def well_owned_def spawning_def
      numeral_eq_Suc)

text \<open>
  C24: on blocks that do not spawn, the executor of exercise 2.1 is refined by that of exercise
  2.2: every state \<open>block_on\<close> of 2.1 can reach, whatever the clock, the timers, the threads and
  spurious wake-ups do, stands for a state that \<open>block_on\<close> of 2.2 reaches on the same block, with
  the same queue, park token, pending unparks and world.
\<close>

theorem solo_block_on_refined:
  assumes "well_owned b" "uses spawning b = 0" "solo_async sp b s"
  shows "\<exists>e. async_reach sp (async_start b) e \<and> solo_refines s e"
  using assms by (rule solo_async_refined)

theorem solo_block_on_refined_witness:
  "\<exists>s e. solo_step False solo_block solo_others (solo_init ((Running, oneshot_from_thread), world_init)) s \<and>
     async_reach False (async_start oneshot_from_thread) e \<and> solo_refines s e"
proof -
  let ?a = "solo_init ((Running, oneshot_from_thread), world_init)"
  have st: "solo_step False solo_block solo_others ?a (solo_poll solo_block ?a)"
    by (rule solo_step.solo_drain) (simp add: solo_init_def)
  then have r: "solo_async False oneshot_from_thread (solo_poll solo_block ?a)" by (rule r_into_rtranclp)
  have "oneshot_from_thread \<in> set ex2_1_programs" by (simp add: ex2_1_programs_def)
  from solo_block_on_refined [OF ex2_1_programs_owned [OF this] r] st show ?thesis by blast
qed

text \<open>
  When the executor of exercise 2.1 is parked for good, nothing is queued, and its block waits for
  a timer that runs or a message that is still to come, which has its waker.
\<close>

lemma solo_rest:
  assumes "well_owned b" "uses spawning b = 0" "solo_async sp b s"
    and "solo_pc s = solo_pc.Parked" "\<not> token s" "unparks s = 0"
  shows "solo_queue s = [] \<and> parked_on (snd (future s)) 0 (fst (fst (future s)))"
proof -
  from solo_async_refined [OF assms(1-3)] obtain e where e: "async_reach sp (async_start b) e" "solo_refines s e"
    by blast
  note ok = exec_reach_ok [OF e(1)] tasks_reach [OF e(1) assms(1)]
  from e(2) assms(4-6) have p: "ex_pc e = Parked" "\<not> ex_token e" "ex_owed e = 0"
    "ex_queue e = replicate (length (solo_queue s)) 0" "ex_world e = snd (future s)"
    "ex_futures e = [Some (fst (future s))]" by (simp_all add: solo_refines_def)
  with ok(1) have q: "solo_queue s = []" by (auto simp: exec_ok_def)
  from ok(2) have f: "fits (ex_world e) (task_at e) (wake_count e)" by (simp add: tasks_ok_def)
  have t: "task_at e 0 = Some (fst (fst (future s)), snd (fst (future s)))" "wake_count e 0 = 0"
    using p q by (simp_all add: task_at_def wake_count_def pending_def)
  from fitsD(2) [OF f t(1)] t(2) p(5) q show ?thesis by simp
qed

end
