(* ===== verification/Ex1_Tests.thy ===== *)
theory Ex1_Tests
  imports Futures
begin

text \<open>
  The demonstrations and tests of \<open>src/workshop/src/ex1_1.rs\<close>, \<open>ex1_2.rs\<close> and \<open>ex1_3.rs\<close> with the
  futures of the solutions: what they assert on the value, the number of polls and the time, in
  every run of the executor without spurious wake-ups. A future is built at one instant and handed
  to the executor at a later one, which the assertions on time do not allow for.
\<close>

section \<open>YieldNow\<close>

definition test_yield_now :: "instant \<Rightarrow> (YieldNow, unit) runner" where
  "test_yield_now t = run_init t yield_now"

lemma yield_now_polls:
  assumes "run_reach False poll_yield_now yield_ext (test_yield_now t) s"
  shows "case mode s of Returned out st \<Rightarrow> stat_polls st = 2
    | _ \<Rightarrow> poll_count s = (if yielded (fut s) then 1 else 0)"
  using assms
proof (rule reach_invariant)
  show "case mode (test_yield_now t) of Returned out st \<Rightarrow> stat_polls st = 2
    | _ \<Rightarrow> poll_count (test_yield_now t) = (if yielded (fut (test_yield_now t)) then 1 else 0)"
    by (simp add: test_yield_now_def run_init_def yield_now_def)
next
  fix a b :: "(YieldNow, unit) runner"
  assume "run_step False poll_yield_now yield_ext a b"
    "case mode a of Returned out st \<Rightarrow> stat_polls st = 2
     | _ \<Rightarrow> poll_count a = (if yielded (fut a) then 1 else 0)"
  then show "case mode b of Returned out st \<Rightarrow> stat_polls st = 2
    | _ \<Rightarrow> poll_count b = (if yielded (fut b) then 1 else 0)"
    by (cases rule: run_step.cases)
      (auto simp: run_poll_def wait_enter_def wait_exit_def notify_all_def signal_notify_def Let_def
        poll_yield_now_def yield_ext_def split: run_mode.splits)
qed

text \<open>The assertion: exactly two polls.\<close>

lemma yield_now_polled_twice:
  assumes "run_reach False poll_yield_now yield_ext (test_yield_now t) s" "mode s = Returned out st"
  shows "stat_polls st = 2"
  using yield_now_polls [OF assms(1)] assms(2) by simp

section \<open>Delay\<close>

text \<open>The delay is built at \<open>t0\<close>; the executor takes its start time at \<open>t\<close>.\<close>

definition delay_test :: "instant \<Rightarrow> instant \<Rightarrow> (unit Delay, unit) runner" where
  "delay_test t0 t = run_init t (delay_new t0 (100 * 10 ^ 6))"

definition ex1_2_run :: "instant \<Rightarrow> instant \<Rightarrow> (unit Delay, unit) runner" where
  "ex1_2_run t0 t = run_init t (delay_new t0 (200 * 10 ^ 6))"

lemma delay_since_built:
  assumes "run_reach sp poll_delay delay_ext (run_init t (delay_new t0 dur)) s"
  shows "(sleeper (fut s) = Some (t0 + dur) \<or> t0 + dur \<le> now s) \<and> (complete (dstate (fut s)) \<longrightarrow> t0 + dur \<le> now s) \<and>
    start s = t \<and> (\<forall>out st. mode s = Returned out st \<longrightarrow> t0 + dur \<le> t + stat_time st)"
  using assms
proof (rule reach_invariant)
  fix a b :: "(unit Delay, unit) runner"
  assume st: "run_step sp poll_delay delay_ext a b" and
    "(sleeper (fut a) = Some (t0 + dur) \<or> t0 + dur \<le> now a) \<and> (complete (dstate (fut a)) \<longrightarrow> t0 + dur \<le> now a) \<and>
    start a = t \<and> (\<forall>out st. mode a = Returned out st \<longrightarrow> t0 + dur \<le> t + stat_time st)"
  then show "(sleeper (fut b) = Some (t0 + dur) \<or> t0 + dur \<le> now b) \<and> (complete (dstate (fut b)) \<longrightarrow> t0 + dur \<le> now b) \<and>
    start b = t \<and> (\<forall>out st. mode b = Returned out st \<longrightarrow> t0 + dur \<le> t + stat_time st)"
    by (cases rule: run_step.cases)
      (auto simp: run_poll_def wait_enter_def wait_exit_def notify_all_def signal_notify_def Let_def
        poll_delay_def delay_ext_def delay_thread_def split: prod.splits poll.splits option.splits
        if_splits run_mode.splits)
qed (simp add: run_init_def delay_new_def)

text \<open>
  What the test can rely on: one or two polls, and the time since the delay was built, of which
  the time measured is only the part after the start of the executor.
\<close>

lemma delay_test_bounds:
  assumes "run_reach False poll_delay delay_ext (delay_test t0 t) s" "mode s = Returned out st"
  shows "stat_polls st \<in> {1, 2} \<and> t0 + 100 * 10 ^ 6 \<le> t + stat_time st"
  using delay_solo.run_reach_ok [OF assms(1) [unfolded delay_test_def] disjI1 [OF delay_new_fresh]]
    delay_since_built [OF assms(1) [unfolded delay_test_def]] assms(2)
  by (simp add: run_ok_def)

text \<open>
  The assertions of the test, exactly two polls and at least 100 milliseconds, can fail: the
  timer fires before the first poll when the thread of the test is held up for as long, and
  what passes between building the delay and starting the executor is not measured.
\<close>

lemma delay_test_can_fail:
  "\<exists>s st. run_reach False poll_delay delay_ext (delay_test 0 (100 * 10 ^ 6)) s \<and> mode s = Returned () st \<and>
     stat_polls st = 1 \<and> stat_time st = 0"
proof -
  let ?i = "delay_test 0 (100 * 10 ^ 6)"
  let ?f = "notify_all [] (?i\<lparr>fut := fst (delay_thread (fut ?i))\<rparr>)"
  note ev = delay_test_def run_init_def delay_new_def delay_ext_def delay_thread_def notify_all_def
    run_poll_def poll_delay_def
  have "run_step False poll_delay delay_ext ?i ?f"
    by (rule run_step.run_other) (simp add: ev)
  moreover have "run_step False poll_delay delay_ext ?f (run_poll poll_delay ?f)"
    by (rule run_step.run_poll) (simp add: ev)
  ultimately have "run_reach False poll_delay delay_ext ?i (run_poll poll_delay ?f)" by simp
  moreover have "mode (run_poll poll_delay ?f) = Returned () \<lparr>stat_polls = 1, stat_time = 0\<rparr>" by (simp add: ev)
  ultimately show ?thesis by (metis stats.select_convs)
qed

section \<open>The oneshot channel\<close>

text \<open>The sending thread of the tests sleeps before it sends; the executor polls the receiver.\<close>

type_synonym 't timed_channel = "('t, unit) channel \<times> instant option"

definition poll_timed :: "unit \<Rightarrow> 't timed_channel \<Rightarrow> 't poll \<times> 't timed_channel \<times> unit list" where
  "poll_timed cx self =
     (case poll_receiver cx (fst self) of (r, ch, ws) \<Rightarrow> (r, (ch, snd self), ws))"

definition timed_ext :: "'t \<Rightarrow> instant \<Rightarrow> 't timed_channel \<Rightarrow> 't timed_channel \<times> unit list \<Rightarrow> bool" where
  "timed_ext val clk self r \<longleftrightarrow>
     (case snd self of
        Some t \<Rightarrow> t \<le> clk \<and> (case oneshot_send val (fst self) of (ch, ws) \<Rightarrow> r = ((ch, None), ws))
      | None \<Rightarrow> False)"

definition timed_phase :: "'t option \<Rightarrow> unit option \<Rightarrow> 't timed_channel \<Rightarrow> bool" where
  "timed_phase v w self \<longleftrightarrow> inner (fst self) = \<lparr>slot = v, rx_waker = w\<rparr> \<and> (v \<noteq> None \<longleftrightarrow> snd self = None)"

interpretation timed_oneshot: solo_future poll_timed "timed_ext val" "timed_phase None None"
    "\<lambda>w. timed_phase None (Some w)" "timed_phase (Some val) None" for val
  by unfold_locales
    (auto simp: poll_timed_def timed_ext_def timed_phase_def poll_receiver_def oneshot_send_def split: option.splits)

definition oneshot_thread_test :: "instant \<Rightarrow> instant \<Rightarrow> (string timed_channel, string) runner" where
  "oneshot_thread_test t0 t = run_init t (oneshot, Some (t0 + 100 * 10 ^ 6))"

definition ex1_3_run :: "instant \<Rightarrow> instant \<Rightarrow> (string timed_channel, string) runner" where
  "ex1_3_run t0 t = run_init t (oneshot, Some (t0 + 200 * 10 ^ 6))"

definition oneshot_already_sent :: "instant \<Rightarrow> ((nat, unit) channel, nat) runner" where
  "oneshot_already_sent t = run_init t (fst (oneshot_send 42 oneshot))"

lemma timed_since_built:
  assumes "run_reach sp poll_timed (timed_ext val) (run_init t (oneshot, Some t1)) s"
  shows "slot (inner (fst (fut s))) \<in> {None, Some val} \<and> (snd (fut s) = Some t1 \<or> t1 \<le> now s) \<and>
    (slot (inner (fst (fut s))) \<noteq> None \<longrightarrow> t1 \<le> now s) \<and> start s = t \<and>
    (\<forall>out st. mode s = Returned out st \<longrightarrow> out = val \<and> t1 \<le> t + stat_time st)"
  using assms
proof (rule reach_invariant)
  fix a b :: "('a timed_channel, 'a) runner"
  assume "run_step sp poll_timed (timed_ext val) a b" and
    "slot (inner (fst (fut a))) \<in> {None, Some val} \<and> (snd (fut a) = Some t1 \<or> t1 \<le> now a) \<and>
    (slot (inner (fst (fut a))) \<noteq> None \<longrightarrow> t1 \<le> now a) \<and> start a = t \<and>
    (\<forall>out st. mode a = Returned out st \<longrightarrow> out = val \<and> t1 \<le> t + stat_time st)"
  then show "slot (inner (fst (fut b))) \<in> {None, Some val} \<and> (snd (fut b) = Some t1 \<or> t1 \<le> now b) \<and>
    (slot (inner (fst (fut b))) \<noteq> None \<longrightarrow> t1 \<le> now b) \<and> start b = t \<and>
    (\<forall>out st. mode b = Returned out st \<longrightarrow> out = val \<and> t1 \<le> t + stat_time st)"
    by (cases rule: run_step.cases)
      (auto simp: run_poll_def wait_enter_def wait_exit_def notify_all_def signal_notify_def Let_def
        poll_timed_def poll_receiver_def timed_ext_def oneshot_send_def
        split: prod.splits poll.splits option.splits if_splits run_mode.splits)
qed (simp add: run_init_def oneshot_def)

lemma oneshot_thread_test_bounds:
  assumes "run_reach False poll_timed (timed_ext ''hello from the other side'') (oneshot_thread_test t0 t) s"
    "mode s = Returned out st"
  shows "out = ''hello from the other side'' \<and> stat_polls st \<in> {1, 2} \<and> t0 + 100 * 10 ^ 6 \<le> t + stat_time st"
proof -
  have "timed_phase None None (oneshot, Some (t0 + 100 * 10 ^ 6))" by (simp add: timed_phase_def oneshot_def)
  from timed_oneshot.run_reach_ok [OF assms(1) [unfolded oneshot_thread_test_def] disjI1 [OF this]]
    timed_since_built [OF assms(1) [unfolded oneshot_thread_test_def]] assms(2)
  show ?thesis by (simp add: run_ok_def)
qed

text \<open>A value sent before the executor starts is received by the first poll, in every run.\<close>

lemma oneshot_already_sent_once:
  assumes "run_reach sp poll_receiver (oneshot_ext 42) (oneshot_already_sent t) s" "mode s = Returned out st"
  shows "out = 42 \<and> stat_polls st = 1"
proof -
  have "case mode s of Polling \<Rightarrow> poll_count s = 0 \<and> slot (inner (fut s)) = Some 42 \<and> \<not> sender (fut s)
    | Returned out st \<Rightarrow> out = 42 \<and> stat_polls st = 1 | _ \<Rightarrow> False"
    using assms(1)
  proof (rule reach_invariant)
    fix a b :: "((nat, unit) channel, nat) runner"
    assume "run_step sp poll_receiver (oneshot_ext 42) a b"
      "case mode a of Polling \<Rightarrow> poll_count a = 0 \<and> slot (inner (fut a)) = Some 42 \<and> \<not> sender (fut a)
       | Returned out st \<Rightarrow> out = 42 \<and> stat_polls st = 1 | _ \<Rightarrow> False"
    then show "case mode b of Polling \<Rightarrow> poll_count b = 0 \<and> slot (inner (fut b)) = Some 42 \<and> \<not> sender (fut b)
       | Returned out st \<Rightarrow> out = 42 \<and> stat_polls st = 1 | _ \<Rightarrow> False"
      by (cases rule: run_step.cases)
        (auto simp: run_poll_def notify_all_def signal_notify_def poll_receiver_def oneshot_ext_def
          split: run_mode.splits)
  qed (simp add: oneshot_already_sent_def run_init_def oneshot_send_def)
  with assms(2) show ?thesis by simp
qed

end
