(* ===== verification/Reactor.thy ===== *)
theory Reactor
  imports Futures
begin

text \<open>
  \<open>src/workshop/src/solutions/ex3.rs\<close>, first part: the reactor (tokens and wakers), the
  non-blocking stream operations that store a waker when they would block, and the task \<open>echo\<close>.

  The operating system's side of a socket is a record: the chunks that have arrived, the room for
  outgoing bytes, and whether the last read or write was answered with \<open>WouldBlock\<close>, after which
  mio promises an event once the operation can go on.
\<close>

section \<open>The reactor\<close>

type_synonym token = usize

definition NOTIFY_TOKEN :: token where
  "NOTIFY_TOKEN = - 1"

record 'w reactor =
  io_wakers :: "token \<rightharpoonup> 'w"
  next_token :: usize

definition reactor_new :: "'w reactor" where
  "reactor_new = \<lparr>io_wakers = Map.empty, next_token = 0\<rparr>"

text \<open>\<open>registered\<close> is the answer of mio's registry; an error is unwrapped.\<close>

definition register :: "env \<Rightarrow> bool \<Rightarrow> 'w reactor \<Rightarrow> (token \<times> 'w reactor, unit) res" where
  "register E registered self =
     (let token = next_token self in
      and_then (add_usize E (next_token self) 1) (\<lambda>n.
        if registered then Ok (token, self\<lparr>next_token := n\<rparr>) else Panic ExpectNone))"

definition set_waker :: "token \<Rightarrow> 'w \<Rightarrow> 'w reactor \<Rightarrow> 'w reactor" where
  "set_waker token w self = self\<lparr>io_wakers := (io_wakers self)(token \<mapsto> w)\<rparr>"

text \<open>The loop over the events of \<open>turn\<close>, and the wakers it calls.\<close>

fun turn :: "token list \<Rightarrow> 'w reactor \<Rightarrow> 'w reactor \<times> 'w list" where
  "turn [] self = (self, [])"
| "turn (event # events) self =
     (if event = NOTIFY_TOKEN then turn events self
      else case io_wakers self event of
        None \<Rightarrow> turn events self
      | Some w \<Rightarrow>
          (case turn events (self\<lparr>io_wakers := (io_wakers self)(event := None)\<rparr>) of
             (r, ws) \<Rightarrow> (r, w # ws)))"

text \<open>Registering several sources one after the other.\<close>

fun register_all :: "env \<Rightarrow> nat \<Rightarrow> 'w reactor \<Rightarrow> (token list \<times> 'w reactor, unit) res" where
  "register_all E 0 r = Ok ([], r)"
| "register_all E (Suc n) r =
     and_then (register E True r) (\<lambda>(t, r).
     and_then (register_all E n r) (\<lambda>(ts, r). Ok (t # ts, r)))"

lemma register_fits:
  assumes "unat (next_token r) < 2 ^ 64 - 1"
  shows "register E True r = Ok (next_token r, r\<lparr>next_token := next_token r + 1\<rparr>)"
  using assms by (simp add: register_def add_usize_def)

lemma NOTIFY_TOKEN_unat: "unat NOTIFY_TOKEN = 2 ^ 64 - 1"
  by (simp add: NOTIFY_TOKEN_def unsigned_minus_1_eq_mask mask_eq_exp_minus_1)

lemma token_not_notify: "k < 2 ^ 64 - 1 \<Longrightarrow> (of_nat k :: token) \<noteq> NOTIFY_TOKEN"
proof
  assume k: "k < 2 ^ 64 - 1" and "(of_nat k :: token) = NOTIFY_TOKEN"
  then have "unat (of_nat k :: token) = 2 ^ 64 - 1" by (simp only: NOTIFY_TOKEN_unat)
  with k unat_of_nat_u64 [of k] show False by simp
qed

lemma token_inj: "i < 2 ^ 64 \<Longrightarrow> j < 2 ^ 64 \<Longrightarrow> (of_nat i :: token) = of_nat j \<longleftrightarrow> i = j"
  by (metis unat_of_nat_u64)

lemma register_all_tokens:
  assumes "unat (next_token r) + n \<le> 2 ^ 64 - 1"
  shows "register_all E n r =
    Ok (map (\<lambda>i. next_token r + of_nat i) [0..<n], r\<lparr>next_token := next_token r + of_nat n\<rparr>)"
  using assms
proof (induction n arbitrary: r)
  case (Suc n)
  then have f: "unat (next_token r) < 2 ^ 64 - 1" by simp
  then have "unat (next_token r + 1) = unat (next_token r) + 1"
    by (simp add: unat_add_usize_fits)
  with Suc.prems have "unat (next_token (r\<lparr>next_token := next_token r + 1\<rparr>)) + n \<le> 2 ^ 64 - 1" by simp
  from Suc.IH [OF this] show ?case
    by (simp add: register_fits [OF f] upt_rec [of 0 "Suc n"] map_Suc_upt [symmetric] comp_def ac_simps
        del: upt_Suc map_Suc_upt)
qed simp

text \<open>
  Tokens are unique. The first \<open>n\<close> sources registered with a new reactor get the tokens 0 to
  \<open>n - 1\<close>, all different and none of them the reserved \<open>NOTIFY_TOKEN\<close>, for every \<open>n\<close> below
  \<open>2 ^ 64\<close> and without an overflow of the counter.
\<close>

theorem tokens_unique:
  assumes "n < 2 ^ 64"
  shows "\<exists>ts r. register_all E n reactor_new = Ok (ts, r) \<and> length ts = n \<and> distinct ts \<and>
    NOTIFY_TOKEN \<notin> set ts \<and> map unat ts = [0..<n]"
proof -
  have r: "register_all E n reactor_new =
      Ok (map of_nat [0..<n], reactor_new\<lparr>next_token := of_nat n\<rparr>)"
    using register_all_tokens [of reactor_new n E] assms by (simp add: reactor_new_def)
  have u: "map unat (map (of_nat :: nat \<Rightarrow> token) [0..<n]) = [0..<n]"
    using assms unat_of_nat_u64 by (intro nth_equalityI) simp_all
  then have "distinct (map (of_nat :: nat \<Rightarrow> token) [0..<n])" by (metis distinct_map distinct_upt)
  moreover have "NOTIFY_TOKEN \<notin> set (map (of_nat :: nat \<Rightarrow> token) [0..<n])"
  proof
    assume "NOTIFY_TOKEN \<in> set (map (of_nat :: nat \<Rightarrow> token) [0..<n])"
    then obtain i where "i < n" "NOTIFY_TOKEN = of_nat i" by auto
    with token_not_notify [of i] assms show False by simp
  qed
  ultimately show ?thesis using r u by auto
qed

theorem tokens_unique_witness:
  "\<exists>ts (r :: nat reactor). register_all (ref_env False) 3 reactor_new = Ok (ts, r) \<and> distinct ts \<and>
     map unat ts = [0, 1, 2]"
proof -
  have "[0..<3] = [0, 1, 2::nat]" by (simp add: upt_rec)
  with tokens_unique [of 3 "ref_env False", where ?'a = nat] show ?thesis by auto
qed

section \<open>What a turn does\<close>

lemma turn_spec:
  assumes "turn evs r = (r', ws)" "distinct evs"
  shows "io_wakers r' = (\<lambda>t. if t \<in> set evs \<and> t \<noteq> NOTIFY_TOKEN then None else io_wakers r t)"
    and "next_token r' = next_token r"
    and "ws = List.map_filter (\<lambda>t. if t = NOTIFY_TOKEN then None else io_wakers r t) evs"
proof -
  have "io_wakers r' = (\<lambda>t. if t \<in> set evs \<and> t \<noteq> NOTIFY_TOKEN then None else io_wakers r t) \<and>
    next_token r' = next_token r \<and>
    ws = List.map_filter (\<lambda>t. if t = NOTIFY_TOKEN then None else io_wakers r t) evs"
    using assms
  proof (induction evs arbitrary: r r' ws)
    case (Cons e evs)
    have cong: "List.map_filter f evs = List.map_filter g evs" if "\<And>x. x \<in> set evs \<Longrightarrow> f x = g x" for f g
      using that by (simp add: List.map_filter_def cong: filter_cong map_cong)
    show ?case
    proof (cases "e = NOTIFY_TOKEN \<or> io_wakers r e = None")
      case True
      with Cons show ?thesis by (auto simp: List.map_filter_simps fun_eq_iff)
    next
      case False
      then obtain w where w: "e \<noteq> NOTIFY_TOKEN" "io_wakers r e = Some w" by auto
      let ?r = "r\<lparr>io_wakers := (io_wakers r)(e := None)\<rparr>"
      obtain r1 ws1 where t: "turn evs ?r = (r1, ws1)" by (metis surj_pair)
      with w Cons.prems have "r' = r1" "ws = w # ws1" by simp_all
      with Cons.IH [OF t] Cons.prems w show ?thesis
        by (auto simp: List.map_filter_simps fun_eq_iff intro!: cong)
    qed
  qed (simp add: List.map_filter_simps)
  then show "io_wakers r' = (\<lambda>t. if t \<in> set evs \<and> t \<noteq> NOTIFY_TOKEN then None else io_wakers r t)"
    "next_token r' = next_token r"
    "ws = List.map_filter (\<lambda>t. if t = NOTIFY_TOKEN then None else io_wakers r t) evs" by auto
qed

section \<open>Streams\<close>

text \<open>
  A stream with its token. \<open>arrived\<close> are the chunks not yet read; then the peer is silent, has
  closed, or has reset the connection. \<open>room\<close> is what the socket takes before it blocks, \<open>broken\<close>
  that writes fail. \<open>rblock\<close> and \<open>wblock\<close> record an answer \<open>WouldBlock\<close> since the last event.
  \<open>received\<close> and \<open>written_out\<close> are all bytes that have arrived and all that were written.
\<close>

datatype peer = Silent | PeerClosed | PeerReset

record stream =
  stok :: token
  arrived :: "bytes list"
  peer :: peer
  room :: nat
  broken :: bool
  rblock :: bool
  wblock :: bool
  received :: bytes
  written_out :: bytes

datatype 'a io = IoOk 'a | WouldBlock | IoErr

definition mio_read :: "nat \<Rightarrow> stream \<Rightarrow> bytes io \<times> stream" where
  "mio_read len st =
     (case arrived st of
        c # cs \<Rightarrow> (IoOk (take len c), st\<lparr>arrived := (if length c \<le> len then cs else drop len c # cs)\<rparr>)
      | [] \<Rightarrow> (case peer st of
            Silent \<Rightarrow> (WouldBlock, st\<lparr>rblock := True\<rparr>)
          | PeerClosed \<Rightarrow> (IoOk [], st)
          | PeerReset \<Rightarrow> (IoErr, st)))"

definition mio_write :: "bytes \<Rightarrow> stream \<Rightarrow> nat io \<times> stream" where
  "mio_write bs st =
     (if broken st then (IoErr, st)
      else if room st = 0 then (WouldBlock, st\<lparr>wblock := True\<rparr>)
      else let n = min (room st) (length bs)
           in (IoOk n, st\<lparr>room := room st - n, written_out := written_out st @ take n bs\<rparr>))"

text \<open>One poll of the future in \<open>TcpStream::read\<close>.\<close>

definition poll_read :: "nat \<Rightarrow> 'w \<Rightarrow> stream \<Rightarrow> 'w reactor \<Rightarrow> (bytes, unit) res poll \<times> stream \<times> 'w reactor" where
  "poll_read len w st r =
     (case mio_read len st of
        (IoOk bs, st) \<Rightarrow> (PollReady (Ok bs), st, r)
      | (WouldBlock, st) \<Rightarrow> (PollPending, st, set_waker (stok st) w r)
      | (IoErr, st) \<Rightarrow> (PollReady (Err ()), st, r))"

text \<open>One poll of the future inside the loop of \<open>TcpStream::write_all\<close>.\<close>

definition poll_write :: "bytes \<Rightarrow> 'w \<Rightarrow> stream \<Rightarrow> 'w reactor \<Rightarrow> (nat, unit) res poll \<times> stream \<times> 'w reactor" where
  "poll_write bs w st r =
     (case mio_write bs st of
        (IoOk n, st) \<Rightarrow> (PollReady (Ok n), st, r)
      | (WouldBlock, st) \<Rightarrow> (PollPending, st, set_waker (stok st) w r)
      | (IoErr, st) \<Rightarrow> (PollReady (Err ()), st, r))"

section \<open>The echo task\<close>

text \<open>The points at which \<open>echo\<close> can be suspended, and its two results.\<close>

datatype echo_state = AtRead | AtWrite bytes nat | EchoDone | EchoFailed

fun work :: "echo_state \<Rightarrow> nat" where
  "work (AtWrite bs pos) = Suc (length bs - pos)"
| "work _ = 0"

text \<open>
  One poll of \<open>echo\<close>: it runs until a read or a write blocks, the peer closes or an operation
  fails. The loop of \<open>write_all\<close> is the part from \<open>AtWrite bs 0\<close> on.
\<close>

function poll_echo :: "'w \<Rightarrow> echo_state \<Rightarrow> stream \<Rightarrow> 'w reactor \<Rightarrow> echo_state \<times> stream \<times> 'w reactor" where
  "poll_echo w AtRead st r =
     (case poll_read 1024 w st r of
        (PollPending, st, r) \<Rightarrow> (AtRead, st, r)
      | (PollReady (Ok bs), st, r) \<Rightarrow> if bs = [] then (EchoDone, st, r) else poll_echo w (AtWrite bs 0) st r
      | (PollReady _, st, r) \<Rightarrow> (EchoFailed, st, r))"
| "poll_echo w (AtWrite bs pos) st r =
     (if pos < length bs then
        (case poll_write (drop pos bs) w st r of
           (PollPending, st, r) \<Rightarrow> (AtWrite bs pos, st, r)
         | (PollReady (Ok n), st, r) \<Rightarrow> poll_echo w (AtWrite bs (pos + n)) st r
         | (PollReady _, st, r) \<Rightarrow> (EchoFailed, st, r))
      else poll_echo w AtRead st r)"
| "poll_echo w EchoDone st r = (EchoDone, st, r)"
| "poll_echo w EchoFailed st r = (EchoFailed, st, r)"
  by pat_completeness auto

lemma poll_read_shrinks:
  assumes "poll_read len w st r = (PollReady (Ok bs), st', r')" "bs \<noteq> []"
  shows "concat (arrived st) = bs @ concat (arrived st') \<and> st' = st\<lparr>arrived := arrived st'\<rparr> \<and> r' = r"
  using assms
  by (auto simp: poll_read_def mio_read_def split: list.splits peer.splits if_splits io.splits)

lemma poll_write_takes:
  assumes "poll_write bs w st r = (PollReady (Ok n), st', r')" "bs \<noteq> []"
  shows "0 < n \<and> n \<le> length bs \<and> r' = r \<and>
    st' = st\<lparr>room := room st', written_out := written_out st @ take n bs\<rparr>"
  using assms by (auto simp: poll_write_def mio_write_def Let_def split: if_splits)

lemma poll_read_measure:
  assumes "poll_read len w st r = (PollReady (Ok bs), st', r')" "bs \<noteq> []"
  shows "Suc (3 * length (concat (arrived st')) + length bs) < 3 * length (concat (arrived st))"
  using poll_read_shrinks [OF assms] assms(2) by (cases bs) auto

lemma poll_write_measure:
  assumes "poll_write (drop pos bs) w st r = (PollReady (Ok n), st', r')" "pos < length bs"
  shows "arrived st' = arrived st \<and> 0 < n"
  using assms by (auto simp: poll_write_def mio_write_def Let_def split: if_splits)

termination poll_echo
  by (relation "measure (\<lambda>(w, e, st, r). 3 * length (concat (arrived st)) + work e)")
    (auto dest: poll_read_measure [OF sym] poll_write_measure [OF sym] simp del: length_concat)

declare poll_echo.simps [simp del]

text \<open>What the task has read and not yet written.\<close>

fun in_flight :: "echo_state \<Rightarrow> bytes" where
  "in_flight (AtWrite bs pos) = drop pos bs"
| "in_flight _ = []"

fun suspended :: "echo_state \<Rightarrow> bool" where
  "suspended AtRead = True"
| "suspended (AtWrite bs pos) = True"
| "suspended _ = False"

text \<open>
  The state of a stream between polls: nothing is lost or reordered, and an operation that was
  told to wait still cannot go on.
\<close>

definition stream_ok :: "stream \<Rightarrow> bool" where
  "stream_ok st \<longleftrightarrow>
     (rblock st \<longrightarrow> arrived st = [] \<and> peer st = Silent) \<and> (wblock st \<longrightarrow> room st = 0 \<and> \<not> broken st) \<and>
     [] \<notin> set (arrived st)"

definition echo_ok :: "echo_state \<Rightarrow> stream \<Rightarrow> bool" where
  "echo_ok e st \<longleftrightarrow>
     (if e = EchoFailed then \<exists>lost. received st = written_out st @ lost @ concat (arrived st)
      else received st = written_out st @ in_flight e @ concat (arrived st)) \<and>
     (e = EchoDone \<longrightarrow> arrived st = [] \<and> peer st \<noteq> Silent)"

text \<open>The task is suspended exactly where the last answer was \<open>WouldBlock\<close>.\<close>

definition blocked_at :: "echo_state \<Rightarrow> stream \<Rightarrow> bool" where
  "blocked_at e st \<longleftrightarrow> (case e of AtRead \<Rightarrow> rblock st | AtWrite bs pos \<Rightarrow> pos < length bs \<and> wblock st | _ \<Rightarrow> False)"

lemma mio_read_ok:
  assumes "mio_read len st = (x, st')" "stream_ok st" "0 < len"
  shows "stream_ok st'" "stok st' = stok st" "received st' = received st" "written_out st' = written_out st"
    "x = IoOk bs \<Longrightarrow> concat (arrived st) = bs @ concat (arrived st')"
    "x = IoOk [] \<Longrightarrow> arrived st' = [] \<and> peer st' \<noteq> Silent"
    "x = WouldBlock \<Longrightarrow> rblock st'"
    "x = WouldBlock \<or> x = IoErr \<Longrightarrow> arrived st' = arrived st"
  using assms by (auto simp: mio_read_def stream_ok_def split: list.splits peer.splits if_splits)

lemma mio_write_ok:
  assumes "mio_write bs st = (x, st')" "stream_ok st"
  shows "stream_ok st'" "stok st' = stok st" "received st' = received st" "arrived st' = arrived st"
    "x = IoOk n \<Longrightarrow> written_out st' = written_out st @ take n bs \<and> n \<le> length bs"
    "x = WouldBlock \<Longrightarrow> wblock st'"
    "x = WouldBlock \<or> x = IoErr \<Longrightarrow> written_out st' = written_out st"
  using assms by (auto simp: mio_write_def stream_ok_def Let_def split: if_splits)

lemma poll_echo_spec:
  assumes "poll_echo w e st r = (e', st', r')" "stream_ok st" "echo_ok e st" "suspended e"
  shows "stream_ok st' \<and> echo_ok e' st' \<and> stok st' = stok st \<and> received st' = received st \<and>
    (if suspended e' then blocked_at e' st' \<and> r' = set_waker (stok st) w r else r' = r)"
  using assms
proof (induction w e st r arbitrary: e' st' r' rule: poll_echo.induct)
  case (1 w st r)
  obtain x t where rd: "mio_read 1024 st = (x, t)" by (metis surj_pair)
  note ok = mio_read_ok [OF rd "1.prems"(2) zero_less_numeral]
  show ?case
  proof (cases x)
    case (IoOk bs)
    then have p: "poll_read 1024 w st r = (PollReady (Ok bs), t, r)" by (simp add: poll_read_def rd)
    show ?thesis
    proof (cases "bs = []")
      case True
      with p "1.prems"(1) have e: "e' = EchoDone" "st' = t" "r' = r" by (simp_all add: poll_echo.simps(1))
      with ok "1.prems"(3) IoOk True show ?thesis by (simp add: echo_ok_def)
    next
      case False
      with p "1.prems"(1) have c: "poll_echo w (AtWrite bs 0) t r = (e', st', r')"
        by (simp add: poll_echo.simps(1))
      have "echo_ok (AtWrite bs 0) t" using ok(3-5) "1.prems"(3) IoOk by (simp add: echo_ok_def)
      from "1.IH" [OF p [symmetric] refl refl refl False c ok(1) this] ok(2,3) show ?thesis by simp
    qed
  next
    case WouldBlock
    with "1.prems"(1) rd have "e' = AtRead" "st' = t" "r' = set_waker (stok t) w r"
      by (auto simp: poll_echo.simps(1) poll_read_def)
    with ok "1.prems"(3) WouldBlock show ?thesis by (simp add: echo_ok_def blocked_at_def)
  next
    case IoErr
    with "1.prems"(1) rd have "e' = EchoFailed" "st' = t" "r' = r"
      by (simp_all add: poll_echo.simps(1) poll_read_def)
    with ok "1.prems"(3) IoErr show ?thesis by (simp add: echo_ok_def)
  qed
next
  case (2 w bs pos st r)
  show ?case
  proof (cases "pos < length bs")
    case False
    with "2.prems"(1) have c: "poll_echo w AtRead st r = (e', st', r')" by (simp add: poll_echo.simps(2))
    have "echo_ok AtRead st" using "2.prems"(3) False by (simp add: echo_ok_def)
    from "2.IH"(2) [OF False c "2.prems"(2) this] show ?thesis by simp
  next
    case True
    obtain x t where wr: "mio_write (drop pos bs) st = (x, t)" by (metis surj_pair)
    note ok = mio_write_ok [OF wr "2.prems"(2)]
    show ?thesis
    proof (cases x)
      case (IoOk n)
      then have p: "poll_write (drop pos bs) w st r = (PollReady (Ok n), t, r)" by (simp add: poll_write_def wr)
      with True "2.prems"(1) have c: "poll_echo w (AtWrite bs (pos + n)) t r = (e', st', r')"
        by (simp add: poll_echo.simps(2))
      have "take n (drop pos bs) @ drop (pos + n) bs = drop pos bs"
        by (metis append_take_drop_id drop_drop add.commute)
      then have "echo_ok (AtWrite bs (pos + n)) t"
        using ok "2.prems"(3) IoOk by (simp add: echo_ok_def)
      from "2.IH"(1) [OF True p [symmetric] refl refl refl c ok(1) this] ok(2,3) show ?thesis by simp
    next
      case WouldBlock
      with True "2.prems"(1) wr have "e' = AtWrite bs pos" "st' = t" "r' = set_waker (stok t) w r"
        by (auto simp: poll_echo.simps(2) poll_write_def)
      with ok True "2.prems"(3) WouldBlock show ?thesis by (simp add: echo_ok_def blocked_at_def)
    next
      case IoErr
      with True "2.prems"(1) wr have "e' = EchoFailed" "st' = t" "r' = r"
        by (simp_all add: poll_echo.simps(2) poll_write_def)
      with ok True "2.prems"(3) IoErr show ?thesis by (auto simp: echo_ok_def)
    qed
  qed
qed simp_all

end
