(* ===== verification/Echo_Server.thy ===== *)
theory Echo_Server
  imports Reactor
begin

text \<open>
  \<open>src/workshop/src/solutions/ex3.rs\<close>, second part: \<open>block_on(echo_server(addr))\<close>. Task 0 is the
  accept loop, task \<open>i + 1\<close> echoes on the \<open>i\<close>-th connection. The executor drains its run queue and
  then turns the reactor; between any two of its steps clients connect, send, close, reset and
  make room. An event is promised only after an operation was answered with \<open>WouldBlock\<close>, events
  may also come for no reason, and a turn may return any of the pending ones.
\<close>

section \<open>State and operations\<close>

text \<open>
  What \<open>accept\<close> will answer: a connection (with the answer of mio's registry to its
  registration), or an error.
\<close>

datatype accept_event = Incoming stream bool | AcceptFails

record conn =
  est :: echo_state
  strm :: stream

text \<open>The calls of \<open>unwrap\<close> that can fail, and the poll of a future that has returned.\<close>

datatype crash = BindFailed | AcceptFailed | RegisterFailed | PollFailed | Resumed

datatype srv_pc = SDraining | STurning | SPanicked crash

record echo_sys =
  runq :: "nat list"
  bound :: bool
  ltok :: token
  conns :: "conn list"
  rctr :: "nat reactor"
  events :: "token set"
  backlog :: "accept_event list"
  lblock :: bool
  spc :: srv_pc

definition sys_init :: echo_sys where
  "sys_init = \<lparr>runq = [0], bound = False, ltok = 0, conns = [], rctr = reactor_new, events = {},
     backlog = [], lblock = False, spc = SDraining\<rparr>"

text \<open>\<open>spawn(echo(stream))\<close>: push the task and signal the \<open>mio::Waker\<close>.\<close>

definition spawn_echo :: "stream \<Rightarrow> echo_sys \<Rightarrow> echo_sys" where
  "spawn_echo st s =
     s\<lparr>conns := conns s @ [\<lparr>est = AtRead, strm = st\<rparr>], runq := runq s @ [Suc (length (conns s))],
       events := insert NOTIFY_TOKEN (events s)\<rparr>"

text \<open>The loop of \<open>echo_server\<close> with \<open>TcpListener::accept\<close>, until \<open>accept\<close> would block.\<close>

fun accept_conns :: "env \<Rightarrow> accept_event list \<Rightarrow> echo_sys \<Rightarrow> echo_sys" where
  "accept_conns E [] s =
     s\<lparr>backlog := [], lblock := True, rctr := set_waker (ltok s) 0 (rctr s)\<rparr>"
| "accept_conns E (AcceptFails # b) s = s\<lparr>backlog := b, spc := SPanicked AcceptFailed\<rparr>"
| "accept_conns E (Incoming st registered # b) s =
     (case register E registered (rctr s) of
        Ok (t, r) \<Rightarrow> accept_conns E b (spawn_echo (st\<lparr>stok := t\<rparr>) (s\<lparr>rctr := r\<rparr>))
      | _ \<Rightarrow> s\<lparr>backlog := b, spc := SPanicked RegisterFailed\<rparr>)"

text \<open>One poll of \<open>echo_server\<close>: the first one binds and registers the listener.\<close>

definition poll_server :: "env \<Rightarrow> bool \<Rightarrow> echo_sys \<Rightarrow> echo_sys" where
  "poll_server E bind_ok s =
     (if bound s then accept_conns E (backlog s) s
      else if \<not> bind_ok then s\<lparr>spc := SPanicked BindFailed\<rparr>
      else (case register E True (rctr s) of
              Ok (t, r) \<Rightarrow> accept_conns E (backlog s) (s\<lparr>bound := True, ltok := t, rctr := r\<rparr>)
            | _ \<Rightarrow> s\<lparr>spc := SPanicked RegisterFailed\<rparr>))"

definition poll_conn :: "nat \<Rightarrow> echo_sys \<Rightarrow> echo_sys" where
  "poll_conn i s =
     (let c = conns s ! i in
      if suspended (est c) then
        (case poll_echo (Suc i) (est c) (strm c) (rctr s) of
           (e, st, r) \<Rightarrow> s\<lparr>conns := (conns s)[i := \<lparr>est = e, strm = st\<rparr>], rctr := r\<rparr>)
      else s\<lparr>spc := SPanicked Resumed\<rparr>)"

text \<open>The loop of \<open>block_on\<close>: one task of the queue, or on to the reactor; the main future never ends.\<close>

definition drain_sys :: "env \<Rightarrow> bool \<Rightarrow> echo_sys \<Rightarrow> echo_sys" where
  "drain_sys E bind_ok s =
     (case runq s of
        [] \<Rightarrow> s\<lparr>spc := STurning\<rparr>
      | t # q \<Rightarrow>
          let s = s\<lparr>runq := q\<rparr> in
          (case t of 0 \<Rightarrow> poll_server E bind_ok s | Suc i \<Rightarrow> poll_conn i s))"

text \<open>\<open>turn\<close> with the wakers it calls: each pushes its task and signals the \<open>mio::Waker\<close>.\<close>

definition turn_sys :: "token list \<Rightarrow> echo_sys \<Rightarrow> echo_sys" where
  "turn_sys evs s =
     (case turn evs (rctr s) of
        (r, ws) \<Rightarrow> s\<lparr>rctr := r, runq := runq s @ ws,
          events := (events s - set evs) \<union> (if ws = [] then {} else {NOTIFY_TOKEN}), spc := SDraining\<rparr>)"

text \<open>What the outside does to the listener and to a stream, with the events mio promises for it.\<close>

definition arrive :: "accept_event list \<Rightarrow> echo_sys \<Rightarrow> echo_sys" where
  "arrive evs s =
     s\<lparr>backlog := backlog s @ evs, lblock := False,
       events := (if lblock s then insert (ltok s) (events s) else events s)\<rparr>"

definition fresh_stream :: "stream \<Rightarrow> bool" where
  "fresh_stream st \<longleftrightarrow>
     \<not> rblock st \<and> \<not> wblock st \<and> written_out st = [] \<and> received st = concat (arrived st) \<and> [] \<notin> set (arrived st)"

definition on_stream :: "nat \<Rightarrow> (stream \<Rightarrow> stream) \<Rightarrow> bool \<Rightarrow> echo_sys \<Rightarrow> echo_sys" where
  "on_stream i f wake s =
     s\<lparr>conns := (conns s)[i := (conns s ! i)\<lparr>strm := f (strm (conns s ! i))\<rparr>],
       events := (if wake then insert (stok (strm (conns s ! i))) (events s) else events s)\<rparr>"

definition recv_bytes :: "bytes \<Rightarrow> stream \<Rightarrow> stream" where
  "recv_bytes bs st = st\<lparr>arrived := arrived st @ [bs], received := received st @ bs, rblock := False\<rparr>"

definition recv_end :: "peer \<Rightarrow> stream \<Rightarrow> stream" where
  "recv_end p st = st\<lparr>peer := p, rblock := False\<rparr>"

definition grow_room :: "nat \<Rightarrow> bool \<Rightarrow> stream \<Rightarrow> stream" where
  "grow_room n b st = st\<lparr>room := room st + n, broken := broken st \<or> b, wblock := False\<rparr>"

inductive sys_step :: "env \<Rightarrow> echo_sys \<Rightarrow> echo_sys \<Rightarrow> bool" for E where
  sys_drain: "spc s = SDraining \<Longrightarrow> sys_step E s (drain_sys E bind_ok s)"
| sys_turn: "spc s = STurning \<Longrightarrow> evs \<noteq> [] \<Longrightarrow> distinct evs \<Longrightarrow> length evs \<le> 64 \<Longrightarrow>
    set evs \<subseteq> events s \<Longrightarrow> sys_step E s (turn_sys evs s)"
| sys_poll_fails: "spc s = STurning \<Longrightarrow> sys_step E s (s\<lparr>spc := SPanicked PollFailed\<rparr>)"
| sys_connect: "bound s \<Longrightarrow> fresh_stream st \<Longrightarrow> sys_step E s (arrive [Incoming st registered] s)"
| sys_accept_fails: "bound s \<Longrightarrow> sys_step E s (arrive [AcceptFails] s)"
| sys_data: "i < length (conns s) \<Longrightarrow> bs \<noteq> [] \<Longrightarrow> peer (strm (conns s ! i)) = Silent \<Longrightarrow>
    sys_step E s (on_stream i (recv_bytes bs) (rblock (strm (conns s ! i))) s)"
| sys_end: "i < length (conns s) \<Longrightarrow> p \<noteq> Silent \<Longrightarrow>
    sys_step E s (on_stream i (recv_end p) (rblock (strm (conns s ! i))) s)"
| sys_room: "i < length (conns s) \<Longrightarrow>
    sys_step E s (on_stream i (grow_room n b) (wblock (strm (conns s ! i))) s)"
| sys_spurious: "sys_step E s (s\<lparr>events := insert t (events s)\<rparr>)"

abbreviation sys_reach where
  "sys_reach E \<equiv> (sys_step E)\<^sup>*\<^sup>*"

section \<open>The bytes\<close>

definition streams_ok :: "echo_sys \<Rightarrow> bool" where
  "streams_ok s \<longleftrightarrow> (\<forall>c \<in> set (conns s). stream_ok (strm c) \<and> echo_ok (est c) (strm c))"

definition fresh_backlog :: "accept_event list \<Rightarrow> bool" where
  "fresh_backlog b \<longleftrightarrow> (\<forall>st registered. Incoming st registered \<in> set b \<longrightarrow> fresh_stream st)"

lemma fresh_stream_ok: "fresh_stream st \<Longrightarrow> stream_ok (st\<lparr>stok := t\<rparr>) \<and> echo_ok AtRead (st\<lparr>stok := t\<rparr>)"
  by (simp add: fresh_stream_def stream_ok_def echo_ok_def)

lemma accept_conns_streams:
  assumes "streams_ok s" "fresh_backlog b"
  shows "streams_ok (accept_conns E b s) \<and> fresh_backlog (backlog (accept_conns E b s)) \<and>
    (\<exists>new. conns (accept_conns E b s) = conns s @ new)"
  using assms
proof (induction E b s rule: accept_conns.induct)
  case (3 E st registered b s)
  have b: "fresh_backlog b" "fresh_stream st" using "3.prems"(2) by (auto simp: fresh_backlog_def)
  show ?case
  proof (cases "register E registered (rctr s)")
    case (Ok tr)
    obtain t r where tr: "tr = (t, r)" by (metis surj_pair)
    let ?s = "spawn_echo (st\<lparr>stok := t\<rparr>) (s\<lparr>rctr := r\<rparr>)"
    have "streams_ok ?s" using "3.prems"(1) fresh_stream_ok [OF b(2)] by (auto simp: streams_ok_def spawn_echo_def)
    from "3.IH" [OF Ok tr [symmetric] this b(1)] Ok tr show ?thesis by (auto simp: spawn_echo_def)
  qed (use "3.prems"(1) b in \<open>auto simp: streams_ok_def\<close>)
qed (auto simp: streams_ok_def fresh_backlog_def)

lemma poll_server_streams:
  assumes "streams_ok s" "fresh_backlog (backlog s)"
  shows "streams_ok (poll_server E b s) \<and> fresh_backlog (backlog (poll_server E b s)) \<and>
    (\<exists>new. conns (poll_server E b s) = conns s @ new)"
proof (cases "bound s \<or> \<not> b")
  case True
  with assms accept_conns_streams [OF assms] show ?thesis by (auto simp: poll_server_def streams_ok_def)
next
  case False
  show ?thesis
  proof (cases "register E True (rctr s)")
    case (Ok tr)
    obtain t r where tr: "tr = (t, r)" by (metis surj_pair)
    have "streams_ok (s\<lparr>bound := True, ltok := t, rctr := r\<rparr>)" using assms(1) by (simp add: streams_ok_def)
    from accept_conns_streams [OF this assms(2)] Ok tr False show ?thesis by (simp add: poll_server_def)
  qed (use assms False in \<open>auto simp: poll_server_def streams_ok_def\<close>)
qed

lemma poll_conn_streams:
  assumes "streams_ok s" "i < length (conns s)"
  shows "streams_ok (poll_conn i s) \<and> backlog (poll_conn i s) = backlog s \<and>
    length (conns (poll_conn i s)) = length (conns s)"
proof (cases "suspended (est (conns s ! i))")
  case True
  obtain e st r where p: "poll_echo (Suc i) (est (conns s ! i)) (strm (conns s ! i)) (rctr s) = (e, st, r)"
    by (metis surj_pair)
  have "stream_ok (strm (conns s ! i))" "echo_ok (est (conns s ! i)) (strm (conns s ! i))"
    using assms by (auto simp: streams_ok_def)
  from poll_echo_spec [OF p this True] p True assms show ?thesis
    by (auto simp: poll_conn_def streams_ok_def dest!: set_update_subset_insert [THEN subsetD])
qed (use assms in \<open>simp add: poll_conn_def streams_ok_def\<close>)

lemma on_stream_streams:
  assumes "streams_ok s" "i < length (conns s)"
    and "\<And>e st. stream_ok st \<Longrightarrow> echo_ok e st \<Longrightarrow> st = strm (conns s ! i) \<Longrightarrow> e = est (conns s ! i) \<Longrightarrow>
      stream_ok (f st) \<and> echo_ok e (f st)"
  shows "streams_ok (on_stream i f w s)"
  using assms by (auto simp: streams_ok_def on_stream_def dest!: set_update_subset_insert [THEN subsetD])

lemma sys_step_streams:
  assumes "sys_step E s s'" "streams_ok s" "fresh_backlog (backlog s)"
    and "\<forall>t \<in> set (runq s). t \<le> length (conns s)"
  shows "streams_ok s' \<and> fresh_backlog (backlog s') \<and> length (conns s) \<le> length (conns s')"
  using assms(1)
proof cases
  case (sys_drain b)
  show ?thesis
  proof (cases "runq s")
    case (Cons t q)
    let ?s = "s\<lparr>runq := q\<rparr>"
    have ok: "streams_ok ?s" "fresh_backlog (backlog ?s)" using assms(2,3) by (simp_all add: streams_ok_def)
    show ?thesis
    proof (cases t)
      case 0
      with sys_drain Cons poll_server_streams [OF ok, of E b] show ?thesis by (auto simp: drain_sys_def)
    next
      case (Suc i)
      with assms(4) Cons have "i < length (conns ?s)" by simp
      from poll_conn_streams [OF ok(1) this] ok(2) sys_drain Cons Suc show ?thesis by (simp add: drain_sys_def)
    qed
  qed (use sys_drain assms in \<open>simp add: drain_sys_def streams_ok_def\<close>)
next
  case (sys_turn evs)
  with assms show ?thesis by (simp add: turn_sys_def streams_ok_def split: prod.splits)
next
  case (sys_connect st registered)
  with assms show ?thesis by (auto simp: arrive_def streams_ok_def fresh_backlog_def)
next
  case (sys_data i bs)
  have "streams_ok s'"
    unfolding sys_data by (rule on_stream_streams [OF assms(2) sys_data(2)])
      (use sys_data in \<open>auto simp: recv_bytes_def stream_ok_def echo_ok_def\<close>)
  with sys_data assms(3) show ?thesis by (simp add: on_stream_def)
next
  case (sys_end i p)
  have "streams_ok s'"
    unfolding sys_end by (rule on_stream_streams [OF assms(2) sys_end(2)])
      (use sys_end in \<open>auto simp: recv_end_def stream_ok_def echo_ok_def\<close>)
  with sys_end assms(3) show ?thesis by (simp add: on_stream_def)
next
  case (sys_room i n b)
  have "streams_ok s'"
    unfolding sys_room by (rule on_stream_streams [OF assms(2) sys_room(2)])
      (auto simp: grow_room_def stream_ok_def echo_ok_def)
  with sys_room assms(3) show ?thesis by (simp add: on_stream_def)
qed (use assms in \<open>auto simp: streams_ok_def arrive_def fresh_backlog_def\<close>)

section \<open>The tasks\<close>

text \<open>Every task that is queued or kept by the reactor exists.\<close>

definition tasks_exist :: "echo_sys \<Rightarrow> bool" where
  "tasks_exist s \<longleftrightarrow>
     (\<forall>t \<in> set (runq s). t \<le> length (conns s)) \<and> (\<forall>t \<in> ran (io_wakers (rctr s)). t \<le> length (conns s))"

lemma ran_upd_subset: "ran (m(k \<mapsto> v)) \<subseteq> insert v (ran m)"
  by (auto simp: ran_def)

lemma register_wakers: "register E b r = Ok (t, r') \<Longrightarrow> io_wakers r' = io_wakers r"
  by (auto simp: register_def Let_def res_conv split: if_splits)

lemma accept_conns_tasks: "tasks_exist s \<Longrightarrow> tasks_exist (accept_conns E b s)"
proof (induction E b s rule: accept_conns.induct)
  case (1 E s)
  then show ?case using ran_upd_subset [of "io_wakers (rctr s)" "ltok s" 0]
    by (auto simp: tasks_exist_def set_waker_def)
next
  case (3 E st registered b s)
  show ?case
  proof (cases "register E registered (rctr s)")
    case (Ok tr)
    obtain t r where tr: "tr = (t, r)" by (metis surj_pair)
    let ?s = "spawn_echo (st\<lparr>stok := t\<rparr>) (s\<lparr>rctr := r\<rparr>)"
    have "tasks_exist ?s"
      using "3.prems" register_wakers [of E registered "rctr s" t r] Ok tr
      by (auto simp: tasks_exist_def spawn_echo_def le_Suc_eq)
    from "3.IH" [OF Ok tr [symmetric] this] Ok tr show ?thesis by simp
  qed (use 3 in \<open>auto simp: tasks_exist_def\<close>)
qed (simp add: tasks_exist_def)

lemma poll_server_tasks: "tasks_exist s \<Longrightarrow> tasks_exist (poll_server E b s)"
  using accept_conns_tasks [of s E "backlog s"]
    accept_conns_tasks [of "s\<lparr>bound := True, ltok := t, rctr := r\<rparr>" E "backlog s" for t r]
  by (auto simp: poll_server_def tasks_exist_def split: res.splits dest!: register_wakers)

lemma poll_conn_tasks:
  assumes "tasks_exist s" "streams_ok s" "i < length (conns s)"
  shows "tasks_exist (poll_conn i s)"
proof (cases "suspended (est (conns s ! i))")
  case True
  obtain e st r where p: "poll_echo (Suc i) (est (conns s ! i)) (strm (conns s ! i)) (rctr s) = (e, st, r)"
    by (metis surj_pair)
  have "stream_ok (strm (conns s ! i))" "echo_ok (est (conns s ! i)) (strm (conns s ! i))"
    using assms by (auto simp: streams_ok_def)
  from poll_echo_spec [OF p this True] have "ran (io_wakers r) \<subseteq> insert (Suc i) (ran (io_wakers (rctr s)))"
    using ran_upd_subset by (fastforce simp: set_waker_def split: if_splits)
  with p True assms show ?thesis by (auto simp: poll_conn_def tasks_exist_def)
qed (use assms in \<open>simp add: poll_conn_def tasks_exist_def\<close>)

lemma turn_tasks:
  assumes "turn evs r = (r', ws)"
  shows "set ws \<subseteq> ran (io_wakers r) \<and> ran (io_wakers r') \<subseteq> ran (io_wakers r)"
  using assms
proof (induction evs arbitrary: r r' ws)
  case (Cons e evs)
  show ?case
  proof (cases "e = NOTIFY_TOKEN \<or> io_wakers r e = None")
    case True
    with Cons.prems have "turn evs r = (r', ws)" by (auto split: if_splits)
    then show ?thesis by (rule Cons.IH)
  next
    case False
    then obtain w where w: "e \<noteq> NOTIFY_TOKEN" "io_wakers r e = Some w" by auto
    let ?r = "r\<lparr>io_wakers := (io_wakers r)(e := None)\<rparr>"
    obtain r1 ws1 where t: "turn evs ?r = (r1, ws1)" by (metis surj_pair)
    have sub: "ran (io_wakers ?r) \<subseteq> ran (io_wakers r)" by (auto simp: ran_def split: if_splits)
    have "w \<in> ran (io_wakers r)" using w(2) by (rule ranI)
    moreover have "r' = r1" "ws = w # ws1" using Cons.prems w t by simp_all
    moreover have "set ws1 \<subseteq> ran (io_wakers r)" "ran (io_wakers r1) \<subseteq> ran (io_wakers r)"
      using Cons.IH [OF t] sub by (blast intro: subset_trans)+
    ultimately show ?thesis by simp
  qed
qed simp

lemma sys_step_tasks:
  assumes "sys_step E s s'" "tasks_exist s" "streams_ok s"
  shows "tasks_exist s'"
  using assms(1)
proof cases
  case (sys_drain b)
  show ?thesis
  proof (cases "runq s")
    case (Cons t q)
    let ?s = "s\<lparr>runq := q\<rparr>"
    have ok: "tasks_exist ?s" "streams_ok ?s" using assms(2,3) Cons
      by (simp_all add: streams_ok_def tasks_exist_def)
    show ?thesis
    proof (cases t)
      case 0
      with sys_drain Cons poll_server_tasks [OF ok(1)] show ?thesis by (simp add: drain_sys_def)
    next
      case (Suc i)
      with assms(2) Cons have "i < length (conns ?s)" by (simp add: tasks_exist_def)
      from poll_conn_tasks [OF ok this] sys_drain Cons Suc show ?thesis by (simp add: drain_sys_def)
    qed
  qed (use sys_drain assms in \<open>simp add: drain_sys_def tasks_exist_def\<close>)
next
  case (sys_turn evs)
  obtain r ws where t: "turn evs (rctr s) = (r, ws)" by (metis surj_pair)
  from turn_tasks [OF t] t sys_turn assms(2) show ?thesis by (auto simp: turn_sys_def tasks_exist_def)
qed (use assms in \<open>auto simp: tasks_exist_def arrive_def on_stream_def\<close>)

lemma sys_reach_ok:
  assumes "sys_reach E sys_init s"
  shows "streams_ok s \<and> fresh_backlog (backlog s) \<and> tasks_exist s"
  using assms
proof (rule reach_invariant)
  show "streams_ok sys_init \<and> fresh_backlog (backlog sys_init) \<and> tasks_exist sys_init"
    by (simp add: sys_init_def streams_ok_def fresh_backlog_def tasks_exist_def reactor_new_def)
next
  fix a b
  assume "sys_step E a b" "streams_ok a \<and> fresh_backlog (backlog a) \<and> tasks_exist a"
  with sys_step_streams [of E a b] sys_step_tasks [of E a b]
  show "streams_ok b \<and> fresh_backlog (backlog b) \<and> tasks_exist b" by (simp add: tasks_exist_def)
qed

section \<open>No wake-up is lost\<close>

definition alive :: "echo_sys \<Rightarrow> nat \<Rightarrow> bool" where
  "alive s t \<longleftrightarrow> (case t of 0 \<Rightarrow> True | Suc i \<Rightarrow> i < length (conns s) \<and> suspended (est (conns s ! i)))"

definition blocked :: "echo_sys \<Rightarrow> nat \<Rightarrow> bool" where
  "blocked s t \<longleftrightarrow> (case t of 0 \<Rightarrow> lblock s | Suc i \<Rightarrow> blocked_at (est (conns s ! i)) (strm (conns s ! i)))"

abbreviation kept :: "echo_sys \<Rightarrow> nat \<Rightarrow> nat option" where
  "kept s t \<equiv> io_wakers (rctr s) (of_nat t)"

lemma alive_blocked_update [simp]:
  "alive (s\<lparr>runq := q\<rparr>) = alive s" "blocked (s\<lparr>runq := q\<rparr>) = blocked s"
  "alive (s\<lparr>spc := p\<rparr>) = alive s" "blocked (s\<lparr>spc := p\<rparr>) = blocked s"
  "alive (s\<lparr>events := e\<rparr>) = alive s" "blocked (s\<lparr>events := e\<rparr>) = blocked s"
  by (simp_all add: alive_def blocked_def fun_eq_iff split: nat.splits)

text \<open>
  With the listener bound, task \<open>t\<close> has token \<open>t\<close>. Every task that has not returned is queued once
  or being polled (\<open>run\<close>), or else the reactor keeps its waker and either an event for it is
  pending or its operation still cannot go on.
\<close>

definition tokens_ok :: "echo_sys \<Rightarrow> bool" where
  "tokens_ok s \<longleftrightarrow>
     bound s \<and> ltok s = 0 \<and> next_token (rctr s) = of_nat (Suc (length (conns s))) \<and>
     (\<forall>i < length (conns s). stok (strm (conns s ! i)) = of_nat (Suc i))"

definition wakers_ok :: "nat option \<Rightarrow> echo_sys \<Rightarrow> bool" where
  "wakers_ok run s \<longleftrightarrow>
     distinct (runq s) \<and> (\<forall>t \<in> set (runq s). alive s t) \<and>
     (\<forall>t. alive s t \<longrightarrow>
        (if t \<in> set (runq s) \<or> run = Some t then kept s t = None
         else kept s t = Some t \<and> (of_nat t \<in> events s \<or> blocked s t))) \<and>
     (\<forall>tok t. io_wakers (rctr s) tok = Some t \<longrightarrow> tok = of_nat t \<and> alive s t) \<and>
     (\<forall>t. run = Some t \<longrightarrow> t \<notin> set (runq s) \<and> alive s t) \<and>
     (lblock s \<longrightarrow> backlog s = [])"

definition small :: "echo_sys \<Rightarrow> bool" where
  "small s \<longleftrightarrow> length (conns s) < 2 ^ 64 - 2"

lemma wakers_okI:
  assumes "distinct (runq s)" "\<forall>t \<in> set (runq s). alive s t"
    and "\<And>t. alive s t \<Longrightarrow>
      if t \<in> set (runq s) \<or> run = Some t then kept s t = None
      else kept s t = Some t \<and> (of_nat t \<in> events s \<or> blocked s t)"
    and "\<And>tok t. io_wakers (rctr s) tok = Some t \<Longrightarrow> tok = of_nat t \<and> alive s t"
    and "\<And>t. run = Some t \<Longrightarrow> t \<notin> set (runq s) \<and> alive s t"
    and "lblock s \<Longrightarrow> backlog s = []"
  shows "wakers_ok run s"
  unfolding wakers_ok_def by (intro conjI allI impI) (fact assms(1,2) | erule assms(3-6) | use assms(4-6) in blast)+

lemma wakers_okD:
  assumes "wakers_ok run s"
  shows "distinct (runq s)" "t \<in> set (runq s) \<Longrightarrow> alive s t"
    "lblock s \<Longrightarrow> backlog s = []" "run = Some t \<Longrightarrow> t \<notin> set (runq s)"
  using assms by (auto simp: wakers_ok_def)

lemma alive_le: "alive s t \<Longrightarrow> t \<le> length (conns s)"
  by (auto simp: alive_def split: nat.splits)

lemma small_token_inj:
  assumes "small s" "i \<le> Suc (length (conns s))" "j \<le> Suc (length (conns s))"
  shows "(of_nat i :: token) = of_nat j \<longleftrightarrow> i = j"
  using assms by (intro token_inj) (simp_all add: small_def)

lemma small_not_notify: "small s \<Longrightarrow> t \<le> length (conns s) \<Longrightarrow> (of_nat t :: token) \<noteq> NOTIFY_TOKEN"
  by (rule token_not_notify) (simp add: small_def)

lemma poll_conn_sched:
  assumes "tokens_ok s" "wakers_ok (Some (Suc i)) s" "streams_ok s" "small s"
  shows "tokens_ok (poll_conn i s) \<and> wakers_ok None (poll_conn i s) \<and> spc (poll_conn i s) = spc s \<and>
    runq (poll_conn i s) = runq s \<and> bound (poll_conn i s) = bound s"
proof -
  let ?c = "conns s ! i"
  have al: "alive s (Suc i)" and nq: "Suc i \<notin> set (runq s)" and kn: "kept s (Suc i) = None"
    using assms(2) by (auto simp: wakers_ok_def)
  have i: "i < length (conns s)" and su: "suspended (est ?c)" using al by (simp_all add: alive_def)
  have st: "stok (strm ?c) = of_nat (Suc i)" using assms(1) i by (simp add: tokens_ok_def)
  obtain e t r where p: "poll_echo (Suc i) (est ?c) (strm ?c) (rctr s) = (e, t, r)" by (metis surj_pair)
  have "stream_ok (strm ?c)" "echo_ok (est ?c) (strm ?c)" using assms(3) i by (auto simp: streams_ok_def)
  note sp = poll_echo_spec [OF p this su]
  let ?s = "s\<lparr>conns := (conns s)[i := \<lparr>est = e, strm = t\<rparr>], rctr := r\<rparr>"
  have s': "poll_conn i s = ?s" using p su by (simp add: poll_conn_def)
  have r: "r = (if suspended e then set_waker (of_nat (Suc i)) (Suc i) (rctr s) else rctr s)"
    using sp st by simp
  have other: "alive ?s u \<longleftrightarrow> alive s u" "blocked ?s u = blocked s u" if "u \<noteq> Suc i" for u
    using that i by (auto simp: alive_def blocked_def nth_list_update split: nat.splits)
  have self: "alive ?s (Suc i) \<longleftrightarrow> suspended e" "blocked ?s (Suc i) = blocked_at e t"
    using i by (simp_all add: alive_def blocked_def)
  have keep: "kept ?s u = kept s u" if "u \<noteq> Suc i" "alive s u" for u
    using that r small_token_inj [OF assms(4), of u "Suc i"] alive_le [OF that(2)] i
    by (auto simp: set_waker_def)
  have "next_token r = next_token (rctr s)" unfolding r by (simp add: set_waker_def)
  moreover have "stok t = of_nat (Suc i)" using sp st by simp
  ultimately have tok: "tokens_ok ?s" using assms(1) i by (auto simp: tokens_ok_def nth_list_update)
  have w1: "if u \<in> set (runq ?s) \<or> None = Some u then kept ?s u = None
      else kept ?s u = Some u \<and> (of_nat u \<in> events ?s \<or> blocked ?s u)" if "alive ?s u" for u
  proof (cases "u = Suc i")
    case True
    with that self have su': "suspended e" by simp
    then have "kept ?s u = Some u" unfolding r True by (simp add: set_waker_def)
    moreover have "blocked ?s u" using self sp su' True by simp
    ultimately show ?thesis using True nq by simp
  next
    case False
    with that other keep [OF False] assms(2) show ?thesis
      by (auto simp: wakers_ok_def)
  qed
  have w2: "tok' = of_nat u \<and> alive ?s u" if "io_wakers (rctr ?s) tok' = Some u" for tok' u
  proof (cases "tok' = of_nat (Suc i)")
    case True
    with that r kn self show ?thesis by (auto simp: set_waker_def split: if_splits)
  next
    case False
    with that r have "io_wakers (rctr s) tok' = Some u" by (auto simp: set_waker_def split: if_splits)
    with assms(2) have "tok' = of_nat u" "alive s u" by (auto simp: wakers_ok_def)
    moreover from this False have "u \<noteq> Suc i" by auto
    ultimately show ?thesis using other(1) [of u] by simp
  qed
  have q: "\<forall>u \<in> set (runq s). alive ?s u"
  proof
    fix u
    assume "u \<in> set (runq s)"
    with assms(2) nq have "alive s u" "u \<noteq> Suc i" by (auto simp: wakers_ok_def)
    with other(1) show "alive ?s u" by blast
  qed
  have "wakers_ok None ?s"
    by (rule wakers_okI [OF _ _ w1 w2]) (use wakers_okD [OF assms(2)] q in simp_all)
  with tok show ?thesis by (simp add: s')
qed

lemma spawn_sched:
  assumes "tokens_ok s" "wakers_ok (Some 0) s" "Suc (length (conns s)) < 2 ^ 64 - 2"
  shows "register E True (rctr s) = Ok (of_nat (Suc (length (conns s))), (rctr s)\<lparr>next_token := of_nat (Suc (Suc (length (conns s))))\<rparr>)"
    and "s' = spawn_echo (st\<lparr>stok := of_nat (Suc (length (conns s)))\<rparr>)
        (s\<lparr>rctr := (rctr s)\<lparr>next_token := of_nat (Suc (Suc (length (conns s))))\<rparr>\<rparr>) \<Longrightarrow>
      tokens_ok s' \<and> wakers_ok (Some 0) s'"
proof -
  let ?n = "length (conns s)"
  have nt: "next_token (rctr s) = of_nat (Suc ?n)" using assms(1) by (simp add: tokens_ok_def)
  have "unat (of_nat (Suc ?n) :: token) = Suc ?n" using assms(3) by (intro unat_of_nat_u64) simp
  then have "unat (next_token (rctr s)) < 2 ^ 64 - 1" unfolding nt using assms(3) by simp
  from register_fits [OF this] show "register E True (rctr s) =
      Ok (of_nat (Suc ?n), (rctr s)\<lparr>next_token := of_nat (Suc (Suc ?n))\<rparr>)"
    by (simp add: nt ac_simps)
  assume s': "s' = spawn_echo (st\<lparr>stok := of_nat (Suc ?n)\<rparr>)
    (s\<lparr>rctr := (rctr s)\<lparr>next_token := of_nat (Suc (Suc ?n))\<rparr>\<rparr>)"
  have sm: "small s" using assms(3) by (simp add: small_def)
  have f: "conns s' = conns s @ [\<lparr>est = AtRead, strm = st\<lparr>stok := of_nat (Suc ?n)\<rparr>\<rparr>]"
    "runq s' = runq s @ [Suc ?n]" "io_wakers (rctr s') = io_wakers (rctr s)" "lblock s' = lblock s"
    "backlog s' = backlog s" "events s' = insert NOTIFY_TOKEN (events s)"
    by (simp_all add: s' spawn_echo_def)
  have other: "alive s' u \<longleftrightarrow> alive s u" "alive s u \<Longrightarrow> blocked s' u = blocked s u" if "u \<noteq> Suc ?n" for u
    using that by (auto simp: alive_def blocked_def f nth_append split: nat.splits)
  have self: "alive s' (Suc ?n)" by (simp add: alive_def f)
  have fresh: "Suc ?n \<notin> set (runq s)" "kept s (Suc ?n) = None"
  proof -
    show "Suc ?n \<notin> set (runq s)" using assms(2) alive_le by (fastforce simp: wakers_ok_def)
    show "kept s (Suc ?n) = None"
    proof (cases "kept s (Suc ?n)")
      case (Some u)
      with assms(2) have "(of_nat (Suc ?n) :: token) = of_nat u" "alive s u" by (auto simp: wakers_ok_def)
      with small_token_inj [OF sm, of "Suc ?n" u] alive_le [of s u] show ?thesis by simp
    qed
  qed
  have tok: "tokens_ok s'"
    using assms(1) by (auto simp: tokens_ok_def s' spawn_echo_def nth_append less_Suc_eq)
  have w1: "if u \<in> set (runq s') \<or> Some 0 = Some u then kept s' u = None
      else kept s' u = Some u \<and> (of_nat u \<in> events s' \<or> blocked s' u)" if "alive s' u" for u
  proof (cases "u = Suc ?n")
    case True
    with fresh f show ?thesis by simp
  next
    case False
    with that other have "alive s u" "blocked s' u = blocked s u" by auto
    with False assms(2) f show ?thesis by (auto simp: wakers_ok_def)
  qed
  have w2: "tok' = of_nat u \<and> alive s' u" if "io_wakers (rctr s') tok' = Some u" for tok' u
  proof -
    have "tok' = of_nat u" "alive s u" using that assms(2) f(3) by (auto simp: wakers_ok_def)
    with other [of u] self show ?thesis by (cases "u = Suc ?n") simp_all
  qed
  have q: "\<forall>u \<in> set (runq s'). alive s' u"
  proof
    fix u
    assume "u \<in> set (runq s')"
    then have "u = Suc ?n \<or> alive s u" using assms(2) f(2) by (auto simp: wakers_ok_def)
    with other [of u] self show "alive s' u" by (cases "u = Suc ?n") simp_all
  qed
  have "alive s' 0" by (simp add: alive_def)
  moreover have "0 \<notin> set (runq s')" using assms(2) f(2) by (auto simp: wakers_ok_def)
  moreover have "distinct (runq s')" "lblock s' \<longrightarrow> backlog s' = []"
    using assms(2) f fresh(1) by (simp_all add: wakers_ok_def)
  ultimately have "wakers_ok (Some 0) s'" by (intro wakers_okI [OF _ q w1 w2]) auto
  with tok show "tokens_ok s' \<and> wakers_ok (Some 0) s'" ..
qed

lemma accept_conns_sched:
  assumes "tokens_ok s" "wakers_ok (Some 0) s" "small (accept_conns E b s)" "streams_ok s" "fresh_backlog b"
    and "\<not> (\<exists>c. spc (accept_conns E b s) = SPanicked c)"
  shows "tokens_ok (accept_conns E b s) \<and> wakers_ok None (accept_conns E b s) \<and>
    spc (accept_conns E b s) = spc s"
  using assms
proof (induction E b s rule: accept_conns.induct)
  case (1 E s)
  let ?s = "accept_conns E [] s"
  have l: "ltok s = of_nat 0" using "1.prems"(1) by (simp add: tokens_ok_def)
  have same: "alive ?s = alive s" "\<And>u. u \<noteq> 0 \<Longrightarrow> blocked ?s u = blocked s u"
    by (auto simp: alive_def blocked_def fun_eq_iff split: nat.splits)
  have keep: "kept ?s u = kept s u" if "u \<noteq> 0" "alive s u" for u
    using that alive_le [OF that(2)] small_token_inj [of s u 0] "1.prems"(3) l
    by (auto simp: set_waker_def small_def)
  have w1: "if u \<in> set (runq ?s) \<or> None = Some u then kept ?s u = None
      else kept ?s u = Some u \<and> (of_nat u \<in> events ?s \<or> blocked ?s u)" if "alive ?s u" for u
  proof (cases "u = 0")
    case True
    with "1.prems"(2) l show ?thesis by (simp add: set_waker_def blocked_def wakers_ok_def)
  next
    case False
    with that same keep "1.prems"(2) show ?thesis by (auto simp: wakers_ok_def)
  qed
  have w2: "tok' = of_nat u \<and> alive ?s u" if "io_wakers (rctr ?s) tok' = Some u" for tok' u
    using that "1.prems"(2) l same(1)
    by (auto simp: set_waker_def wakers_ok_def split: if_splits)
  have "wakers_ok None ?s"
    by (rule wakers_okI [OF _ _ w1 w2]) (use wakers_okD [OF "1.prems"(2)] same(1) in simp_all)
  with "1.prems"(1) show ?case by (simp add: tokens_ok_def set_waker_def)
next
  case (3 E st registered b s)
  show ?case
  proof (cases "register E registered (rctr s)")
    case (Ok tr)
    obtain t r where tr: "tr = (t, r)" by (metis surj_pair)
    then have rg: registered using Ok by (auto simp: register_def Let_def res_conv split: if_splits)
    let ?s = "spawn_echo (st\<lparr>stok := t\<rparr>) (s\<lparr>rctr := r\<rparr>)"
    have al: "accept_conns E (Incoming st registered # b) s = accept_conns E b ?s" using Ok tr by simp
    have b: "fresh_backlog b" "fresh_stream st" using "3.prems"(5) by (auto simp: fresh_backlog_def)
    have so: "streams_ok ?s"
      using "3.prems"(4) fresh_stream_ok [OF b(2)] by (auto simp: streams_ok_def spawn_echo_def)
    obtain new where "conns (accept_conns E b ?s) = conns ?s @ new"
      using accept_conns_streams [OF so b(1)] by blast
    with "3.prems"(3) al have "Suc (length (conns s)) < 2 ^ 64 - 2" by (simp add: small_def spawn_echo_def)
    note sp = spawn_sched [OF "3.prems"(1,2) this]
    have "register E True (rctr s) = Ok (t, r)" using Ok tr rg by simp
    with sp(1) [of E] have "t = of_nat (Suc (length (conns s)))"
      "r = (rctr s)\<lparr>next_token := of_nat (Suc (Suc (length (conns s))))\<rparr>"
      by (simp_all only: res.inject prod.inject)
    with sp(2) [of ?s st] have "tokens_ok ?s" "wakers_ok (Some 0) ?s" by simp_all
    moreover have "spc ?s = spc s" by (simp add: spawn_echo_def)
    ultimately show ?thesis using "3.IH" [OF Ok tr [symmetric]] "3.prems"(3,6) so b(1) unfolding al by simp
  qed (use "3.prems"(6) in auto)
qed auto

lemma turn_sched:
  assumes "tokens_ok s" "wakers_ok None s" "small s" "distinct evs"
  shows "tokens_ok (turn_sys evs s) \<and> wakers_ok None (turn_sys evs s)"
proof -
  obtain r ws where t: "turn evs (rctr s) = (r, ws)" by (metis surj_pair)
  note sp = turn_spec [OF t assms(4)]
  let ?s = "turn_sys evs s"
  have f: "conns ?s = conns s" "runq ?s = runq s @ ws" "rctr ?s = r" "lblock ?s = lblock s"
    "backlog ?s = backlog s" "bound ?s = bound s" "ltok ?s = ltok s"
    "events s - set evs \<subseteq> events ?s"
    by (auto simp: turn_sys_def t)
  have same: "alive ?s = alive s" "blocked ?s = blocked s"
    by (simp_all add: alive_def blocked_def f fun_eq_iff split: nat.splits)
  have only: "e = of_nat u \<and> alive s u" if "io_wakers (rctr s) e = Some u" for e u
    using that assms(2) by (simp add: wakers_ok_def)
  have ws: "u \<in> set ws \<longleftrightarrow> (\<exists>e \<in> set evs. e \<noteq> NOTIFY_TOKEN \<and> io_wakers (rctr s) e = Some u)" for u
    unfolding sp(3) by (force simp: List.map_filter_def split: if_splits)
  have alive_ws: "alive s u \<and> kept s u = Some u" if "u \<in> set ws" for u
    using that only unfolding ws by blast
  have woken: "u \<in> set ws \<longleftrightarrow> of_nat u \<in> set evs \<and> kept s u = Some u" if "alive s u" for u
    using small_not_notify [OF assms(3) alive_le [OF that]] only unfolding ws by blast
  have kept': "kept ?s u = (if of_nat u \<in> set evs then None else kept s u)" if "alive s u" for u
    using small_not_notify [OF assms(3) alive_le [OF that]] by (simp add: f sp(1))
  have w1: "if u \<in> set (runq ?s) \<or> None = Some u then kept ?s u = None
      else kept ?s u = Some u \<and> (of_nat u \<in> events ?s \<or> blocked ?s u)" if "alive ?s u" for u
  proof -
    have a: "alive s u" using that same by simp
    have old: "if u \<in> set (runq s) then kept s u = None
        else kept s u = Some u \<and> (of_nat u \<in> events s \<or> blocked s u)"
      using assms(2) a by (auto simp: wakers_ok_def)
    show ?thesis
      using old woken [OF a] kept' [OF a] f(2,8) same(2) by (auto split: if_splits)
  qed
  have w2: "tok' = of_nat u \<and> alive ?s u" if "io_wakers (rctr ?s) tok' = Some u" for tok' u
    using that assms(2) same(1) by (auto simp: f sp(1) wakers_ok_def split: if_splits)
  have q: "\<forall>u \<in> set (runq ?s). alive ?s u"
    using assms(2) alive_ws same(1) f(2) by (auto simp: wakers_ok_def)
  have d: "distinct (runq ?s)"
  proof -
    let ?f = "\<lambda>t. if t = NOTIFY_TOKEN then None else io_wakers (rctr s) t"
    have "inj_on (the \<circ> ?f) {t. ?f t \<noteq> None}"
    proof (rule inj_onI)
      fix x y
      assume "x \<in> {t. ?f t \<noteq> None}" "y \<in> {t. ?f t \<noteq> None}" "(the \<circ> ?f) x = (the \<circ> ?f) y"
      then obtain u where "io_wakers (rctr s) x = Some u" "io_wakers (rctr s) y = Some u"
        by (auto split: if_splits)
      with only show "x = y" by metis
    qed
    then have "distinct ws"
      unfolding sp(3) List.map_filter_def using assms(4) by (auto simp: distinct_map elim!: inj_on_subset)
    moreover have "set (runq s) \<inter> set ws = {}"
    proof -
      have "u \<notin> set (runq s)" if "u \<in> set ws" for u
        using alive_ws [OF that] assms(2) by (auto simp: wakers_ok_def)
      then show ?thesis by blast
    qed
    ultimately show ?thesis using assms(2) f(2) by (simp add: wakers_ok_def)
  qed
  have "wakers_ok None ?s"
    by (rule wakers_okI [OF d q w1 w2]) (use wakers_okD(3) [OF assms(2)] f(4,5) in simp_all)
  moreover have "tokens_ok ?s" using assms(1) sp(2) by (simp add: tokens_ok_def f)
  ultimately show ?thesis by blast
qed

lemma arrive_sched:
  assumes "tokens_ok s" "wakers_ok None s"
  shows "tokens_ok (arrive new s) \<and> wakers_ok None (arrive new s)"
proof -
  let ?s = "arrive new s"
  have same: "alive ?s = alive s" "\<And>u. u \<noteq> 0 \<Longrightarrow> blocked ?s u = blocked s u"
    by (auto simp: alive_def blocked_def arrive_def fun_eq_iff split: nat.splits)
  have l: "ltok s = of_nat 0" using assms(1) by (simp add: tokens_ok_def)
  have w: "if u \<in> set (runq ?s) \<or> None = Some u then kept ?s u = None
      else kept ?s u = Some u \<and> (of_nat u \<in> events ?s \<or> blocked ?s u)" if "alive ?s u" for u
    using that assms(2) l same by (cases "u = 0") (auto simp: arrive_def wakers_ok_def blocked_def)
  have "wakers_ok None ?s"
    by (rule wakers_okI [OF _ _ w]) (use assms(2) same(1) in \<open>auto simp: arrive_def wakers_ok_def\<close>)
  with assms(1) show ?thesis by (simp add: arrive_def tokens_ok_def)
qed

lemma on_stream_sched:
  assumes "tokens_ok s" "wakers_ok None s" "i < length (conns s)"
    and "stok (f (strm (conns s ! i))) = stok (strm (conns s ! i))"
    and "blocked_at (est (conns s ! i)) (strm (conns s ! i)) \<Longrightarrow>
      wake \<or> blocked_at (est (conns s ! i)) (f (strm (conns s ! i)))"
  shows "tokens_ok (on_stream i f wake s) \<and> wakers_ok None (on_stream i f wake s)"
proof -
  let ?s = "on_stream i f wake s"
  have same: "alive ?s = alive s" "\<And>u. u \<noteq> Suc i \<Longrightarrow> blocked ?s u = blocked s u"
    using assms(3)
    by (auto simp: alive_def blocked_def on_stream_def fun_eq_iff nth_list_update split: nat.splits)
  have self: "blocked s (Suc i) \<Longrightarrow> of_nat (Suc i) \<in> events ?s \<or> blocked ?s (Suc i)"
    using assms(1,3,5) by (auto simp: blocked_def on_stream_def tokens_ok_def)
  have mono: "events s \<subseteq> events ?s" by (auto simp: on_stream_def)
  have w: "if u \<in> set (runq ?s) \<or> None = Some u then kept ?s u = None
      else kept ?s u = Some u \<and> (of_nat u \<in> events ?s \<or> blocked ?s u)" if "alive ?s u" for u
  proof -
    have "if u \<in> set (runq s) then kept s u = None
        else kept s u = Some u \<and> (of_nat u \<in> events s \<or> blocked s u)"
      using that same(1) assms(2) by (auto simp: wakers_ok_def)
    moreover have "runq ?s = runq s" "rctr ?s = rctr s" by (simp_all add: on_stream_def)
    ultimately show ?thesis using self mono same(2) [of u] by (cases "u = Suc i") auto
  qed
  have "wakers_ok None ?s"
    by (rule wakers_okI [OF _ _ w]) (use assms(2) same(1) in \<open>auto simp: on_stream_def wakers_ok_def\<close>)
  moreover have "tokens_ok ?s"
    using assms(1,3,4) by (auto simp: tokens_ok_def on_stream_def nth_list_update)
  ultimately show ?thesis by blast
qed

text \<open>Before the first poll nothing is registered.\<close>

definition unbound :: "echo_sys \<Rightarrow> bool" where
  "unbound s \<longleftrightarrow> \<not> bound s \<and> runq s = [0] \<and> conns s = [] \<and> rctr s = reactor_new \<and> backlog s = [] \<and>
     \<not> lblock s \<and> spc s = SDraining"

definition sys_ok :: "echo_sys \<Rightarrow> bool" where
  "sys_ok s \<longleftrightarrow>
     (\<exists>c. spc s = SPanicked c \<and> c \<noteq> Resumed) \<or> unbound s \<or>
     tokens_ok s \<and> wakers_ok None s \<and> (spc s = SDraining \<or> spc s = STurning \<and> runq s = [])"

lemma popped:
  assumes "wakers_ok None s" "runq s = t # q"
  shows "wakers_ok (Some t) (s\<lparr>runq := q\<rparr>)"
  using assms by (auto simp: wakers_ok_def)

lemma accept_conns_spc:
  "spc (accept_conns E b s) = spc s \<or> (\<exists>c. spc (accept_conns E b s) = SPanicked c \<and> c \<noteq> Resumed)"
  by (induction E b s rule: accept_conns.induct) (auto simp: spawn_echo_def split: res.splits)

lemma accept_conns_sys_ok:
  assumes "tokens_ok s" "wakers_ok (Some 0) s" "spc s = SDraining" "small (accept_conns E b s)"
    "streams_ok s" "fresh_backlog b"
  shows "sys_ok (accept_conns E b s)"
  using accept_conns_spc [of E b s] accept_conns_sched [OF assms(1,2,4-6)] assms(3)
  by (auto simp: sys_ok_def)

lemma first_poll_sys_ok:
  assumes "unbound s" "small (poll_server E b (s\<lparr>runq := []\<rparr>))"
  shows "sys_ok (poll_server E b (s\<lparr>runq := []\<rparr>))"
proof (cases b)
  case True
  have "register E True (reactor_new :: nat reactor) = Ok (0, reactor_new\<lparr>next_token := 1\<rparr>)"
    by (simp add: register_def reactor_new_def add_usize_def)
  with assms True have p: "poll_server E b (s\<lparr>runq := []\<rparr>) =
      accept_conns E [] (s\<lparr>runq := [], bound := True, ltok := 0, rctr := reactor_new\<lparr>next_token := 1\<rparr>\<rparr>)"
    by (simp add: poll_server_def unbound_def del: accept_conns.simps)
  let ?s = "s\<lparr>runq := [], bound := True, ltok := 0, rctr := reactor_new\<lparr>next_token := 1\<rparr>\<rparr>"
  have "tokens_ok ?s" "wakers_ok (Some 0) ?s" "spc ?s = SDraining" "streams_ok ?s" "fresh_backlog []"
    using assms(1) by (auto simp: tokens_ok_def wakers_ok_def unbound_def reactor_new_def alive_def streams_ok_def
        fresh_backlog_def split: nat.splits)
  from accept_conns_sys_ok [OF this(1-3) _ this(4,5)] assms(2) show ?thesis unfolding p by blast
qed (use assms(1) in \<open>simp add: poll_server_def unbound_def sys_ok_def\<close>)

lemma drain_sys_ok:
  assumes "sys_ok s" "spc s = SDraining" "streams_ok s" "fresh_backlog (backlog s)" "small s"
    "small (drain_sys E b s)"
  shows "sys_ok (drain_sys E b s)"
proof (cases "unbound s")
  case True
  then have "drain_sys E b s = poll_server E b (s\<lparr>runq := []\<rparr>)" by (simp add: drain_sys_def unbound_def)
  with first_poll_sys_ok [OF True] assms(6) show ?thesis by simp
next
  case False
  with assms(1,2) have ok: "tokens_ok s" "wakers_ok None s" by (auto simp: sys_ok_def)
  show ?thesis
  proof (cases "runq s")
    case Nil
    have "wakers_ok None (s\<lparr>spc := STurning\<rparr>)"
      using ok(2) by (simp add: wakers_ok_def)
    with ok(1) Nil show ?thesis by (simp add: drain_sys_def sys_ok_def tokens_ok_def)
  next
    case (Cons t q)
    let ?s = "s\<lparr>runq := q\<rparr>"
    have s: "tokens_ok ?s" "wakers_ok (Some t) ?s" "streams_ok ?s" "small ?s" "fresh_backlog (backlog ?s)"
      using ok popped [OF ok(2) Cons] assms(3-5) by (simp_all add: tokens_ok_def streams_ok_def small_def)
    show ?thesis
    proof (cases t)
      case 0
      have "drain_sys E b s = accept_conns E (backlog ?s) ?s"
        using Cons 0 ok(1) by (simp add: drain_sys_def poll_server_def tokens_ok_def)
      with accept_conns_sys_ok [OF s(1) s(2) [unfolded 0] _ _ s(3,5)] assms(2,6) show ?thesis by simp
    next
      case (Suc i)
      from poll_conn_sched [OF s(1) s(2) [unfolded Suc] s(3,4)] Cons Suc assms(2) show ?thesis
        by (simp add: drain_sys_def sys_ok_def)
    qed
  qed
qed

lemma sys_step_ok:
  assumes "sys_step E s s'" "sys_ok s" "streams_ok s" "fresh_backlog (backlog s)" "small s" "small s'"
  shows "sys_ok s'"
  using assms(1)
proof cases
  case (sys_drain b)
  from drain_sys_ok [OF assms(2) sys_drain(2) assms(3-5)] assms(6) show ?thesis unfolding sys_drain(1) .
next
  case (sys_turn evs)
  with assms(2) have "tokens_ok s" "wakers_ok None s" by (auto simp: sys_ok_def unbound_def)
  from turn_sched [OF this assms(5) sys_turn(4)] sys_turn(1) show ?thesis
    by (simp add: sys_ok_def turn_sys_def split: prod.splits)
next
  case (sys_connect st registered)
  with assms(2) arrive_sched [of s "[Incoming st registered]"] show ?thesis
    by (auto simp: sys_ok_def unbound_def arrive_def)
next
  case sys_accept_fails
  with assms(2) arrive_sched [of s "[AcceptFails]"] show ?thesis
    by (auto simp: sys_ok_def unbound_def arrive_def)
next
  case (sys_data i bs)
  have "tokens_ok s \<Longrightarrow> wakers_ok None s \<Longrightarrow> tokens_ok s' \<and> wakers_ok None s'"
    unfolding sys_data(1)
    by (rule on_stream_sched [OF _ _ sys_data(2)]) (auto simp: recv_bytes_def blocked_at_def split: echo_state.splits)
  with assms(2) sys_data show ?thesis by (auto simp: sys_ok_def unbound_def on_stream_def)
next
  case (sys_end i p)
  have "tokens_ok s \<Longrightarrow> wakers_ok None s \<Longrightarrow> tokens_ok s' \<and> wakers_ok None s'"
    unfolding sys_end(1)
    by (rule on_stream_sched [OF _ _ sys_end(2)]) (auto simp: recv_end_def blocked_at_def split: echo_state.splits)
  with assms(2) sys_end show ?thesis by (auto simp: sys_ok_def unbound_def on_stream_def)
next
  case (sys_room i n b)
  have "tokens_ok s \<Longrightarrow> wakers_ok None s \<Longrightarrow> tokens_ok s' \<and> wakers_ok None s'"
    unfolding sys_room(1)
    by (rule on_stream_sched [OF _ _ sys_room(2)]) (auto simp: grow_room_def blocked_at_def split: echo_state.splits)
  with assms(2) sys_room show ?thesis by (auto simp: sys_ok_def unbound_def on_stream_def)
next
  case (sys_spurious t)
  with assms(2) show ?thesis
    by (auto simp: sys_ok_def unbound_def tokens_ok_def wakers_ok_def)
qed (use assms(2) in \<open>auto simp: sys_ok_def\<close>)

lemma sys_reach_sched:
  assumes "sys_reach E sys_init s" "small s"
  shows "sys_ok s"
  using assms
proof (induction rule: rtranclp_induct)
  case base
  show ?case by (simp add: sys_ok_def unbound_def sys_init_def)
next
  case (step s s')
  have ok: "streams_ok s" "fresh_backlog (backlog s)" "tasks_exist s" using sys_reach_ok [OF step.hyps(1)] by simp_all
  with sys_step_streams [OF step.hyps(2)] have "length (conns s) \<le> length (conns s')"
    by (simp add: tasks_exist_def)
  with step.prems have "small s" by (simp add: small_def)
  with step.IH sys_step_ok [OF step.hyps(2) _ ok(1,2)] step.prems show ?case by simp
qed

section \<open>A run\<close>

definition demo_stream :: "bool \<Rightarrow> stream" where
  "demo_stream seen = \<lparr>stok = (if seen then 1 else 0), arrived = (if seen then [] else [''hi'']), peer = Silent,
     room = (if seen then 3 else 5), broken = False, rblock = seen, wblock = False, received = ''hi'',
     written_out = (if seen then ''hi'' else [])\<rparr>"

definition demo_state :: "nat list \<Rightarrow> token set \<Rightarrow> bool \<Rightarrow> srv_pc \<Rightarrow> echo_sys" where
  "demo_state q evs seen p = \<lparr>runq = q, bound = True, ltok = 0,
     conns = [\<lparr>est = AtRead, strm = (if seen then demo_stream True else (demo_stream False)\<lparr>stok := 1\<rparr>)\<rparr>],
     rctr = \<lparr>io_wakers = (if seen then [0 \<mapsto> 0, 1 \<mapsto> 1] else [0 \<mapsto> 0]), next_token = 2\<rparr>,
     events = evs, backlog = [], lblock = True, spc = p\<rparr>"

lemma demo_reach: "sys_reach (ref_env True) sys_init (demo_state [] {} True STurning)"
proof -
  let ?E = "ref_env True"
  let ?a = "\<lparr>runq = [], bound = True, ltok = 0, conns = [], rctr = \<lparr>io_wakers = [0 \<mapsto> 0], next_token = 1\<rparr>,
    events = {}, backlog = [], lblock = True, spc = SDraining\<rparr>"
  let ?b = "?a\<lparr>backlog := [Incoming (demo_stream False) True], lblock := False, events := {0}\<rparr>"
  have "drain_sys ?E True sys_init = ?a"
    by (simp add: drain_sys_def sys_init_def poll_server_def register_def reactor_new_def add_usize_def set_waker_def)
  then have 1: "sys_step ?E sys_init ?a" using sys_step.sys_drain [of sys_init ?E True] by (simp add: sys_init_def)
  have "arrive [Incoming (demo_stream False) True] ?a = ?b" by (simp add: arrive_def)
  then have 2: "sys_step ?E ?a ?b" using sys_step.sys_connect [of ?a "demo_stream False" ?E True]
    by (simp add: fresh_stream_def demo_stream_def)
  have 3: "sys_step ?E ?b (?b\<lparr>spc := STurning\<rparr>)" using sys_step.sys_drain [of ?b ?E True] by (simp add: drain_sys_def)
  have nz: "(0 :: token) \<noteq> NOTIFY_TOKEN" by (simp add: NOTIFY_TOKEN_def)
  have "turn_sys [0] (?b\<lparr>spc := STurning\<rparr>) =
      ?b\<lparr>runq := [0], rctr := \<lparr>io_wakers = Map.empty, next_token = 1\<rparr>, events := {NOTIFY_TOKEN}\<rparr>" (is "_ = ?c")
    using nz by (simp add: turn_sys_def)
  then have 4: "sys_step ?E (?b\<lparr>spc := STurning\<rparr>) ?c"
    using sys_step.sys_turn [of "?b\<lparr>spc := STurning\<rparr>" "[0]" ?E] by simp
  have "drain_sys ?E True ?c = demo_state [1] {NOTIFY_TOKEN} False SDraining"
    by (simp add: drain_sys_def poll_server_def register_def add_usize_def set_waker_def spawn_echo_def demo_state_def)
  then have 5: "sys_step ?E ?c (demo_state [1] {NOTIFY_TOKEN} False SDraining)"
    using sys_step.sys_drain [of ?c ?E True] by simp
  have "drain_sys ?E True (demo_state [1] {NOTIFY_TOKEN} False SDraining) = demo_state [] {NOTIFY_TOKEN} True SDraining"
    by (simp add: drain_sys_def demo_state_def poll_conn_def demo_stream_def poll_echo.simps poll_read_def
        mio_read_def poll_write_def mio_write_def set_waker_def fun_eq_iff)
  then have 6: "sys_step ?E (demo_state [1] {NOTIFY_TOKEN} False SDraining) (demo_state [] {NOTIFY_TOKEN} True SDraining)"
    using sys_step.sys_drain [of "demo_state [1] {NOTIFY_TOKEN} False SDraining" ?E True] by (simp add: demo_state_def)
  have turns: "sys_step ?E (demo_state [] evs True SDraining) (demo_state [] evs True STurning)" for evs
    using sys_step.sys_drain [of "demo_state [] evs True SDraining" ?E True] by (simp add: drain_sys_def demo_state_def)
  have "turn_sys [NOTIFY_TOKEN] (demo_state [] {NOTIFY_TOKEN} True STurning) = demo_state [] {} True SDraining"
    by (simp add: turn_sys_def demo_state_def)
  then have 7: "sys_step ?E (demo_state [] {NOTIFY_TOKEN} True STurning) (demo_state [] {} True SDraining)"
    using sys_step.sys_turn [of "demo_state [] {NOTIFY_TOKEN} True STurning" "[NOTIFY_TOKEN]" ?E]
    by (simp add: demo_state_def)
  from 1 2 3 4 5 6 turns 7 show ?thesis by (meson converse_rtranclp_into_rtranclp rtranclp.rtrancl_refl)
qed

lemma demo_small: "small (demo_state q evs seen p)"
  by (simp add: small_def demo_state_def)

section \<open>What the echo server guarantees\<close>

text \<open>
  C16: the echo server sends back what it received. At every moment, on every connection, the bytes
  written are a prefix of the bytes that arrived, in order, whatever the sizes of the chunks and
  the room for writing; and when the task of a connection returns without an error, it has written
  everything.
\<close>

theorem echo_faithful:
  assumes "sys_reach E sys_init s" "c \<in> set (conns s)"
  shows "(\<exists>rest. received (strm c) = written_out (strm c) @ rest) \<and>
    (est c = EchoDone \<longrightarrow> written_out (strm c) = received (strm c))"
  using sys_reach_ok [OF assms(1)] assms(2)
  by (auto simp: streams_ok_def echo_ok_def split: if_splits)

theorem echo_faithful_witness:
  "\<exists>rest. received (demo_stream True) = written_out (demo_stream True) @ rest"
  using echo_faithful [OF demo_reach, of "\<lparr>est = AtRead, strm = demo_stream True\<rparr>"]
  by (simp add: demo_state_def)

text \<open>When the executor is about to block with no event pending, nothing is left to do.\<close>

lemma at_rest_blocked:
  assumes "sys_reach E sys_init s" "small s" "spc s = STurning" "events s = {}" "alive s t"
  shows "blocked s t"
  using sys_reach_sched [OF assms(1,2)] assms(3-5) by (auto simp: sys_ok_def unbound_def wakers_ok_def)

lemma at_rest_backlog:
  assumes "sys_reach E sys_init s" "small s" "spc s = STurning" "events s = {}"
  shows "backlog s = []"
  using at_rest_blocked [OF assms, of 0] sys_reach_sched [OF assms(1,2)] assms(3)
  by (auto simp: alive_def blocked_def sys_ok_def unbound_def wakers_ok_def)

lemma at_rest_conn:
  assumes "sys_reach E sys_init s" "small s" "spc s = STurning" "events s = {}" "c \<in> set (conns s)"
  shows "case est c of
       AtRead \<Rightarrow> arrived (strm c) = [] \<and> peer (strm c) = Silent \<and> written_out (strm c) = received (strm c)
     | AtWrite bs pos \<Rightarrow> room (strm c) = 0 \<and> \<not> broken (strm c)
     | _ \<Rightarrow> True"
proof -
  have ok: "stream_ok (strm c)" "echo_ok (est c) (strm c)"
    using sys_reach_ok [OF assms(1)] assms(5) by (auto simp: streams_ok_def)
  obtain i where i: "i < length (conns s)" "c = conns s ! i" using assms(5) by (metis in_set_conv_nth)
  then have "suspended (est c) \<Longrightarrow> blocked_at (est c) (strm c)"
    using at_rest_blocked [OF assms(1-4), of "Suc i"] by (simp add: alive_def blocked_def)
  with ok show ?thesis by (cases "est c") (simp_all add: blocked_at_def stream_ok_def echo_ok_def)
qed

text \<open>
  C14: the reactor loses no wake-up. Whenever the executor is about to block with no event pending,
  there is nothing left to do: no connection waits to be accepted, the first one included; every
  connection that waits to read has no unread byte and has been echoed completely, and every
  connection that waits to write has no room. The bound is the number of tokens.
\<close>

theorem reactor_no_lost_wakeup:
  assumes "sys_reach E sys_init s" "small s" "spc s = STurning" "events s = {}"
  shows "backlog s = [] \<and>
    list_all (\<lambda>c. case est c of
       AtRead \<Rightarrow> arrived (strm c) = [] \<and> peer (strm c) = Silent \<and> written_out (strm c) = received (strm c)
     | AtWrite bs pos \<Rightarrow> room (strm c) = 0 \<and> \<not> broken (strm c)
     | _ \<Rightarrow> True) (conns s)"
  using at_rest_backlog [OF assms] at_rest_conn [OF assms] by (simp add: list_all_iff)

theorem reactor_no_lost_wakeup_witness:
  "arrived (demo_stream True) = [] \<and> written_out (demo_stream True) = received (demo_stream True)"
  using reactor_no_lost_wakeup [OF demo_reach demo_small] by (simp add: demo_state_def)

text \<open>
  The executor of exercise 3 never polls a task of the echo server that has returned: no task
  is ever queued twice, so the panic of a resumed future cannot happen.
\<close>

theorem echo_never_resumed:
  assumes "sys_reach E sys_init s" "small s"
  shows "spc s \<noteq> SPanicked Resumed"
  using sys_reach_sched [OF assms] by (auto simp: sys_ok_def unbound_def)

theorem echo_never_resumed_witness: "spc (demo_state [] {} True STurning) \<noteq> SPanicked Resumed"
  using echo_never_resumed [OF demo_reach demo_small] .

end
