(* ===== verification/Echo_Progress.thy ===== *)
theory Echo_Progress
  imports Echo_Server
begin

text \<open>
  The echo server of \<open>src/workshop/src/solutions/ex3.rs\<close> makes progress: left alone, its executor and
  reactor come to rest after a number of steps bounded by what is queued, pending and waiting to be
  accepted, and then everything that can be accepted, read and written has been.
\<close>

section \<open>The steps of the executor\<close>

text \<open>The steps of \<open>sys_step\<close> that are the program's own, as long as the calls it unwraps succeed.\<close>

inductive inner_step :: "env \<Rightarrow> echo_sys \<Rightarrow> echo_sys \<Rightarrow> bool" for E where
  inner_drain: "spc s = SDraining \<Longrightarrow> inner_step E s (drain_sys E True s)"
| inner_turn: "spc s = STurning \<Longrightarrow> evs \<noteq> [] \<Longrightarrow> distinct evs \<Longrightarrow> length evs \<le> 64 \<Longrightarrow>
    set evs \<subseteq> events s \<Longrightarrow> inner_step E s (turn_sys evs s)"

lemma inner_sys: "inner_step E s s' \<Longrightarrow> sys_step E s s'"
  by (auto elim!: inner_step.cases intro: sys_step.intros)

text \<open>What is left to do: tasks, connections to accept, events and the test of the queue.\<close>

definition load :: "echo_sys \<Rightarrow> nat" where
  "load s =
     length (runq s) + 3 * length (backlog s) + (if NOTIFY_TOKEN \<in> events s then 2 else 0) +
     5 * card (events s - {NOTIFY_TOKEN}) + (if spc s = SDraining then 1 else 0)"

lemma sys_step_finite:
  assumes "sys_step E s s'" "finite (events s)"
  shows "finite (events s')"
proof -
  have acc: "finite (events t) \<Longrightarrow> finite (events (accept_conns E bl t))" for bl t
    by (induction E bl t rule: accept_conns.induct) (auto simp: spawn_echo_def split: res.splits)
  from assms show ?thesis
    by (cases rule: sys_step.cases)
      (auto simp: drain_sys_def poll_server_def poll_conn_def turn_sys_def arrive_def on_stream_def acc Let_def
        split: list.splits nat.splits res.splits prod.splits)
qed

lemma sys_reach_finite: "sys_reach E sys_init s \<Longrightarrow> finite (events s)"
  by (erule reach_invariant) (auto simp: sys_init_def intro: sys_step_finite)

lemma accept_conns_load:
  "finite (events s) \<Longrightarrow> load (accept_conns E b s) \<le> load (s\<lparr>backlog := b\<rparr>)"
proof (induction E b s rule: accept_conns.induct)
  case (3 E st registered b s)
  show ?case
  proof (cases "register E registered (rctr s)")
    case (Ok tr)
    obtain t r where tr: "tr = (t, r)" by (metis surj_pair)
    let ?s = "spawn_echo (st\<lparr>stok := t\<rparr>) (s\<lparr>rctr := r\<rparr>)"
    have "finite (events ?s)" using "3.prems" by (simp add: spawn_echo_def)
    from "3.IH" [OF Ok tr [symmetric] this] show ?thesis
      using Ok tr by (auto simp: load_def spawn_echo_def)
  qed (auto simp: load_def)
qed (auto simp: load_def)

lemma turn_events:
  assumes "turn evs r = (r', ws)" "distinct evs"
  shows "length ws \<le> card (set evs - {NOTIFY_TOKEN})"
proof -
  have "length ws \<le> length (filter (\<lambda>t. t \<noteq> NOTIFY_TOKEN) evs)"
    unfolding turn_spec(3) [OF assms] by (induction evs) (auto simp: List.map_filter_simps split: option.splits)
  also have "\<dots> = card (set (filter (\<lambda>t. t \<noteq> NOTIFY_TOKEN) evs))"
    by (rule distinct_card [OF distinct_filter [OF assms(2)], symmetric])
  also have "set (filter (\<lambda>t. t \<noteq> NOTIFY_TOKEN) evs) = set evs - {NOTIFY_TOKEN}" by auto
  finally show ?thesis .
qed

lemma turn_load:
  assumes "finite (events s)" "spc s = STurning" "evs \<noteq> []" "distinct evs" "set evs \<subseteq> events s"
  shows "load (turn_sys evs s) < load s"
proof -
  obtain r ws where t: "turn evs (rctr s) = (r, ws)" by (metis surj_pair)
  let ?A = "events s - {NOTIFY_TOKEN}" and ?B = "set evs - {NOTIFY_TOKEN}"
  have le: "length ws \<le> card ?B" using t assms(4) by (rule turn_events)
  have sub: "?B \<subseteq> ?A" using assms(5) by blast
  have fin: "finite ?A" using assms(1) by simp
  have "(events s - set evs) - {NOTIFY_TOKEN} = ?A - ?B" by blast
  then have c: "card ((events s - set evs) - {NOTIFY_TOKEN}) = card ?A - card ?B"
    using fin sub by (simp add: card_Diff_subset finite_subset)
  have cle: "card ?B \<le> card ?A" using fin sub by (rule card_mono)
  have f: "runq (turn_sys evs s) = runq s @ ws" "backlog (turn_sys evs s) = backlog s"
    "events (turn_sys evs s) = (events s - set evs) \<union> (if ws = [] then {} else {NOTIFY_TOKEN})"
    "spc (turn_sys evs s) = SDraining"
    by (simp_all add: turn_sys_def t)
  have d: "(events s - set evs) \<union> (if ws = [] then {} else {NOTIFY_TOKEN}) - {NOTIFY_TOKEN} =
      (events s - set evs) - {NOTIFY_TOKEN}" by auto
  show ?thesis
  proof (cases "?B = {}")
    case True
    then have "set evs = {NOTIFY_TOKEN}" using assms(3) by (cases evs) auto
    moreover have "ws = []" using le True by simp
    ultimately show ?thesis using assms(2,5) c by (simp add: load_def f)
  next
    case False
    moreover have "finite ?B" by simp
    ultimately have "0 < card ?B" by (simp only: card_gt_0_iff simp_thms)
    then show ?thesis using le cle c assms(2) unfolding load_def f d by auto
  qed
qed

lemma poll_conn_frame:
  "runq (poll_conn i s) = runq s" "backlog (poll_conn i s) = backlog s" "events (poll_conn i s) = events s"
  "length (conns (poll_conn i s)) = length (conns s)"
  by (simp_all add: poll_conn_def Let_def split: prod.splits)

lemma poll_server_load:
  assumes "finite (events s)"
  shows "load (poll_server E True s) \<le> load s"
proof (cases "bound s")
  case True
  then show ?thesis using accept_conns_load [OF assms, of E "backlog s"] by (simp add: poll_server_def)
next
  case False
  show ?thesis
  proof (cases "register E True (rctr s)")
    case (Ok tr)
    obtain t r where tr: "tr = (t, r)" by (metis surj_pair)
    let ?s = "s\<lparr>bound := True, ltok := t, rctr := r\<rparr>"
    have "load (poll_server E True s) = load (accept_conns E (backlog s) ?s)"
      using False Ok tr by (simp add: poll_server_def)
    also have "\<dots> \<le> load (?s\<lparr>backlog := backlog s\<rparr>)" using assms by (intro accept_conns_load) simp
    also have "\<dots> = load s" by (simp add: load_def)
    finally show ?thesis .
  qed (use False in \<open>simp_all add: poll_server_def load_def\<close>)
qed

text \<open>Every step of the executor, the ones that panic included, takes something off the load.\<close>

lemma inner_step_load:
  assumes "inner_step E s s'" "finite (events s)"
  shows "load s' < load s"
  using assms(1)
proof cases
  case inner_drain
  show ?thesis
  proof (cases "runq s")
    case Nil
    with inner_drain show ?thesis by (simp add: drain_sys_def load_def)
  next
    case (Cons t q)
    let ?s = "s\<lparr>runq := q\<rparr>"
    have l: "load ?s < load s" using Cons by (simp add: load_def)
    show ?thesis
    proof (cases t)
      case 0
      have "load (poll_server E True ?s) \<le> load ?s" using assms(2) by (intro poll_server_load) simp
      with inner_drain Cons 0 l show ?thesis by (simp add: drain_sys_def)
    next
      case (Suc i)
      have "load (poll_conn i ?s) \<le> load ?s" by (simp add: load_def poll_conn_frame poll_conn_def Let_def split: prod.splits)
      with inner_drain Cons Suc l show ?thesis by (simp add: drain_sys_def)
    qed
  qed
next
  case (inner_turn evs)
  with turn_load [OF assms(2) inner_turn(2-4)] show ?thesis by simp
qed

section \<open>Nothing goes wrong\<close>

text \<open>
  A state in which the clients have done nothing the server cannot serve: what waits to be accepted
  are connections that mio registers, and there are tokens for all of them. \<open>n\<close> connections have
  been made.
\<close>

definition healthy :: "env \<Rightarrow> nat \<Rightarrow> echo_sys \<Rightarrow> bool" where
  "healthy E n s \<longleftrightarrow>
     sys_reach E sys_init s \<and> (spc s = SDraining \<or> spc s = STurning) \<and>
     (\<forall>ev \<in> set (backlog s). \<exists>st. ev = Incoming st True) \<and>
     length (conns s) + length (backlog s) = n \<and> n < 2 ^ 64 - 2"

lemma accept_conns_all:
  assumes "next_token (rctr s) = of_nat (Suc (length (conns s)))" "length (conns s) + length b < 2 ^ 64 - 2"
    and "\<forall>ev \<in> set b. \<exists>st. ev = Incoming st True"
  shows "length (conns (accept_conns E b s)) = length (conns s) + length b \<and>
    spc (accept_conns E b s) = spc s \<and> backlog (accept_conns E b s) = []"
  using assms
proof (induction E b s rule: accept_conns.induct)
  case (3 E st registered b s)
  let ?n = "Suc (length (conns s))"
  have "unat (of_nat ?n :: usize) = ?n" by (rule unat_of_nat_u64) (use "3.prems"(2) in simp)
  then have "unat (next_token (rctr s)) < 2 ^ 64 - 1" using "3.prems"(1,2) by simp
  then have r: "register E True (rctr s) = Ok (next_token (rctr s), (rctr s)\<lparr>next_token := next_token (rctr s) + 1\<rparr>)"
    by (rule register_fits)
  let ?r = "(rctr s)\<lparr>next_token := next_token (rctr s) + 1\<rparr>"
  let ?s = "spawn_echo (st\<lparr>stok := next_token (rctr s)\<rparr>) (s\<lparr>rctr := ?r\<rparr>)"
  have reg: registered using "3.prems"(3) by simp
  have "next_token (rctr ?s) = of_nat (Suc (length (conns ?s)))" "length (conns ?s) + length b < 2 ^ 64 - 2"
    using "3.prems"(1,2) by (simp_all add: spawn_echo_def)
  from "3.IH" [OF r [folded eqTrueI [OF reg]] refl this] "3.prems"(3) r reg show ?case
    by (simp add: spawn_echo_def)
qed simp_all

lemma drain_healthy:
  assumes "healthy E n s" "spc s = SDraining"
  shows "(spc (drain_sys E True s) = SDraining \<or> spc (drain_sys E True s) = STurning) \<and>
    (\<forall>ev \<in> set (backlog (drain_sys E True s)). \<exists>st. ev = Incoming st True) \<and>
    length (conns (drain_sys E True s)) + length (backlog (drain_sys E True s)) = n"
proof -
  have r: "sys_reach E sys_init s" and b: "\<forall>ev \<in> set (backlog s). \<exists>st. ev = Incoming st True"
    and n: "length (conns s) + length (backlog s) = n" "n < 2 ^ 64 - 2"
    using assms(1) by (auto simp: healthy_def)
  have sm: "small s" using n by (simp add: small_def)
  have cases: "unbound s \<or> tokens_ok s \<and> wakers_ok None s"
    using sys_reach_sched [OF r sm] assms(2) by (auto simp: sys_ok_def)
  show ?thesis
  proof (cases "runq s")
    case Nil
    with b n show ?thesis by (simp add: drain_sys_def)
  next
    case (Cons t q)
    let ?s = "s\<lparr>runq := q\<rparr>"
    show ?thesis
    proof (cases "unbound s")
      case True
      then have u: "bound s = False" "runq s = [0]" "conns s = []" "rctr s = reactor_new" "backlog s = []"
        by (simp_all add: unbound_def)
      have "register E True (reactor_new :: nat reactor) = Ok (0, reactor_new\<lparr>next_token := 1\<rparr>)"
        by (simp add: register_def reactor_new_def add_usize_def)
      with u n assms(2) show ?thesis by (simp add: drain_sys_def poll_server_def)
    next
      case False
      with cases have ok: "tokens_ok s" "wakers_ok None s" by simp_all
      show ?thesis
      proof (cases t)
        case 0
        have "next_token (rctr ?s) = of_nat (Suc (length (conns ?s)))" "length (conns ?s) + length (backlog s) < 2 ^ 64 - 2"
          using ok(1) n by (simp_all add: tokens_ok_def)
        from accept_conns_all [OF this b, of E] ok(1) Cons 0 n(1) assms(2) show ?thesis
          by (simp add: drain_sys_def poll_server_def tokens_ok_def)
      next
        case (Suc i)
        have "streams_ok ?s" "small ?s" using sys_reach_ok [OF r] sm by (simp_all add: streams_ok_def small_def)
        from poll_conn_sched [OF _ popped [OF ok(2) Cons, unfolded Suc] this] ok(1) Cons Suc b n(1) assms(2)
        show ?thesis by (simp add: drain_sys_def poll_conn_frame tokens_ok_def)
      qed
    qed
  qed
qed

lemma inner_step_healthy:
  assumes "inner_step E s s'" "healthy E n s"
  shows "healthy E n s'"
proof -
  have "sys_reach E sys_init s'" using assms inner_sys by (auto simp: healthy_def intro: rtranclp.rtrancl_into_rtrancl)
  moreover from assms(1) have "(spc s' = SDraining \<or> spc s' = STurning) \<and>
    (\<forall>ev \<in> set (backlog s'). \<exists>st. ev = Incoming st True) \<and> length (conns s') + length (backlog s') = n"
  proof cases
    case inner_drain
    with drain_healthy [OF assms(2)] show ?thesis by simp
  next
    case (inner_turn evs)
    with assms(2) show ?thesis by (simp add: healthy_def turn_sys_def split: prod.splits)
  qed
  ultimately show ?thesis using assms(2) by (simp add: healthy_def)
qed

lemma inner_run:
  assumes "(inner_step E ^^ k) s t" "healthy E n s"
  shows "k + load t \<le> load s \<and> healthy E n t"
  using assms(1)
proof (induction k arbitrary: t)
  case (Suc k)
  then obtain u where u: "(inner_step E ^^ k) s u" "inner_step E u t" by auto
  from Suc.IH [OF u(1)] have le: "k + load u \<le> load s" and h: "healthy E n u" by auto
  have "finite (events u)" using h sys_reach_finite by (auto simp: healthy_def)
  from inner_step_load [OF u(2) this] inner_step_healthy [OF u(2) h] le show ?case by simp
qed (use assms(2) in simp)

lemma inner_progress:
  assumes "healthy E n s"
  shows "(\<exists>u. inner_step E s u) \<or> spc s = STurning \<and> events s = {}"
proof (cases "spc s = STurning \<and> events s \<noteq> {}")
  case True
  then obtain t where "t \<in> events s" by blast
  with True have "inner_step E s (turn_sys [t] s)" by (intro inner_turn) auto
  then show ?thesis by blast
next
  case False
  with assms inner_drain [of s E] show ?thesis by (auto simp: healthy_def)
qed

text \<open>What is left for a connection when the executor rests.\<close>

definition caught_up :: "conn \<Rightarrow> bool" where
  "caught_up c \<longleftrightarrow>
     (case est c of
        AtRead \<Rightarrow> arrived (strm c) = [] \<and> peer (strm c) = Silent \<and> written_out (strm c) = received (strm c)
      | AtWrite bs pos \<Rightarrow> room (strm c) = 0 \<and> \<not> broken (strm c)
      | EchoDone \<Rightarrow> written_out (strm c) = received (strm c)
      | EchoFailed \<Rightarrow> True)"

text \<open>
  C15: the echo server serves everything. Left alone in a state in which nothing has failed, its
  executor and reactor take at most \<open>load\<close> steps, whichever of the pending events each turn returns;
  and they stop only when no event is pending, every connection made has been accepted, and on
  every connection all that arrived has been echoed, or the socket takes no more, or the task has
  ended.
\<close>

theorem echo_server_serves_all:
  assumes "healthy E n s" "(inner_step E ^^ k) s t"
  shows "k \<le> load s \<and>
    ((\<exists>u. inner_step E t u) \<or>
     spc t = STurning \<and> events t = {} \<and> backlog t = [] \<and> length (conns t) = n \<and> (\<forall>c \<in> set (conns t). caught_up c))"
proof -
  have run: "k + load t \<le> load s" and h: "healthy E n t" using inner_run [OF assms(2,1)] by simp_all
  then have r: "sys_reach E sys_init t" and sm: "small t" and n: "length (conns t) + length (backlog t) = n"
    by (auto simp: healthy_def small_def)
  have "caught_up c" if "spc t = STurning" "events t = {}" "c \<in> set (conns t)" for c
    using at_rest_conn [OF r sm that] sys_reach_ok [OF r] that(3)
    by (cases "est c") (auto simp: caught_up_def streams_ok_def echo_ok_def)
  moreover note at_rest_backlog [OF r sm]
  ultimately show ?thesis using run n inner_progress [OF h] by auto
qed

theorem echo_server_serves_all_witness:
  "caught_up \<lparr>est = AtRead, strm = demo_stream True\<rparr>"
proof -
  let ?s = "demo_state [] {} True STurning"
  have "healthy (ref_env True) 1 ?s" using demo_reach by (simp add: healthy_def demo_state_def)
  from echo_server_serves_all [OF this, of 0 ?s] show ?thesis
    by (auto simp: demo_state_def elim: inner_step.cases)
qed

end
