(* ===== verification/Message_Stream.thy ===== *)
theory Message_Stream
  imports Blocking_Client
begin

text \<open>
  \<open>Subscriber::into_stream\<close> in \<open>src/mini-redis/src/clients/client.rs\<close>: the messages of a
  subscription as an asynchronous stream. The lemmas compare it with the iterator of the blocking
  client: both yield the same messages, but an error ends the stream.
\<close>

section \<open>The stream\<close>

text \<open>
  The generator of \<open>try_stream!\<close> is suspended in \<open>next_message\<close> or before it, or has returned; the
  first error is yielded and makes it return.
\<close>

datatype message_stream = StreamOf connection | StreamEnded

fun into_stream :: "env \<Rightarrow> message_stream \<Rightarrow> iter_result \<times> message_stream" where
  "into_stream E (StreamOf self) =
     (case next_message E self of
        Done (Ok (Some message, self)) \<Rightarrow> (Item (Ok message), StreamOf self)
      | Done (Ok (None, self)) \<Rightarrow> (IterEnd, StreamEnded)
      | Done (Err e) \<Rightarrow> (Item (Err e), StreamEnded)
      | Done (Panic p) \<Rightarrow> (Item (Panic p), StreamEnded)
      | Blocked self \<Rightarrow> (IterBlocked, StreamOf self))"
| "into_stream E StreamEnded = (IterEnd, StreamEnded)"

text \<open>A loop over the stream, at most \<open>n\<close> turns of it; \<open>True\<close> if the stream ended.\<close>

fun stream_loop :: "env \<Rightarrow> nat \<Rightarrow> message_stream \<Rightarrow> (message, crate_error) res list \<times> bool" where
  "stream_loop E 0 s = ([], False)"
| "stream_loop E (Suc n) s =
     (case into_stream E s of
        (IterEnd, s) \<Rightarrow> ([], True)
      | (Item r, s) \<Rightarrow> apfst (Cons r) (stream_loop E n s)
      | (IterBlocked, s) \<Rightarrow> ([], False))"

lemma ended_stream_loop: "stream_loop E n StreamEnded = ([], 0 < n)"
  by (cases n) simp_all

section \<open>Stream and iterator\<close>

text \<open>What comes before the first error, and the error.\<close>

fun until_error :: "('a, 'e) res list \<Rightarrow> ('a, 'e) res list" where
  "until_error [] = []"
| "until_error (Ok a # rs) = Ok a # until_error rs"
| "until_error (r # rs) = [r]"

lemma next_message_conn:
  assumes "next_message E c = Done (Ok (Some m, c'))"
  shows "read_frame_conn E c = c'"
proof -
  from assms obtain f where "read_frame E c = Ready (Ok (Some f, c'))"
    by (auto simp: next_message_def split: read_poll.splits res.splits option.splits frame.splits list.splits if_splits)
  then show ?thesis by (rule read_frame_conn_found)
qed

text \<open>
  The stream of the asynchronous client yields what the iterator of the blocking client does, up to
  the first error, which it yields too; then it has ended.
\<close>

theorem stream_follows_iterator:
  "fst (stream_loop E n (StreamOf c)) = until_error (fst (iter_loop E n c))"
proof (induction n arbitrary: c)
  case (Suc n)
  show ?case
  proof (cases "next_message E c")
    case (Done r)
    show ?thesis
    proof (cases r)
      case (Ok x)
      obtain m c' where x: "x = (m, c')" by (cases x)
      show ?thesis
      proof (cases m)
        case (Some a)
        with Done Ok x have n: "next_message E c = Done (Ok (Some a, c'))" by simp
        from Suc.IH [of c'] next_message_conn [OF n] n show ?thesis by (simp add: iter_next_def)
      qed (use Done Ok x in \<open>simp add: iter_next_def\<close>)
    qed (use Done in \<open>simp_all add: iter_next_def ended_stream_loop\<close>)
  qed (simp add: iter_next_def)
qed simp

text \<open>An error is followed by the end, where the iterator repeats it for ever.\<close>

lemma stream_ends_after_error:
  assumes "parse_frame E c = Err e"
  shows "stream_loop E (Suc (Suc n)) (StreamOf c) = ([Err e], True)"
  using assms by (simp add: next_message_def read_frame.simps)

text \<open>
  A stream over the messages \<open>ms\<close> of a subscription that the server then closes, in any packets,
  yields them in order and ends.
\<close>

lemma stream_messages:
  assumes "atoi_reads_decimal E" "list_all message_utf8 ms" "closes_after (map message_frame ms) c" "length ms < n"
  shows "stream_loop E n (StreamOf c) = (map Ok ms, True)"
  using assms(2-)
proof (induction ms arbitrary: c n)
  case Nil
  then show ?case by (cases n) (simp_all add: next_message_def closes_now)
next
  case (Cons m ms)
  then obtain k where k: "n = Suc k" "length ms < k" by (cases n) simp_all
  from Cons.prems have "closes_after (message_frame m # map message_frame ms) c" by simp
  from closes_after_read [OF assms(1) this] obtain c' where
    c': "read_frame E c = Ready (Ok (Some (message_frame m), c'))" "closes_after (map message_frame ms) c'" by blast
  have "next_message E c = Done (Ok (Some m, c'))" using next_message_frame [OF c'(1)] Cons.prems(1) by simp
  moreover from Cons.IH [OF _ c'(2) k(2)] Cons.prems(1) have "stream_loop E k (StreamOf c') = (map Ok ms, True)" by simp
  ultimately show ?case by (simp add: k(1))
qed

end
