(* ===== verification/Pub_Sub.thy ===== *)
theory Pub_Sub
  imports Subscriber "HOL-Library.Sublist"
begin

text \<open>
  Messages from publisher to subscriber: a connection in subscriber mode
  (\<open>src/mini-redis/src/cmd/subscribe.rs\<close>) together with the database, while other connections
  publish, subscribe and receive. What a subscriber is sent on a channel are messages published there
  since it subscribed, in that order and none twice, and all of them unless it falls more than
  1024 messages behind.
\<close>

section \<open>Receiving\<close>

text \<open>The results of \<open>broadcast::Receiver::recv\<close>, and of polling the stream of a subscription.\<close>

datatype recv = Received bytes | Lagged nat | RecvClosed | RecvPending

datatype polled = Yield bytes | Finished | NotReady

text \<open>
  The stream built in \<open>subscribe_to_channel\<close>: the loop around \<open>rx.recv()\<close>, which goes on after
  \<open>Lagged\<close>.
\<close>

partial_function (option) poll_messages ::
    "('rx \<Rightarrow> 'w \<Rightarrow> recv \<times> 'w) \<Rightarrow> 'rx \<Rightarrow> 'w \<Rightarrow> (polled \<times> 'w) option" where
  "poll_messages R rx w =
     (case R rx w of
        (Received msg, w) \<Rightarrow> Some (Yield msg, w)
      | (Lagged n, w) \<Rightarrow> poll_messages R rx w
      | (RecvClosed, w) \<Rightarrow> Some (Finished, w)
      | (RecvPending, w) \<Rightarrow> Some (NotReady, w))"

text \<open>
  What the repository relies on in \<open>tokio::sync::broadcast\<close>, by a view of every receiver: the channel
  it belongs to and the messages it has still to receive. A new channel has a new sender and a new
  receiver; a new receiver has nothing to receive; a message goes to every receiver of its channel,
  at the cost of the oldest one when 1024 wait; \<open>recv\<close> takes the oldest, and says once in between
  if some were lost.
\<close>

definition retain :: "bytes list \<Rightarrow> bytes \<Rightarrow> bytes list" where
  "retain q msg = (if length q < 1024 then q else tl q) @ [msg]"

definition broadcast_delivers ::
    "('w, 'tx, 'rx) broadcast \<Rightarrow> ('rx \<Rightarrow> 'w \<Rightarrow> recv \<times> 'w) \<Rightarrow> ('w \<Rightarrow> 'rx \<Rightarrow> ('tx \<times> bytes list) option) \<Rightarrow> bool" where
  "broadcast_delivers B R view \<longleftrightarrow>
     (\<forall>w tx rx w'. bc_channel B 1024 w = (tx, rx, w') \<longrightarrow>
        view w rx = None \<and> (\<forall>r q. view w r \<noteq> Some (tx, q)) \<and> view w' = (view w)(rx \<mapsto> (tx, []))) \<and>
     (\<forall>w tx rx w'. bc_subscribe B tx w = (rx, w') \<longrightarrow> view w rx = None \<and> view w' = (view w)(rx \<mapsto> (tx, []))) \<and>
     (\<forall>w tx msg n w'. bc_send B tx msg w = (n, w') \<longrightarrow>
        view w' = (\<lambda>r. map_option (\<lambda>(t, q). (t, if t = tx then retain q msg else q)) (view w r))) \<and>
     (\<forall>w rx tx q x w'. view w rx = Some (tx, q) \<longrightarrow> R rx w = (x, w') \<longrightarrow>
        (case x of
           Received msg \<Rightarrow> \<exists>q'. q = msg # q' \<and> view w' = (view w)(rx \<mapsto> (tx, q'))
         | Lagged n \<Rightarrow> view w' = view w \<and> (\<forall>k. fst (R rx w') \<noteq> Lagged k)
         | RecvClosed \<Rightarrow> q = [] \<and> view w' = view w
         | RecvPending \<Rightarrow> q = [] \<and> view w' = view w)) \<and>
     (\<forall>w rx. view w rx = None \<longrightarrow> view (snd (R rx w)) = view w)"

text \<open>And in \<open>StreamMap\<close>: the stream under a key is the one inserted last.\<close>

definition stream_map_gets :: "('m, 'rx) stream_map \<Rightarrow> ('m \<Rightarrow> bytes \<rightharpoonup> 'rx) \<Rightarrow> bool" where
  "stream_map_gets M G \<longleftrightarrow>
     G (sm_new M) = Map.empty \<and> (\<forall>k r m. G (sm_insert M k r m) = (G m)(k \<mapsto> r)) \<and>
     (\<forall>k m. G (sm_remove M k m) = (G m)(k := None))"

lemma delivers_channel:
  assumes "broadcast_delivers B R view" "bc_channel B 1024 w = (tx, rx, w')"
  shows "view w rx = None" "view w r \<noteq> Some (tx, q)" "view w' = (view w)(rx \<mapsto> (tx, []))"
  using assms by (auto simp: broadcast_delivers_def)

lemma delivers_subscribe:
  assumes "broadcast_delivers B R view" "bc_subscribe B tx w = (rx, w')"
  shows "view w rx = None" "view w' = (view w)(rx \<mapsto> (tx, []))"
  using assms by (auto simp: broadcast_delivers_def)

lemma delivers_send:
  assumes "broadcast_delivers B R view" "bc_send B tx msg w = (n, w')"
  shows "view w' r = map_option (\<lambda>(t, q). (t, if t = tx then retain q msg else q)) (view w r)"
  using assms by (auto simp: broadcast_delivers_def)

lemma delivers_recv:
  assumes "broadcast_delivers B R view" "view w rx = Some (tx, q)" "R rx w = (x, w')"
  shows "case x of
      Received msg \<Rightarrow> \<exists>q'. q = msg # q' \<and> view w' = (view w)(rx \<mapsto> (tx, q'))
    | Lagged n \<Rightarrow> view w' = view w \<and> (\<forall>k. fst (R rx w') \<noteq> Lagged k)
    | RecvClosed \<Rightarrow> q = [] \<and> view w' = view w
    | RecvPending \<Rightarrow> q = [] \<and> view w' = view w"
  using assms unfolding broadcast_delivers_def by blast

text \<open>Polling returns, and yields the oldest message exactly when there is one.\<close>

lemma poll_messages_total:
  assumes B: "broadcast_delivers B R view" and v: "view w rx = Some (tx, q)"
  shows "\<exists>x w'. poll_messages R rx w = Some (x, w') \<and>
    (case q of [] \<Rightarrow> (x = NotReady \<or> x = Finished) \<and> view w' = view w
     | msg # q' \<Rightarrow> x = Yield msg \<and> view w' = (view w)(rx \<mapsto> (tx, q')))"
proof -
  have direct: "\<exists>x w'. poll_messages R rx w = Some (x, w') \<and>
    (case q of [] \<Rightarrow> (x = NotReady \<or> x = Finished) \<and> view w' = view w
     | msg # q' \<Rightarrow> x = Yield msg \<and> view w' = (view w)(rx \<mapsto> (tx, q')))"
    if "view w rx = Some (tx, q)" "\<And>k. fst (R rx w) \<noteq> Lagged k" for w
  proof -
    obtain x w' where r: "R rx w = (x, w')" by (metis surj_pair)
    note step = delivers_recv [OF B that(1) r]
    show ?thesis
    proof (cases x)
      case (Lagged k)
      with that(2) [of k] r show ?thesis by simp
    qed (use step r in \<open>auto simp: poll_messages.simps [of R rx w] split: list.splits\<close>)
  qed
  obtain x w' where r: "R rx w = (x, w')" by (metis surj_pair)
  show ?thesis
  proof (cases x)
    case (Lagged n)
    from delivers_recv [OF B v r] Lagged have w': "view w' = view w" "\<And>k. fst (R rx w') \<noteq> Lagged k" by simp_all
    have "poll_messages R rx w = poll_messages R rx w'" using r Lagged by (simp add: poll_messages.simps [of R rx w])
    then show ?thesis using direct [of w', unfolded w'(1), OF v w'(2)] by (simp only:)
  qed (rule direct [OF v], use r in simp)+
qed

section \<open>Subscribing\<close>

text \<open>Every channel name has a sender of its own, with a receiver.\<close>

definition bus_ok :: "('w \<Rightarrow> 'rx \<Rightarrow> ('tx \<times> bytes list) option) \<Rightarrow> ('tx, 'w, 'n) system \<Rightarrow> bool" where
  "bus_ok view s \<longleftrightarrow>
     (\<forall>ch tx. pub_sub (state (shared s)) ch = Some tx \<longrightarrow>
        (\<exists>r q. view (world s) r = Some (tx, q)) \<and> (\<forall>ch'. pub_sub (state (shared s)) ch' = Some tx \<longrightarrow> ch' = ch))"

lemma bus_okD:
  assumes "bus_ok view s" "pub_sub (state (shared s)) ch = Some tx"
  shows "\<exists>r q. view (world s) r = Some (tx, q)" "pub_sub (state (shared s)) ch' = Some tx \<Longrightarrow> ch' = ch"
  using assms unfolding bus_ok_def by blast+

lemma bus_okI:
  assumes "\<And>ch tx. pub_sub (state (shared s)) ch = Some tx \<Longrightarrow> \<exists>r q. view (world s) r = Some (tx, q)"
    and "\<And>ch ch' tx. pub_sub (state (shared s)) ch = Some tx \<Longrightarrow> pub_sub (state (shared s)) ch' = Some tx \<Longrightarrow> ch' = ch"
  shows "bus_ok view s"
  using assms unfolding bus_ok_def by blast

text \<open>Receivers are only added: those that a map \<open>g'\<close> of subscriptions has and \<open>g\<close> has not are new and empty.\<close>

definition joins ::
    "('w \<Rightarrow> 'rx \<Rightarrow> ('tx \<times> bytes list) option) \<Rightarrow> (bytes \<rightharpoonup> 'rx) \<Rightarrow> ('tx, 'w, 'n) system \<Rightarrow>
      (bytes \<rightharpoonup> 'rx) \<Rightarrow> ('tx, 'w, 'n) system \<Rightarrow> bool" where
  "joins view g s g' s' \<longleftrightarrow>
     bus_ok view s' \<and> pub_sub (state (shared s)) \<subseteq>\<^sub>m pub_sub (state (shared s')) \<and> view (world s) \<subseteq>\<^sub>m view (world s') \<and>
     (\<forall>ch rx. g' ch = Some rx \<longrightarrow> g ch = Some rx \<or>
        view (world s) rx = None \<and>
        (\<exists>tx. pub_sub (state (shared s')) ch = Some tx \<and> view (world s') rx = Some (tx, [])))"

lemma map_leD: "f \<subseteq>\<^sub>m g \<Longrightarrow> f x = Some y \<Longrightarrow> g x = Some y"
  by (metis domI map_le_def)

lemma joinsD:
  assumes "joins view g s g' s'"
  shows "bus_ok view s'"
    and "pub_sub (state (shared s)) ch = Some tx \<Longrightarrow> pub_sub (state (shared s')) ch = Some tx"
    and "view (world s) rx = Some v \<Longrightarrow> view (world s') rx = Some v"
    and "g' ch = Some rx \<Longrightarrow> g ch \<noteq> Some rx \<Longrightarrow> view (world s) rx = None"
    and "g' ch = Some rx \<Longrightarrow> g ch \<noteq> Some rx \<Longrightarrow>
      \<exists>tx. pub_sub (state (shared s')) ch = Some tx \<and> view (world s') rx = Some (tx, [])"
  using assms unfolding joins_def by (blast intro: map_leD)+

lemma joins_refl: "bus_ok view s \<Longrightarrow> joins view g s g s"
  by (simp add: joins_def)

lemma joins_trans:
  assumes 1: "joins view g s g' s'" and 2: "joins view g' s' g'' s''"
  shows "joins view g s g'' s''"
proof -
  have new: "view (world s) rx = None \<and>
      (\<exists>tx. pub_sub (state (shared s'')) ch = Some tx \<and> view (world s'') rx = Some (tx, []))"
    if a: "g'' ch = Some rx" "g ch \<noteq> Some rx" for ch rx
  proof (cases "g' ch = Some rx")
    case True
    from joinsD(4,5) [OF 1 True a(2)] obtain tx where "view (world s) rx = None"
      "pub_sub (state (shared s')) ch = Some tx" "view (world s') rx = Some (tx, [])" by blast
    with joinsD(2,3) [OF 2] show ?thesis by blast
  next
    case False
    note n = joinsD(4,5) [OF 2 a(1) False]
    have "view (world s) rx = None"
    proof (cases "view (world s) rx")
      case (Some v)
      from joinsD(3) [OF 1 this] n(1) show ?thesis by simp
    qed
    with n(2) show ?thesis by simp
  qed
  from 1 2 have "pub_sub (state (shared s)) \<subseteq>\<^sub>m pub_sub (state (shared s''))"
    "view (world s) \<subseteq>\<^sub>m view (world s'')" "bus_ok view s''"
    by (auto simp: joins_def intro: map_le_trans)
  with new show ?thesis unfolding joins_def by blast
qed

lemma subscribe_joins:
  assumes B: "broadcast_delivers B R view" and ok: "bus_ok view s"
    and sub: "run_pub_sub (db_subscribe B ch) s = (Ok rx, s')"
  shows "joins view g s (g(ch \<mapsto> rx)) s'"
proof -
  have np: "\<not> poisoned (shared s)" using sub by (auto simp: run_pub_sub_def db_subscribe_def)
  show ?thesis
  proof (cases "pub_sub (state (shared s)) ch")
    case None
    obtain tx rx' w' where c: "bc_channel B 1024 (world s) = (tx, rx', w')" using prod_cases3 by blast
    note law = delivers_channel [OF B c]
    have f: "rx' = rx" "world s' = w'" "pub_sub (state (shared s')) = (pub_sub (state (shared s)))(ch \<mapsto> tx)"
      using sub np None c by (auto simp: run_pub_sub_def db_subscribe_def)
    have fresh: "pub_sub (state (shared s)) ch' \<noteq> Some tx" for ch'
      using bus_okD(1) [OF ok, of ch' tx] law(2) by blast
    have sender: "\<exists>r q. view (world s') r = Some (tx1, q)" if "pub_sub (state (shared s)) ch1 = Some tx1" for ch1 tx1
    proof -
      from bus_okD(1) [OF ok that] obtain r q where r: "view (world s) r = Some (tx1, q)" by blast
      with law(1) have "r \<noteq> rx'" by auto
      with r f(2) law(3) show ?thesis by auto
    qed
    have "bus_ok view s'"
    proof (rule bus_okI)
      fix ch1 tx1
      assume "pub_sub (state (shared s')) ch1 = Some tx1"
      with sender [of ch1 tx1] f law(3) show "\<exists>r q. view (world s') r = Some (tx1, q)"
        by (auto split: if_splits)
    next
      fix ch1 ch' tx1
      assume "pub_sub (state (shared s')) ch1 = Some tx1" "pub_sub (state (shared s')) ch' = Some tx1"
      with bus_okD(2) [OF ok, of ch1 tx1 ch'] f fresh show "ch' = ch1" by (auto split: if_splits)
    qed
    moreover have "pub_sub (state (shared s)) \<subseteq>\<^sub>m pub_sub (state (shared s'))" "view (world s) \<subseteq>\<^sub>m view (world s')"
      using f None law by (auto simp: map_le_def)
    ultimately show ?thesis using f law by (auto simp: joins_def)
  next
    case (Some tx)
    obtain rx' w' where c: "bc_subscribe B tx (world s) = (rx', w')" by (metis surj_pair)
    note law = delivers_subscribe [OF B c]
    have f: "rx' = rx" "world s' = w'" "pub_sub (state (shared s')) = pub_sub (state (shared s))"
      using sub np Some c by (auto simp: run_pub_sub_def db_subscribe_def)
    have le: "view (world s) \<subseteq>\<^sub>m view (world s')" using f law by (auto simp: map_le_def)
    have "bus_ok view s'"
    proof (rule bus_okI)
      fix ch1 tx1
      assume "pub_sub (state (shared s')) ch1 = Some tx1"
      with bus_okD(1) [OF ok, of ch1 tx1] f(3) le show "\<exists>r q. view (world s') r = Some (tx1, q)"
        by (auto dest: map_leD)
    next
      fix ch1 ch' tx1
      assume "pub_sub (state (shared s')) ch1 = Some tx1" "pub_sub (state (shared s')) ch' = Some tx1"
      with bus_okD(2) [OF ok, of ch1 tx1 ch'] f(3) show "ch' = ch1" by simp
    qed
    with f law Some le show ?thesis by (auto simp: joins_def)
  qed
qed

lemma subscribe_channels_joins:
  assumes B: "broadcast_delivers B R view" and G: "stream_map_gets M G"
  shows "bus_ok view s \<Longrightarrow> subscribe_channels B M chs m dst s = (Ok (m', dst'), s') \<Longrightarrow>
    joins view (G m) s (G m') s'"
proof (induction chs arbitrary: m dst s)
  case (Cons ch chs)
  obtain r t where r: "run_pub_sub (db_subscribe B ch) s = (r, t)" by (metis surj_pair)
  with Cons.prems(2) obtain rx m1 d1 where rx: "r = Ok rx" "m1 = sm_insert M ch rx m"
    "subscribe_channels B M chs m1 d1 t = (Ok (m', dst'), s')"
    by (cases r) (auto simp: subscribe_to_channel_def Let_def and_then_def st_then_def split: res.splits)
  have j: "joins view (G m) s (G m1) t"
    using subscribe_joins [OF B Cons.prems(1), of ch rx t "G m"] r rx G by (simp add: stream_map_gets_def)
  then have "bus_ok view t" by (simp add: joins_def)
  from joins_trans [OF j Cons.IH [OF this rx(3)]] show ?case .
qed (simp add: joins_refl)

lemma unsubscribe_loop_leaves:
  assumes "stream_map_gets M G"
  shows "unsubscribe_loop M chs m dst = Ok (m', dst') \<Longrightarrow> G m' \<subseteq>\<^sub>m G m"
proof (induction chs arbitrary: m dst)
  case (Cons ch chs)
  then obtain d1 where "unsubscribe_loop M chs (sm_remove M ch m) d1 = Ok (m', dst')"
    by (auto simp: Let_def and_then_def split: res.splits)
  from Cons.IH [OF this] have "G m' \<subseteq>\<^sub>m (G m)(ch := None)" using assms unfolding stream_map_gets_def by metis
  then show ?case using upd_None_map_le by (rule map_le_trans)
qed simp

lemma handle_command_leaves:
  assumes "stream_map_gets M G" "handle_command E M f [] m dst = Ok (chs, m', dst')"
  shows "G m' \<subseteq>\<^sub>m G m"
proof (cases "from_frame E f")
  case (Ok c)
  with assms(2) show ?thesis
    by (cases c)
      (auto simp: handle_command_def Let_def and_then_def split: res.splits dest: unsubscribe_loop_leaves [OF assms(1)])
qed (use assms(2) in \<open>simp_all add: handle_command_def\<close>)

lemma joins_mono:
  assumes j: "joins view g s g' s'" and le: "g \<subseteq>\<^sub>m h"
  shows "joins view h s g' s'"
proof -
  have "g ch \<noteq> Some rx" if "h ch \<noteq> Some rx" for ch rx using map_leD [OF le] that by blast
  then have "h ch = Some rx \<or> view (world s) rx = None \<and>
      (\<exists>tx. pub_sub (state (shared s')) ch = Some tx \<and> view (world s') rx = Some (tx, []))"
    if "g' ch = Some rx" for ch rx using joinsD(4,5) [OF j that] by blast
  with j show ?thesis unfolding joins_def by blast
qed

section \<open>A subscriber among other connections\<close>

text \<open>
  A connection in the loop of \<open>Subscribe::apply\<close>. For every channel the state records what was
  published there since the connection subscribed to it, which of that was sent to the client, and
  whether more than 1024 messages were ever waiting in between.
\<close>

record ('tx, 'w, 'n, 'm) feed =
  f_subs :: 'm
  f_conn :: connection
  f_sys :: "('tx, 'w, 'n) system"
  f_since :: "bytes \<Rightarrow> bytes list"
  f_got :: "bytes \<Rightarrow> bytes list"
  f_behind :: "bytes \<Rightarrow> bool"

definition feed_start :: "'m \<Rightarrow> connection \<Rightarrow> ('tx, 'w, 'n) system \<Rightarrow> ('tx, 'w, 'n, 'm) feed" where
  "feed_start m dst s = \<lparr>f_subs = m, f_conn = dst, f_sys = s, f_since = (\<lambda>_. []), f_got = (\<lambda>_. []), f_behind = (\<lambda>_. False)\<rparr>"

text \<open>
  The steps of the other connections and of the background task: publishing (with what was published),
  subscribing, receiving from a receiver that is not \<open>own\<close>, and all that does not touch the channels.
\<close>

inductive bus_step for B N R where
  bus_publish: "run_pub_sub (db_publish B ch msg) s = (Ok n, s') \<Longrightarrow> bus_step B N R own s (Some (ch, msg)) s'"
| bus_subscribe: "run_pub_sub (db_subscribe B ch) s = (Ok rx, s') \<Longrightarrow> bus_step B N R own s None s'"
| bus_receive: "rx \<notin> own \<Longrightarrow> bus_step B N R own s None (s\<lparr>world := snd (R rx (world s))\<rparr>)"
| bus_other: "env_step B N s s' \<or> task_step N s s' \<Longrightarrow> world s' = world s \<Longrightarrow>
    pub_sub (state (shared s')) = pub_sub (state (shared s)) \<Longrightarrow> bus_step B N R own s None s'"

fun note_published :: "(bytes \<times> bytes) option \<Rightarrow> ('tx, 'w, 'n, 'm) feed \<Rightarrow> ('tx, 'w, 'n, 'm) feed" where
  "note_published None s = s"
| "note_published (Some (ch, msg)) s =
     s\<lparr>f_since := (f_since s)(ch := f_since s ch @ [msg]),
       f_behind := (f_behind s)(ch := f_behind s ch \<or> length (f_got s ch) + 1024 < Suc (length (f_since s ch)))\<rparr>"

text \<open>A channel that was left or joined has a new receiver or none, and its history begins again.\<close>

definition renew :: "(bytes \<rightharpoonup> 'rx) \<Rightarrow> (bytes \<rightharpoonup> 'rx) \<Rightarrow> ('tx, 'w, 'n, 'm) feed \<Rightarrow> ('tx, 'w, 'n, 'm) feed" where
  "renew g g' s =
     s\<lparr>f_since := (\<lambda>ch. if g' ch = g ch then f_since s ch else []),
       f_got := (\<lambda>ch. if g' ch = g ch then f_got s ch else []),
       f_behind := (\<lambda>ch. g' ch = g ch \<and> f_behind s ch)\<rparr>"

inductive feed_step for E B N M R G where
  feed_bus: "bus_step B N R (ran (G (f_subs s))) (f_sys s) pub sy \<Longrightarrow>
    feed_step E B N M R G s (note_published pub (s\<lparr>f_sys := sy\<rparr>))"
| feed_bytes: "feed_step E B N M R G s (s\<lparr>f_conn := (f_conn s)\<lparr>inbound := inbound (f_conn s) @ [ev]\<rparr>\<rparr>)"
| feed_message: "G (f_subs s) ch = Some rx \<Longrightarrow> poll_messages R rx (world (f_sys s)) = Some (Yield msg, w) \<Longrightarrow>
    subscribe_select E B M (SelMessage ch msg) (f_subs s) (f_conn s) ((f_sys s)\<lparr>world := w\<rparr>) =
      (SubWaiting m dst, sy) \<Longrightarrow>
    feed_step E B N M R G s
      (s\<lparr>f_subs := m, f_conn := dst, f_sys := sy, f_got := (f_got s)(ch := f_got s ch @ [msg])\<rparr>)"
| feed_frame: "subscribe_select E B M SelFrame (f_subs s) (f_conn s) (f_sys s) = (SubWaiting m dst, sy) \<Longrightarrow>
    feed_step E B N M R G s (renew (G (f_subs s)) (G m) (s\<lparr>f_subs := m, f_conn := dst, f_sys := sy\<rparr>))"

text \<open>From the start of the server, through a \<open>SUBSCRIBE\<close> command.\<close>

inductive feed_reachable for E B N M R G where
  feed_enter: "(\<lambda>s s'. \<exists>pub. bus_step B N R {} s pub s')\<^sup>*\<^sup>* (initial N w t) s \<Longrightarrow>
    subscribe_enter B M cmd dst s = (SubWaiting m dst', s') \<Longrightarrow> feed_reachable E B N M R G (feed_start m dst' s')"
| feed_next: "feed_reachable E B N M R G s \<Longrightarrow> feed_step E B N M R G s s' \<Longrightarrow> feed_reachable E B N M R G s'"

section \<open>Nothing is lost or reordered\<close>

definition feed_ok ::
    "('w \<Rightarrow> 'rx \<Rightarrow> ('tx \<times> bytes list) option) \<Rightarrow> ('m \<Rightarrow> bytes \<rightharpoonup> 'rx) \<Rightarrow> ('tx, 'w, 'n, 'm) feed \<Rightarrow> bool" where
  "feed_ok view G s \<longleftrightarrow>
     bus_ok view (f_sys s) \<and>
     (\<forall>ch rx. G (f_subs s) ch = Some rx \<longrightarrow>
        (\<exists>tx q. pub_sub (state (shared (f_sys s))) ch = Some tx \<and> view (world (f_sys s)) rx = Some (tx, q) \<and>
           subseq (f_got s ch @ q) (f_since s ch) \<and> (\<not> f_behind s ch \<longrightarrow> f_got s ch @ q = f_since s ch)))"

lemma feed_okD:
  assumes "feed_ok view G s" "G (f_subs s) ch = Some rx"
  obtains tx q where "pub_sub (state (shared (f_sys s))) ch = Some tx" "view (world (f_sys s)) rx = Some (tx, q)"
    "subseq (f_got s ch @ q) (f_since s ch)" "\<not> f_behind s ch \<Longrightarrow> f_got s ch @ q = f_since s ch"
  using assms unfolding feed_ok_def by blast

lemma subseq_retain: "subseq (xs @ q) ys \<Longrightarrow> subseq (xs @ retain q m) (ys @ [m])"
proof -
  assume s: "subseq (xs @ q) ys"
  have "subseq (tl q) q" by (cases q) auto
  then have "subseq (xs @ tl q) (xs @ q)" by (simp add: list_emb_append_mono)
  then have "subseq (xs @ tl q) ys" using s by (rule subseq_order.trans)
  then have "subseq ((xs @ tl q) @ [m]) (ys @ [m])" "subseq ((xs @ q) @ [m]) (ys @ [m])"
    using s by (simp_all only: list_emb_append_mono subseq_order.refl)
  then show ?thesis by (simp add: retain_def)
qed

lemma recv_view:
  assumes "broadcast_delivers B R view"
  shows "r \<noteq> rx \<Longrightarrow> view (snd (R rx w)) r = view w r"
    and "view w r = Some (tx, q) \<Longrightarrow> \<exists>q'. view (snd (R rx w)) r = Some (tx, q')"
proof -
  obtain x w' where r: "R rx w = (x, w')" by (metis surj_pair)
  have none: "view w rx = None \<Longrightarrow> view w' = view w" using assms r unfolding broadcast_delivers_def by (metis snd_conv)
  have some: "\<exists>q'. view w' = (view w)(rx \<mapsto> (t, q'))" if "view w rx = Some (t, p)" for t p
    using delivers_recv [OF assms that r] that by (cases x) (auto intro: exI [of _ p] simp: fun_upd_idem)
  have other: "view w' r = view w r" if "r \<noteq> rx" for r
  proof (cases "view w rx")
    case (Some p)
    with some [of "fst p" "snd p"] that show ?thesis by auto
  qed (simp add: none)
  with r show "r \<noteq> rx \<Longrightarrow> view (snd (R rx w)) r = view w r" by simp
  show "view w r = Some (tx, q) \<Longrightarrow> \<exists>q'. view (snd (R rx w)) r = Some (tx, q')"
    using other [of r] some [of tx q] r by (cases "r = rx") auto
qed

lemma bus_ok_same:
  assumes "bus_ok view s" "pub_sub (state (shared s')) = pub_sub (state (shared s))"
    and "\<And>r tx q. view (world s) r = Some (tx, q) \<Longrightarrow> \<exists>r q. view (world s') r = Some (tx, q)"
  shows "bus_ok view s'"
proof (rule bus_okI)
  fix ch tx
  assume "pub_sub (state (shared s')) ch = Some tx"
  with bus_okD(1) [OF assms(1), of ch tx] assms(2,3) show "\<exists>r q. view (world s') r = Some (tx, q)" by metis
next
  fix ch ch' tx
  assume "pub_sub (state (shared s')) ch = Some tx" "pub_sub (state (shared s')) ch' = Some tx"
  with bus_okD(2) [OF assms(1)] assms(2) show "ch' = ch" by metis
qed

text \<open>Publishing appends to what the receivers of the channel have still to receive.\<close>

lemma publish_view:
  assumes B: "broadcast_delivers B R view" and p: "run_pub_sub (db_publish B ch msg) s = (Ok n, s')"
  shows "pub_sub (state (shared s')) = pub_sub (state (shared s))"
    and "view (world s') r = map_option (\<lambda>(t, q). (t, if pub_sub (state (shared s)) ch = Some t then retain q msg else q))
      (view (world s) r)"
proof -
  show "pub_sub (state (shared s')) = pub_sub (state (shared s))"
    using p by (auto simp: run_pub_sub_def db_publish_def split: option.splits prod.splits if_splits)
  show "view (world s') r = map_option (\<lambda>(t, q). (t, if pub_sub (state (shared s)) ch = Some t then retain q msg else q))
      (view (world s) r)"
  proof (cases "pub_sub (state (shared s)) ch")
    case None
    with p have "world s' = world s" by (auto simp: run_pub_sub_def db_publish_def split: if_splits)
    with None show ?thesis by (cases "view (world s) r") auto
  next
    case (Some tx)
    obtain k w' where c: "bc_send B tx msg (world s) = (k, w')" by (metis surj_pair)
    with p Some have "world s' = w'" by (auto simp: run_pub_sub_def db_publish_def split: if_splits)
    with delivers_send [OF B c, of r] Some show ?thesis by (auto intro!: option.map_cong)
  qed
qed

lemma bus_step_ok:
  assumes B: "broadcast_delivers B R view" and ok: "bus_ok view s" and st: "bus_step B N R own s pub s'"
  shows "bus_ok view s'"
  using st
proof cases
  case (bus_publish ch msg n)
  note p = publish_view [OF B bus_publish(2)]
  show ?thesis by (rule bus_ok_same [OF ok p(1)]) (auto simp: p(2))
next
  case (bus_subscribe ch rx)
  from joinsD(1) [OF subscribe_joins [OF B ok bus_subscribe(2), where g = Map.empty]] show ?thesis .
next
  case (bus_receive rx)
  show ?thesis
  proof (rule bus_ok_same [OF ok])
    fix r tx q
    assume "view (world s) r = Some (tx, q)"
    from recv_view(2) [OF B this, of rx] show "\<exists>r q. view (world s') r = Some (tx, q)"
      unfolding bus_receive by auto
  qed (simp add: bus_receive)
next
  case bus_other
  show ?thesis by (rule bus_ok_same [OF ok]) (auto simp: bus_other)
qed

section \<open>The steps of the subscriber\<close>

lemma feed_okI:
  assumes "bus_ok view (f_sys s)"
    and "\<And>ch rx. G (f_subs s) ch = Some rx \<Longrightarrow>
      \<exists>tx q. pub_sub (state (shared (f_sys s))) ch = Some tx \<and> view (world (f_sys s)) rx = Some (tx, q) \<and>
        subseq (f_got s ch @ q) (f_since s ch) \<and> (\<not> f_behind s ch \<longrightarrow> f_got s ch @ q = f_since s ch)"
  shows "feed_ok view G s"
  using assms unfolding feed_ok_def by blast

lemma feed_publish:
  assumes B: "broadcast_delivers B R view" and ok: "feed_ok view G s"
    and p: "run_pub_sub (db_publish B ch0 msg) (f_sys s) = (Ok n, sy)"
  shows "feed_ok view G (note_published (Some (ch0, msg)) (s\<lparr>f_sys := sy\<rparr>))"
proof (rule feed_okI)
  note pv = publish_view [OF B p]
  have bus: "bus_ok view (f_sys s)" using ok by (simp add: feed_ok_def)
  from bus_step_ok [OF B bus bus_step.bus_publish [OF p, where N = undefined and own = "{}"]]
  show "bus_ok view (f_sys (note_published (Some (ch0, msg)) (s\<lparr>f_sys := sy\<rparr>)))" by simp
  fix ch rx
  let ?s = "note_published (Some (ch0, msg)) (s\<lparr>f_sys := sy\<rparr>)"
  assume "G (f_subs ?s) ch = Some rx"
  then have "G (f_subs s) ch = Some rx" by simp
  with ok obtain tx q where v: "pub_sub (state (shared (f_sys s))) ch = Some tx"
    "view (world (f_sys s)) rx = Some (tx, q)" "subseq (f_got s ch @ q) (f_since s ch)"
    "\<not> f_behind s ch \<Longrightarrow> f_got s ch @ q = f_since s ch" by (rule feed_okD) blast
  have same: "pub_sub (state (shared (f_sys s))) ch0 = Some tx \<longleftrightarrow> ch0 = ch"
    using bus_okD(2) [OF bus v(1)] v(1) by blast
  let ?q = "if ch0 = ch then retain q msg else q"
  have "pub_sub (state (shared (f_sys ?s))) ch = Some tx" "view (world (f_sys ?s)) rx = Some (tx, ?q)"
    using v(1,2) same by (simp_all add: pv)
  moreover have "subseq (f_got ?s ch @ ?q) (f_since ?s ch)" using v(3) subseq_retain [OF v(3)] by auto
  moreover have "f_got ?s ch @ ?q = f_since ?s ch" if "\<not> f_behind ?s ch"
  proof (cases "ch0 = ch")
    case True
    with that v(4) have e: "f_got s ch @ q = f_since s ch" and l: "length (f_since s ch) < length (f_got s ch) + 1024"
      by auto
    have "length q < 1024" using l unfolding e [symmetric] by simp
    with e True show ?thesis by (simp add: retain_def flip: append_assoc)
  qed (use that v(4) in simp)
  ultimately show "\<exists>tx q. pub_sub (state (shared (f_sys ?s))) ch = Some tx \<and> view (world (f_sys ?s)) rx = Some (tx, q) \<and>
        subseq (f_got ?s ch @ q) (f_since ?s ch) \<and> (\<not> f_behind ?s ch \<longrightarrow> f_got ?s ch @ q = f_since ?s ch)" by blast
qed

text \<open>Steps that leave the subscriptions and what waits for them alone.\<close>

lemma feed_keep:
  assumes "feed_ok view G s" "bus_ok view sy"
    and "\<And>ch tx. pub_sub (state (shared (f_sys s))) ch = Some tx \<Longrightarrow> pub_sub (state (shared sy)) ch = Some tx"
    and "\<And>ch rx v. G (f_subs s) ch = Some rx \<Longrightarrow> view (world (f_sys s)) rx = Some v \<Longrightarrow> view (world sy) rx = Some v"
  shows "feed_ok view G (s\<lparr>f_sys := sy\<rparr>)"
proof (rule feed_okI)
  fix ch rx
  assume g: "G (f_subs (s\<lparr>f_sys := sy\<rparr>)) ch = Some rx"
  then have "G (f_subs s) ch = Some rx" by simp
  with assms(1) obtain tx q where "pub_sub (state (shared (f_sys s))) ch = Some tx"
    "view (world (f_sys s)) rx = Some (tx, q)" "subseq (f_got s ch @ q) (f_since s ch)"
    "\<not> f_behind s ch \<Longrightarrow> f_got s ch @ q = f_since s ch" by (rule feed_okD) blast
  with assms(3) [of ch tx] assms(4) [of ch rx "(tx, q)"] g
  show "\<exists>tx q. pub_sub (state (shared (f_sys (s\<lparr>f_sys := sy\<rparr>)))) ch = Some tx \<and>
      view (world (f_sys (s\<lparr>f_sys := sy\<rparr>))) rx = Some (tx, q) \<and>
      subseq (f_got (s\<lparr>f_sys := sy\<rparr>) ch @ q) (f_since (s\<lparr>f_sys := sy\<rparr>) ch) \<and>
      (\<not> f_behind (s\<lparr>f_sys := sy\<rparr>) ch \<longrightarrow> f_got (s\<lparr>f_sys := sy\<rparr>) ch @ q = f_since (s\<lparr>f_sys := sy\<rparr>) ch)"
    by simp
qed (simp add: assms(2))

lemma feed_bus_ok:
  assumes B: "broadcast_delivers B R view" and ok: "feed_ok view G s"
    and st: "bus_step B N R (ran (G (f_subs s))) (f_sys s) pub sy"
  shows "feed_ok view G (note_published pub (s\<lparr>f_sys := sy\<rparr>))"
proof -
  have bus: "bus_ok view (f_sys s)" using ok by (simp add: feed_ok_def)
  note bus' = bus_step_ok [OF B bus st]
  from st show ?thesis
  proof cases
    case (bus_publish ch msg n)
    from feed_publish [OF B ok bus_publish(2)] show ?thesis unfolding bus_publish(1) .
  next
    case (bus_subscribe ch rx)
    note j = subscribe_joins [OF B bus bus_subscribe(2), of Map.empty]
    have "feed_ok view G (s\<lparr>f_sys := sy\<rparr>)" by (rule feed_keep [OF ok bus' joinsD(2,3) [OF j]])
    with bus_subscribe show ?thesis by simp
  next
    case (bus_receive rx)
    have "r \<noteq> rx" if "G (f_subs s) ch = Some r" for ch r using that bus_receive(3) by (auto simp: ran_def)
    with recv_view(1) [OF B] bus_receive(2) have "feed_ok view G (s\<lparr>f_sys := sy\<rparr>)"
      by (intro feed_keep [OF ok bus']) simp_all
    with bus_receive show ?thesis by simp
  next
    case bus_other
    have "feed_ok view G (s\<lparr>f_sys := sy\<rparr>)" by (rule feed_keep [OF ok bus']) (simp_all add: bus_other)
    with bus_other show ?thesis by simp
  qed
qed

lemma select_message:
  assumes "subscribe_select E B M (SelMessage ch msg) m dst s = (SubWaiting m' dst', s')"
  shows "m' = m" "s' = s" "write_frame dst (Array [Bulk ''message'', Bulk ch, Bulk msg]) = Ok dst'"
  using assms
  by (cases "write_frame dst (Array [Bulk ''message'', Bulk ch, Bulk msg])"; simp add: subscribe_select_def)+

lemma select_frame_joins:
  assumes B: "broadcast_delivers B R view" and G: "stream_map_gets M G" and ok: "bus_ok view s"
    and sel: "subscribe_select E B M SelFrame m dst s = (SubWaiting m' dst', s')"
  shows "joins view (G m) s (G m') s'"
proof (cases "\<exists>f d. read_frame E dst = Ready (Ok (Some f, d))")
  case True
  then obtain f d where f: "read_frame E dst = Ready (Ok (Some f, d))" by blast
  obtain chs m1 d1 where h: "handle_command E M f [] m d = Ok (chs, m1, d1)"
    using sel f by (cases "handle_command E M f [] m d") (auto simp: subscribe_select_def)
  obtain r t where c: "subscribe_channels B M chs m1 d1 s = (r, t)" by (metis surj_pair)
  with sel f h have "r = Ok (m', dst')" "t = s'" by (cases r; auto simp: subscribe_select_def)+
  with subscribe_channels_joins [OF B G ok] c have "joins view (G m1) s (G m') s'" by simp
  then show ?thesis using handle_command_leaves [OF G h] by (rule joins_mono)
next
  case False
  with sel have "m' = m" "s' = s"
    by (auto simp: subscribe_select_def split: read_poll.splits res.splits option.splits)
  with ok show ?thesis by (simp add: joins_refl)
qed

lemma feed_renew:
  assumes ok: "feed_ok view G s" and j: "joins view (G (f_subs s)) (f_sys s) (G m) sy"
  shows "feed_ok view G (renew (G (f_subs s)) (G m) (s\<lparr>f_subs := m, f_conn := dst, f_sys := sy\<rparr>))"
    (is "feed_ok view G ?s")
proof (rule feed_okI)
  show "bus_ok view (f_sys ?s)" using joinsD(1) [OF j] by (simp add: renew_def)
  fix ch rx
  assume "G (f_subs ?s) ch = Some rx"
  then have g: "G m ch = Some rx" by (simp add: renew_def)
  show "\<exists>tx q. pub_sub (state (shared (f_sys ?s))) ch = Some tx \<and> view (world (f_sys ?s)) rx = Some (tx, q) \<and>
        subseq (f_got ?s ch @ q) (f_since ?s ch) \<and> (\<not> f_behind ?s ch \<longrightarrow> f_got ?s ch @ q = f_since ?s ch)"
  proof (cases "G (f_subs s) ch = Some rx")
    case True
    with ok obtain tx q where "pub_sub (state (shared (f_sys s))) ch = Some tx"
      "view (world (f_sys s)) rx = Some (tx, q)" "subseq (f_got s ch @ q) (f_since s ch)"
      "\<not> f_behind s ch \<Longrightarrow> f_got s ch @ q = f_since s ch" by (rule feed_okD) blast
    with joinsD(2,3) [OF j] g True show ?thesis by (simp add: renew_def)
  next
    case False
    from joinsD(5) [OF j g False] g False show ?thesis by (auto simp: renew_def)
  qed
qed

lemma feed_message_ok:
  assumes B: "broadcast_delivers B R view" and ok: "feed_ok view G s" and g: "G (f_subs s) ch = Some rx"
    and p: "poll_messages R rx (world (f_sys s)) = Some (Yield msg, w)"
  shows "feed_ok view G (s\<lparr>f_conn := dst, f_sys := (f_sys s)\<lparr>world := w\<rparr>, f_got := (f_got s)(ch := f_got s ch @ [msg])\<rparr>)"
    (is "feed_ok view G ?s")
proof -
  have bus: "bus_ok view (f_sys s)" using ok by (simp add: feed_ok_def)
  from ok g obtain tx q where v: "pub_sub (state (shared (f_sys s))) ch = Some tx"
    "view (world (f_sys s)) rx = Some (tx, q)" "subseq (f_got s ch @ q) (f_since s ch)"
    "\<not> f_behind s ch \<Longrightarrow> f_got s ch @ q = f_since s ch" by (rule feed_okD) blast
  from poll_messages_total [OF B v(2)] p obtain q' where q: "q = msg # q'"
    "view w = (view (world (f_sys s)))(rx \<mapsto> (tx, q'))" by (auto split: list.splits)
  show ?thesis
  proof (rule feed_okI)
    have "\<exists>r q. view w r = Some (t, q)" if "view (world (f_sys s)) r = Some (t, p)" for r t p
      using that q(2) v(2) by (cases "r = rx") (auto intro: exI [of _ r])
    then show "bus_ok view (f_sys ?s)" by (intro bus_ok_same [OF bus]) simp_all
    fix ch' r
    assume "G (f_subs ?s) ch' = Some r"
    then have g': "G (f_subs s) ch' = Some r" by simp
    with ok obtain t p where v': "pub_sub (state (shared (f_sys s))) ch' = Some t"
      "view (world (f_sys s)) r = Some (t, p)" "subseq (f_got s ch' @ p) (f_since s ch')"
      "\<not> f_behind s ch' \<Longrightarrow> f_got s ch' @ p = f_since s ch'" by (rule feed_okD) blast
    show "\<exists>tx q. pub_sub (state (shared (f_sys ?s))) ch' = Some tx \<and> view (world (f_sys ?s)) r = Some (tx, q) \<and>
        subseq (f_got ?s ch' @ q) (f_since ?s ch') \<and> (\<not> f_behind ?s ch' \<longrightarrow> f_got ?s ch' @ q = f_since ?s ch')"
    proof (cases "ch' = ch")
      case True
      with g g' q v show ?thesis by auto
    next
      case False
      have "r \<noteq> rx"
      proof
        assume "r = rx"
        with v(2) v'(2) have "t = tx" by simp
        with bus_okD(2) [OF bus v(1), of ch'] v'(1) False show False by simp
      qed
      with False v' q(2) show ?thesis by auto
    qed
  qed
qed

lemma feed_step_ok:
  assumes "broadcast_delivers B R view" "stream_map_gets M G" "feed_step E B N M R G s s'" "feed_ok view G s"
  shows "feed_ok view G s'"
  using assms(3)
proof cases
  case (feed_bus pub sy)
  from feed_bus_ok [OF assms(1,4) feed_bus(2)] show ?thesis unfolding feed_bus(1) .
next
  case (feed_bytes ev)
  with assms(4) show ?thesis by (simp add: feed_ok_def)
next
  case (feed_message ch rx msg w m dst sy)
  note sel = select_message [OF feed_message(4)]
  have "s' = s\<lparr>f_conn := dst, f_sys := (f_sys s)\<lparr>world := w\<rparr>, f_got := (f_got s)(ch := f_got s ch @ [msg])\<rparr>"
    unfolding feed_message(1) sel(1,2) by simp
  with feed_message_ok [OF assms(1,4) feed_message(2,3), of dst] show ?thesis by simp
next
  case (feed_frame m dst sy)
  have "bus_ok view (f_sys s)" using assms(4) by (simp add: feed_ok_def)
  from feed_renew [OF assms(4) select_frame_joins [OF assms(1,2) this feed_frame(2)]] show ?thesis
    unfolding feed_frame(1) .
qed

lemma feed_reachable_ok:
  assumes "broadcast_delivers B R view" "stream_map_gets M G" "feed_reachable E B N M R G s"
  shows "feed_ok view G s"
  using assms(3)
proof (induction rule: feed_reachable.induct)
  case (feed_enter w t s cmd dst m dst' s')
  have "bus_ok view (initial N w t)" by (simp add: bus_ok_def initial_def new_shared_def)
  with feed_enter(1) have bus: "bus_ok view s"
    by (rule rtranclp_induct) (auto intro: bus_step_ok [OF assms(1)])
  obtain r t where c: "subscribe_channels B M (sub_channels cmd) (sm_new M) dst s = (r, t)" by (metis surj_pair)
  with feed_enter(2) have "r = Ok (m, dst')" "t = s'" by (cases r; auto simp: subscribe_enter_def)+
  with subscribe_channels_joins [OF assms(1,2) bus] c have j: "joins view (G (sm_new M)) s (G m) s'" by simp
  have "G (sm_new M) = Map.empty" using assms(2) by (simp add: stream_map_gets_def)
  then have "\<exists>tx. pub_sub (state (shared s')) ch = Some tx \<and> view (world s') rx = Some (tx, [])"
    if "G m ch = Some rx" for ch rx using joinsD(5) [OF j that] by simp
  with joinsD(1) [OF j] show ?case by (auto simp: feed_ok_def feed_start_def)
next
  case (feed_next s s')
  from feed_step_ok [OF assms(1,2) feed_next.hyps(2) feed_next.IH] show ?case .
qed

text \<open>An instance of the two libraries: receivers are numbered; each has its channel, its queue and a flag.\<close>

definition ref_bus :: "((nat \<times> bytes list \<times> bool) list, nat, nat) broadcast" where
  "ref_bus =
     \<lparr>bc_channel = (\<lambda>n w. let tx = Suc (sum_list (map fst w)) in (tx, length w, w @ [(tx, [], False)])),
      bc_subscribe = (\<lambda>tx w. (length w, w @ [(tx, [], False)])),
      bc_send = (\<lambda>tx msg w. (Some (of_nat (length (filter (\<lambda>x. fst x = tx) w))),
        map (\<lambda>(t, q, l). if t = tx then (t, retain q msg, l \<or> 1024 \<le> length q) else (t, q, l)) w))\<rparr>"

definition ref_recv :: "nat \<Rightarrow> (nat \<times> bytes list \<times> bool) list \<Rightarrow> recv \<times> (nat \<times> bytes list \<times> bool) list" where
  "ref_recv rx w =
     (if rx < length w then
        (case w ! rx of (t, q, l) \<Rightarrow>
           if l then (Lagged 1, w[rx := (t, q, False)])
           else case q of [] \<Rightarrow> (RecvPending, w) | msg # q' \<Rightarrow> (Received msg, w[rx := (t, q', False)]))
      else (RecvPending, w))"

definition ref_view :: "(nat \<times> bytes list \<times> bool) list \<Rightarrow> nat \<Rightarrow> (nat \<times> bytes list) option" where
  "ref_view w rx = (if rx < length w then (case w ! rx of (t, q, l) \<Rightarrow> Some (t, q)) else None)"

lemma ref_view_append: "ref_view (w @ [(tx, [], False)]) = (ref_view w)(length w \<mapsto> (tx, []))"
  by (auto simp: ref_view_def nth_append fun_eq_iff)

lemma ref_channel_fresh: "ref_view w r \<noteq> Some (Suc (sum_list (map fst w)), q)"
proof
  assume v: "ref_view w r = Some (Suc (sum_list (map fst w)), q)"
  then have "r < length w" "fst (w ! r) = Suc (sum_list (map fst w))"
    by (auto simp: ref_view_def split: if_splits prod.splits)
  moreover from this(1) have "fst (w ! r) \<le> sum_list (map fst w)" by (intro member_le_sum_list) simp_all
  ultimately show False by simp
qed

lemma ref_send_view:
  "bc_send ref_bus tx msg w = (n, w') \<Longrightarrow>
    ref_view w' = (\<lambda>r. map_option (\<lambda>(t, q). (t, if t = tx then retain q msg else q)) (ref_view w r))"
  by (auto simp: ref_bus_def ref_view_def fun_eq_iff split: prod.splits)

lemma ref_recv_view:
  assumes "ref_view w rx = Some (tx, q)" "ref_recv rx w = (x, w')"
  shows "case x of
      Received msg \<Rightarrow> \<exists>q'. q = msg # q' \<and> ref_view w' = (ref_view w)(rx \<mapsto> (tx, q'))
    | Lagged n \<Rightarrow> ref_view w' = ref_view w \<and> (\<forall>k. fst (ref_recv rx w') \<noteq> Lagged k)
    | RecvClosed \<Rightarrow> q = [] \<and> ref_view w' = ref_view w
    | RecvPending \<Rightarrow> q = [] \<and> ref_view w' = ref_view w"
proof -
  obtain t p l where w: "rx < length w" "w ! rx = (t, p, l)" "t = tx" "p = q"
    using assms(1) by (auto simp: ref_view_def split: if_splits prod.splits)
  show ?thesis
  proof (cases l)
    case True
    with assms(2) w have "x = Lagged 1" "w' = w[rx := (t, p, False)]" by (simp_all add: ref_recv_def)
    with w show ?thesis by (auto simp: ref_recv_def ref_view_def fun_eq_iff nth_list_update split: list.splits)
  next
    case False
    show ?thesis
    proof (cases q)
      case Nil
      with assms(2) w False have "x = RecvPending" "w' = w" by (simp_all add: ref_recv_def)
      with Nil show ?thesis by simp
    next
      case (Cons m p')
      with assms(2) w False show ?thesis by (auto simp: ref_recv_def ref_view_def fun_eq_iff nth_list_update)
    qed
  qed
qed

lemma ref_bus_delivers: "broadcast_delivers ref_bus ref_recv ref_view"
  unfolding broadcast_delivers_def
proof (intro conjI allI impI)
  fix w :: "(nat \<times> bytes list \<times> bool) list" and rx
  assume "ref_view w rx = None"
  then have "ref_recv rx w = (RecvPending, w)" by (auto simp: ref_view_def ref_recv_def split: if_splits prod.splits)
  then show "ref_view (snd (ref_recv rx w)) = ref_view w" by simp
next
  fix w :: "(nat \<times> bytes list \<times> bool) list" and rx tx q x w'
  assume "ref_view w rx = Some (tx, q)" "ref_recv rx w = (x, w')"
  then show "case x of
      Received msg \<Rightarrow> \<exists>q'. q = msg # q' \<and> ref_view w' = (ref_view w)(rx \<mapsto> (tx, q'))
    | Lagged n \<Rightarrow> ref_view w' = ref_view w \<and> (\<forall>k. fst (ref_recv rx w') \<noteq> Lagged k)
    | RecvClosed \<Rightarrow> q = [] \<and> ref_view w' = ref_view w
    | RecvPending \<Rightarrow> q = [] \<and> ref_view w' = ref_view w" by (rule ref_recv_view)
next
  fix w :: "(nat \<times> bytes list \<times> bool) list" and tx msg n w'
  assume "bc_send ref_bus tx msg w = (n, w')"
  then show "ref_view w' = (\<lambda>r. map_option (\<lambda>(t, q). (t, if t = tx then retain q msg else q)) (ref_view w r))"
    by (rule ref_send_view)
next
  fix w :: "(nat \<times> bytes list \<times> bool) list" and tx rx w' r q
  assume "bc_channel ref_bus 1024 w = (tx, rx, w')"
  then have c: "tx = Suc (sum_list (map fst w))" "rx = length w" "w' = w @ [(tx, [], False)]"
    by (auto simp: ref_bus_def Let_def)
  show "ref_view w r \<noteq> Some (tx, q)" unfolding c(1) by (rule ref_channel_fresh)
  show "ref_view w rx = None" by (simp add: c(2) ref_view_def)
  show "ref_view w' = (ref_view w)(rx \<mapsto> (tx, []))" by (simp add: c(2,3) ref_view_append)
next
  fix w :: "(nat \<times> bytes list \<times> bool) list" and tx rx w'
  assume "bc_subscribe ref_bus tx w = (rx, w')"
  then show "ref_view w rx = None" "ref_view w' = (ref_view w)(rx \<mapsto> (tx, []))"
    by (auto simp: ref_bus_def ref_view_append, simp add: ref_view_def)
qed

lemma ref_map_gets: "stream_map_gets ref_stream_map map_of"
  unfolding stream_map_gets_def
proof (intro conjI allI)
  have rem: "map_of (filter (\<lambda>x. fst x \<noteq> k) m) = (map_of m)(k := None)" for k and m :: "(bytes \<times> nat) list"
    by (induction m) (auto simp: fun_eq_iff)
  fix k m
  show "map_of (sm_remove ref_stream_map k m) = (map_of m)(k := None)" by (simp add: ref_stream_map_def rem)
  fix r
  show "map_of (sm_insert ref_stream_map k r m) = (map_of m)(k \<mapsto> r)"
    by (auto simp: ref_stream_map_def map_add_def rem fun_eq_iff split: option.splits)
qed (simp add: ref_stream_map_def)

section \<open>What a subscriber receives\<close>

text \<open>
  C5: what is published reaches the subscribers. Whatever other connections do, a connection in
  subscriber mode is sent on each of its channels messages published there since it subscribed, in the order in
  which they were published and none twice; and as long as it never was more than 1024 messages behind,
  nothing is left out: what was sent is a prefix of what was published, and the loop can send
  the next one, as a \<open>message\<close> frame with the channel and the bytes.
\<close>

theorem published_messages_delivered:
  assumes "broadcast_delivers B R view" "stream_map_gets M G" "feed_reachable E B N M R G s"
    and "G (f_subs s) ch = Some rx" "\<not> write_fault (f_conn s)" "length ch \<le> isize_max"
  shows "subseq (f_got s ch) (f_since s ch) \<and>
    (\<not> f_behind s ch \<longrightarrow> prefix (f_got s ch) (f_since s ch) \<and>
       (\<forall>msg rest. f_since s ch = f_got s ch @ msg # rest \<longrightarrow> length msg \<le> isize_max \<longrightarrow>
          (\<exists>s'. feed_step E B N M R G s s' \<and> f_got s' ch = f_got s ch @ [msg] \<and>
             sent (f_conn s') = sent (f_conn s) @ pending_out (f_conn s) @
               encode (Array [Bulk ''message'', Bulk ch, Bulk msg]))))"
proof -
  from feed_reachable_ok [OF assms(1-3)] assms(4) obtain tx q where
    v: "view (world (f_sys s)) rx = Some (tx, q)" "subseq (f_got s ch @ q) (f_since s ch)"
    "\<not> f_behind s ch \<Longrightarrow> f_got s ch @ q = f_since s ch" by (rule feed_okD) blast
  have "\<exists>s'. feed_step E B N M R G s s' \<and> f_got s' ch = f_got s ch @ [msg] \<and>
      sent (f_conn s') = sent (f_conn s) @ pending_out (f_conn s) @ encode (Array [Bulk ''message'', Bulk ch, Bulk msg])"
    if "\<not> f_behind s ch" "f_since s ch = f_got s ch @ msg # rest" "length msg \<le> isize_max" for msg rest
  proof -
    have "q = msg # rest" using v(3) that(1,2) by simp
    with poll_messages_total [OF assms(1) v(1)] obtain w where
      p: "poll_messages R rx (world (f_sys s)) = Some (Yield msg, w)" by auto
    let ?f = "Array [Bulk ''message'', Bulk ch, Bulk msg]"
    have "flat ?f" using assms(6) that(3) by (intro flat_reply) (simp_all add: isize_max_def)
    with assms(5) have "write_frame (f_conn s) ?f = Ok (wrote (f_conn s) ?f)" by (rule write_frame_wrote)
    then have "subscribe_select E B M (SelMessage ch msg) (f_subs s) (f_conn s) ((f_sys s)\<lparr>world := w\<rparr>) =
        (SubWaiting (f_subs s) (wrote (f_conn s) ?f), (f_sys s)\<lparr>world := w\<rparr>)"
      by (simp add: subscribe_select_def)
    from feed_step.feed_message [where G = G and R = R and s = s and N = N, OF assms(4) p this] show ?thesis
      by (intro exI conjI) (assumption | simp add: wrote_def)+
  qed
  moreover have "subseq (f_got s ch) (f_since s ch)" 
    using subseq_order.trans [OF subseq_rev_drop_many [OF subseq_order.refl] v(2)] .
  moreover have "prefix (f_got s ch) (f_since s ch)" if "\<not> f_behind s ch" using v(3) [OF that] by (metis prefixI)
  ultimately show ?thesis by blast
qed

text \<open>
  Subscribing to a channel a second time replaces the receiver: whatever was waiting in the old one
  is never sent.
\<close>

theorem resubscribe_loses:
  assumes "broadcast_delivers B R view" "stream_map_gets M G" "bus_ok view s"
    and "G m ch = Some rx" "view (world s) rx = Some (tx, msg # q)"
    and "subscribe_to_channel B M ch m dst s = (Ok (m', dst'), s')"
  shows "\<exists>rx' tx'. G m' ch = Some rx' \<and> rx' \<noteq> rx \<and> view (world s') rx' = Some (tx', [])"
proof -
  obtain r t where r: "run_pub_sub (db_subscribe B ch) s = (r, t)" by (metis surj_pair)
  with assms(6) obtain rx' where rx: "r = Ok rx'" "m' = sm_insert M ch rx' m" "s' = t"
    by (cases r) (auto simp: subscribe_to_channel_def Let_def and_then_def st_then_def split: res.splits)
  note j = subscribe_joins [OF assms(1,3), of ch rx' t Map.empty, unfolded r rx(1), OF refl]
  from joinsD(4,5) [OF j, of ch rx'] assms(5) have "rx' \<noteq> rx" "\<exists>tx'. view (world t) rx' = Some (tx', [])" by auto
  with rx assms(2) show ?thesis by (auto simp: stream_map_gets_def)
qed

text \<open>A subscriber of a channel, and a message published there.\<close>

definition heard :: "(nat, (nat \<times> bytes list \<times> bool) list, bool) system" where
  "heard = (initial permit [(1, [''hi''], False)] 0)
     \<lparr>shared := new_shared\<lparr>state := (state new_shared)\<lparr>pub_sub := [''c'' \<mapsto> 1]\<rparr>\<rparr>\<rparr>"

definition heard_feed :: "(nat, (nat \<times> bytes list \<times> bool) list, bool, (bytes \<times> nat) list) feed" where
  "heard_feed = note_published (Some (''c'', ''hi'')) (feed_start [(''c'', 0)]
     (wrote (new_connection []) (Array [Bulk ''subscribe'', Bulk ''c'', Integer 1])) heard)"

lemma heard_reachable: "feed_reachable (ref_env True) ref_bus permit ref_stream_map ref_recv map_of heard_feed"
proof -
  let ?f = "Array [Bulk ''subscribe'', Bulk ''c'', Integer 1]"
  let ?d = "wrote (new_connection []) ?f"
  let ?s = "heard\<lparr>world := [(1, [], False)]\<rparr>"
  have "flat ?f" by (simp add: isize_max_def)
  then have w: "write_frame (new_connection []) ?f = Ok ?d" by (intro write_frame_wrote) (simp_all add: new_connection_def)
  have sub: "run_pub_sub (db_subscribe ref_bus ''c'') (initial permit [] 0) = (Ok 0, ?s)"
    by (simp add: run_pub_sub_def db_subscribe_def initial_def new_shared_def ref_bus_def heard_def)
  have "subscribe_enter ref_bus ref_stream_map \<lparr>sub_channels = [''c'']\<rparr> (new_connection []) (initial permit [] 0) =
      (SubWaiting [(''c'', 0)] ?d, ?s)"
    using w by (simp add: subscribe_enter_def subscribe_to_channel_def sub ref_stream_map_def)
  with rtranclp.rtrancl_refl have 1: "feed_reachable (ref_env True) ref_bus permit ref_stream_map ref_recv map_of
      (feed_start [(''c'', 0)] ?d ?s)" by (rule feed_reachable.feed_enter)
  have "run_pub_sub (db_publish ref_bus ''c'' ''hi'') ?s = (Ok 1, heard)"
    by (simp add: run_pub_sub_def db_publish_def new_shared_def ref_bus_def heard_def initial_def retain_def)
  then have "bus_step ref_bus permit ref_recv own ?s (Some (''c'', ''hi'')) heard" for own by (rule bus_step.bus_publish)
  then have "feed_step (ref_env True) ref_bus permit ref_stream_map ref_recv map_of (feed_start [(''c'', 0)] ?d ?s)
      (note_published (Some (''c'', ''hi'')) ((feed_start [(''c'', 0)] ?d ?s)\<lparr>f_sys := heard\<rparr>))"
    by (intro feed_step.feed_bus) (simp add: feed_start_def)
  with 1 have "feed_reachable (ref_env True) ref_bus permit ref_stream_map ref_recv map_of
      (note_published (Some (''c'', ''hi'')) ((feed_start [(''c'', 0)] ?d ?s)\<lparr>f_sys := heard\<rparr>))"
    by (rule feed_reachable.feed_next)
  then show ?thesis by (simp add: heard_feed_def feed_start_def)
qed

theorem published_messages_delivered_witness:
  "\<exists>s'. feed_step (ref_env True) ref_bus permit ref_stream_map ref_recv map_of heard_feed s' \<and> f_got s' ''c'' = [''hi'']"
proof -
  have f: "map_of (f_subs heard_feed) ''c'' = Some 0" "\<not> write_fault (f_conn heard_feed)" "f_got heard_feed ''c'' = []"
    "f_since heard_feed ''c'' = [''hi'']" "\<not> f_behind heard_feed ''c''"
    by (simp_all add: heard_feed_def feed_start_def wrote_def new_connection_def)
  from published_messages_delivered [OF ref_bus_delivers ref_map_gets heard_reachable f(1,2)] f(3-5)
  show ?thesis by (auto simp: isize_max_def)
qed

end
