(* ===== verification/Programs.thy ===== *)
theory Programs
  imports Server Cli
begin

text \<open>
  The programs around the library: how the server and the command line client start
  (\<open>bin/server.rs\<close>, \<open>bin/cli.rs\<close>), how a client connects (\<open>clients/client.rs\<close>,
  \<open>clients/blocking_client.rs\<close>), the examples (\<open>examples/*.rs\<close>) and the driver of the workshop
  (\<open>workshop/src/main.rs\<close>). What the operating system answers to connecting and binding, and whether
  logging can be set up, are parameters.
\<close>

section \<open>Connecting\<close>

text \<open>
  \<open>T addr\<close> is the answer of \<open>TcpStream::connect\<close>: an error, or a stream, of which the model keeps the
  reads to come.
\<close>

definition client_connect :: "(bytes \<Rightarrow> read_event list option) \<Rightarrow> bytes \<Rightarrow> (connection, crate_error) res" where
  "client_connect T addr =
     (case T addr of None \<Rightarrow> Err IoError | Some reads \<Rightarrow> Ok (new_connection reads))"

definition blocking_connect ::
    "bool \<Rightarrow> (bytes \<Rightarrow> read_event list option) \<Rightarrow> bytes \<Rightarrow> (connection, crate_error) res" where
  "blocking_connect rt_built T addr =
     (if rt_built then and_then (client_connect T addr) (\<lambda>inner. Ok inner) else Err IoError)"

text \<open>The \<open>?\<close> of a function that returns the exit of a program.\<close>

definition try_exit :: "('a, crate_error) res \<Rightarrow> ('a \<Rightarrow> bytes list \<times> cli_exit) \<Rightarrow> bytes list \<times> cli_exit" where
  "try_exit r f = (case r of Ok a \<Rightarrow> f a | Err e \<Rightarrow> ([], CliErr e) | Panic p \<Rightarrow> ([], CliPanic p))"

section \<open>The binaries\<close>

type_synonym u16 = "16 word"

definition DEFAULT_PORT :: u16 where
  "DEFAULT_PORT = 6379"

definition show_addr :: "bytes \<Rightarrow> u16 \<Rightarrow> bytes" where
  "show_addr host port = host @ '':'' @ dec (unat port)"

text \<open>The arguments of the command line client, with clap's defaults for those that are not given.\<close>

record cli_args =
  cli_cmd :: cli_command
  cli_host :: bytes
  cli_port :: u16

definition cli_args :: "cli_command \<Rightarrow> bytes option \<Rightarrow> u16 option \<Rightarrow> cli_args" where
  "cli_args cmd host port =
     \<lparr>cli_cmd = cmd, cli_host = (case host of Some h \<Rightarrow> h | None \<Rightarrow> ''127.0.0.1''),
      cli_port = (case port of Some p \<Rightarrow> p | None \<Rightarrow> DEFAULT_PORT)\<rparr>"

definition cli_program ::
    "env \<Rightarrow> (unit, crate_error) res \<Rightarrow> (bytes \<Rightarrow> read_event list option) \<Rightarrow> cli_args \<Rightarrow> bytes list \<times> cli_exit" where
  "cli_program E logging T cli =
     try_exit logging (\<lambda>_.
     try_exit (client_connect T (show_addr (cli_host cli) (cli_port cli))) (\<lambda>client.
     cli_main E (cli_cmd cli) client))"

text \<open>The server's \<open>main\<close> up to the start of \<open>server::run\<close>; \<open>bind\<close> says which addresses can be bound.\<close>

definition server_addr :: "u16 option \<Rightarrow> bytes" where
  "server_addr port = show_addr ''127.0.0.1'' (case port of Some p \<Rightarrow> p | None \<Rightarrow> DEFAULT_PORT)"

definition server_main ::
    "(unit, crate_error) res \<Rightarrow> (bytes \<Rightarrow> bool) \<Rightarrow> u16 option \<Rightarrow> 'n notify \<Rightarrow> 'w \<Rightarrow> instant \<Rightarrow>
     (('tx, 'w, 'n, 'm) server, crate_error) res" where
  "server_main logging bind port N w t =
     and_then logging (\<lambda>_.
       if bind (server_addr port) then Ok (server_new N w t) else Err IoError)"

section \<open>The examples\<close>

definition example_addr :: bytes where
  "example_addr = ''127.0.0.1:6379''"

definition show_bool :: "bool \<Rightarrow> bytes" where
  "show_bool b = (if b then ''true'' else ''false'')"

definition hello_world :: "env \<Rightarrow> (bytes \<Rightarrow> read_event list option) \<Rightarrow> bytes list \<times> cli_exit" where
  "hello_world E T =
     try_exit (client_connect T example_addr) (\<lambda>client.
     cli_await (client_set E ''hello'' ''world'' client) (\<lambda>_ client.
     cli_await (client_get E ''hello'' client) (\<lambda>result client.
       ([''got value from the server; success='' @ show_bool (result \<noteq> None)], CliOk client))))"

definition pub_example :: "env \<Rightarrow> (bytes \<Rightarrow> read_event list option) \<Rightarrow> bytes list \<times> cli_exit" where
  "pub_example E T =
     try_exit (client_connect T example_addr) (\<lambda>client.
     cli_await (client_publish E ''foo'' ''bar'' client) (\<lambda>_ client. ([], CliOk client)))"

definition sub_example :: "env \<Rightarrow> (bytes \<Rightarrow> read_event list option) \<Rightarrow> bytes list \<times> cli_exit" where
  "sub_example E T =
     try_exit (client_connect T example_addr) (\<lambda>client.
     cli_await (client_subscribe E [''foo''] client) (\<lambda>_ subscriber.
     cli_await (next_message E subscriber) (\<lambda>msg subscriber.
       case msg of
         Some msg \<Rightarrow> ([show_message E msg], CliOk subscriber)
       | None \<Rightarrow> ([], CliOk subscriber))))"

section \<open>The driver of the workshop\<close>

datatype exercise = Ex1_1 | Ex1_2 | Ex1_3 | Ex2_1 | Ex2_2 | Ex3

text \<open>The dispatch of \<open>main\<close> on its argument; \<open>None\<close> prints the usage.\<close>

definition workshop_main :: "bytes option \<Rightarrow> exercise option" where
  "workshop_main arg =
     (if arg = Some ''1.1'' then Some Ex1_1
      else if arg = Some ''1.2'' then Some Ex1_2
      else if arg = Some ''1.3'' then Some Ex1_3
      else if arg = Some ''2.1'' then Some Ex2_1
      else if arg = Some ''2.2'' then Some Ex2_2
      else if arg = Some ''3'' then Some Ex3
      else None)"

text \<open>The lines of \<open>print_usage\<close>, with the dash in UTF-8.\<close>

definition dash :: bytes where
  "dash = [CHR 0xE2, CHR 0x80, CHR 0x94]"

definition print_usage :: "bytes list" where
  "print_usage =
     [''Usage: workshop <exercise>'',
      [],
      ''  Exercise 1 '' @ dash @ '' Implement Futures:'',
      ''    1.1 '' @ dash @ '' YieldNow'',
      ''    1.2 '' @ dash @ '' Delay'',
      ''    1.3 '' @ dash @ '' Oneshot'',
      [],
      ''  Exercise 2 '' @ dash @ '' Build an Executor:'',
      ''    2.1 '' @ dash @ '' block_on (drive a single future)'',
      ''    2.2 '' @ dash @ '' spawn (multi-task executor)'',
      [],
      ''  Exercise 3 '' @ dash @ '' Mini Reactor:'',
      ''    3   '' @ dash @ '' echo server (mio reactor + executor)'']"

section \<open>How the programs fit together\<close>

text \<open>
  The address the command line client connects to by default, the address the examples connect to
  and the address the server binds by default are the same; and with the same port given to both,
  client and server meet as well.
\<close>

theorem default_addresses_meet:
  "server_addr None = example_addr \<and>
   show_addr (cli_host (cli_args cmd None port)) (cli_port (cli_args cmd None port)) = server_addr port"
proof -
  have "digit_char 6 = CHR ''6''" "digit_char 3 = CHR ''3''" "digit_char 7 = CHR ''7''" "digit_char 9 = CHR ''9''" by code_simp+
  then have "dec 6379 = ''6379''" by (simp add: dec.simps)
  then show ?thesis
    by (simp add: server_addr_def show_addr_def example_addr_def cli_args_def DEFAULT_PORT_def split: option.splits)
qed

text \<open>The usage names exactly the arguments that start an exercise.\<close>

theorem usage_complete:
  "workshop_main (Some name) \<noteq> None \<longleftrightarrow>
   name \<in> set (map (takeWhile (\<lambda>c. c \<noteq> CHR '' '') \<circ> drop 4) (filter (\<lambda>l. take 4 l = ''    '') print_usage))"
  by (auto simp: workshop_main_def print_usage_def dash_def)

text \<open>
  \<open>hello_world\<close> prints success when the server's two replies are those of a successful \<open>SET\<close> and of
  a \<open>GET\<close> of the key it set, in whatever packets they come.
\<close>

theorem hello_world_prints:
  assumes "atoi_reads_decimal E" "T example_addr = Some (map Recv packets)" "[] \<notin> set packets"
    and "concat packets = concat (map encode [Simple ''OK'', Bulk ''world''])"
  shows "\<exists>c. hello_world E T = ([''got value from the server; success=true''], CliOk c) \<and>
    sent c = concat (map encode [Array (map Bulk [''set'', ''hello'', ''world'']), Array (map Bulk [''get'', ''hello''])])"
proof -
  let ?set = "Array (map Bulk [''set'', ''hello'', ''world''])" and ?get = "Array (map Bulk [''get'', ''hello''])"
  let ?cmd = "\<lparr>set_key = ''hello'', set_value = ''world'', set_expire = None\<rparr>"
  have f: "flat (Array (map Bulk (''set'' # set_args ?cmd)))" "flat ?get" by (simp_all add: set_args_def isize_max_def)
  have e: "expects [Simple ''OK'', Bulk ''world''] (new_connection (map Recv packets))"
    unfolding expects_def using assms(3,4)
    by (intro conjI exI [of _ packets]) (simp_all add: new_connection_def encode.simps CRLF_def isize_max_def dec.simps utf8_def)
  from set_op.answered [OF assms(1) e f(1), of "()"]
  obtain c where c: "client_set E ''hello'' ''world'' (new_connection (map Recv packets)) = Done (Ok ((), c))"
    "expects [Bulk ''world''] c" "sent c = encode ?set"
    by (auto simp: client_set_def set_args_def new_connection_def)
  from get_op.answered [OF assms(1) c(2) f(2), of "Some ''world''"]
  obtain d where "client_get E ''hello'' c = Done (Ok (Some ''world'', d))" "sent d = sent c @ encode ?get" by auto
  with c(1,3) show ?thesis
    by (simp add: hello_world_def try_exit_def client_connect_def assms(2) show_bool_def)
qed

text \<open>
  \<open>sub\<close> prints the message that \<open>pub\<close> publishes, once the server has confirmed the subscription and
  forwarded the message, in whatever packets.
\<close>

theorem sub_example_prints:
  assumes "atoi_reads_decimal E" "T example_addr = Some (map Recv packets)" "[] \<notin> set packets"
    and "concat packets = concat (map encode [Array [Bulk ''subscribe'', Bulk ''foo'', Integer 1],
           Array [Bulk ''message'', Bulk ''foo'', Bulk ''bar'']])"
  shows "\<exists>c. sub_example E T = ([''got message from the channel: foo; message = '' @ debug_bytes E ''bar''], CliOk c) \<and>
    sent c = encode (Array (map Bulk [''subscribe'', ''foo'']))"
proof -
  let ?conf = "Array [Bulk ''subscribe'', Bulk ''foo'', Integer 1]" and ?m = "\<lparr>msg_channel = ''foo'', msg_content = ''bar''\<rparr>"
  let ?req = "Array (map Bulk [''subscribe'', ''foo''])"
  have e: "expects [?conf, message_frame ?m] (new_connection (map Recv packets))"
    unfolding expects_def using assms(3,4)
    by (intro conjI exI [of _ packets])
      (simp_all add: new_connection_def encode.simps CRLF_def isize_max_def dec.simps message_frame_def)
  have into: "subscribe_into_frame \<lparr>sub_channels = [''foo'']\<rparr> = Ok ?req"
    using subscribe_codec.frame [of "\<lparr>sub_channels = [''foo'']\<rparr>"] by simp
  have "flat ?req" by (simp add: isize_max_def)
  from send_request_sends [OF e into this] obtain c where
    c: "send_request (subscribe_into_frame \<lparr>sub_channels = [''foo'']\<rparr>) (new_connection (map Recv packets)) = Done (Ok ((), c))"
      "expects [?conf, message_frame ?m] c" "sent c = encode ?req" by (auto simp: new_connection_def)
  obtain d where d: "read_response E c = Done (Ok (?conf, d))" "expects [message_frame ?m] d" "sent d = sent c"
    using expects_response [OF assms(1) c(2)] by blast
  obtain g where g: "read_frame E d = Ready (Ok (Some (message_frame ?m), g))" "sent g = sent d"
    using expects_read [OF assms(1) d(2)] by blast
  have "next_message E d = Done (Ok (Some ?m, g))"
    using g(1) by (rule next_message_frame) (simp add: message_utf8_def utf8_def)
  with c d g show ?thesis
    by (simp add: sub_example_def try_exit_def client_connect_def assms(2) client_subscribe_def subscribe_cmd_def show_message_def)
qed

end
