(* ===== verification/Echo_Test.thy ===== *)
theory Echo_Test
  imports Echo_Progress
begin

text \<open>
  \<open>echo_server_test\<close> of \<open>src/workshop/src/ex3.rs\<close>: one thread runs \<open>block_on\<close> on a main future
  that accepts a connection, echoes on it and returns; the test's own thread is the client. The test
  is run on the reactor of the solution (theory Reactor): the exercise itself leaves \<open>register\<close>,
  \<open>set_waker\<close> and \<open>turn\<close> as \<open>todo!()\<close>. The run starts when the test's thread has found a free port and has
  started the server's thread. What is
  left open is the scheduling (when the threads run, in which pieces the network delivers, which
  events a turn returns), whether a system call whose result is unwrapped fails, and whether a thread
  is so slow that the client connects before the server
  listens, waits for longer than its time-out, or sees only a part of the echo. A client that has failed has
  failed the test; what its dropped stream does to the server after that is not followed.
\<close>

section \<open>The test as a program\<close>

text \<open>Where the main future is suspended: before \<open>bind\<close>, in \<open>accept\<close>, in \<open>echo\<close>, or it has returned.\<close>

datatype main_future = NotBound | InAccept | InEcho echo_state | MainReturned

text \<open>
  The calls of the server's thread that are unwrapped and can fail: \<open>Poll::new\<close> and \<open>mio::Waker::new\<close> in
  \<open>block_on\<close>, the binding of the listener, the registration of a socket, \<open>accept\<close>, a read or write of \<open>echo\<close>, and mio's \<open>poll\<close>.
\<close>

datatype sys_call = SetupCall | BindCall | RegisterCall | AcceptCall | EchoCall | PollCall

datatype test_panic = CallFailed sys_call | NoToken | EchoUnwrapped | PolledAgain

datatype server_pc = RunsTasks | InTurn | BlockOnReturned | ServerPanicked test_panic

text \<open>
  The client's thread: before \<open>connect\<close>, before \<open>write_all\<close>, in \<open>read\<close>, in \<open>join\<close> with the stream
  dropped, the test has passed, or an \<open>unwrap\<close> or the assertion has failed.
\<close>

datatype failure = Refused | TimedOut | Partial | ConnectFailed | WriteFailed | ReadFailed | ServerGone

datatype client_pc = Sleeps | Connected | Waits | Joins | Passes | Fails failure

record echo_test =
  t_queue :: "nat list"
  t_main :: main_future
  t_ltok :: token
  t_lblock :: bool
  t_waiting :: bool
  t_strm :: stream
  t_rctr :: "nat reactor"
  t_events :: "token set"
  t_pc :: server_pc
  t_client :: client_pc
  t_transit :: bytes
  t_spurious :: nat

definition hello :: bytes where
  "hello = ''hello world''"

text \<open>
  The start, with the room the socket of the server will have for outgoing bytes and the number of
  events mio will report for no reason. The stream stands for the connection the client will make.
\<close>

definition test_init :: "nat \<Rightarrow> nat \<Rightarrow> echo_test" where
  "test_init n k = \<lparr>t_queue = [0], t_main = NotBound, t_ltok = 0, t_lblock = False, t_waiting = False,
     t_strm = \<lparr>stok = 0, arrived = [], peer = Silent, room = n, broken = False, rblock = False, wblock = False,
       received = [], written_out = []\<rparr>,
     t_rctr = reactor_new, t_events = {}, t_pc = RunsTasks, t_client = Sleeps, t_transit = [], t_spurious = k\<rparr>"

text \<open>
  One poll of the main future, from the points at which it is suspended; \<open>fl\<close> are the calls that fail
  during the poll.
\<close>

definition test_echo :: "sys_call set \<Rightarrow> echo_state \<Rightarrow> echo_test \<Rightarrow> echo_test" where
  "test_echo fl e s =
     (if EchoCall \<in> fl then s\<lparr>t_pc := ServerPanicked (CallFailed EchoCall)\<rparr>
      else case poll_echo 0 e (t_strm s) (t_rctr s) of
        (EchoDone, st, r) \<Rightarrow> s\<lparr>t_strm := st, t_rctr := r, t_main := MainReturned\<rparr>
      | (EchoFailed, st, r) \<Rightarrow> s\<lparr>t_strm := st, t_rctr := r, t_pc := ServerPanicked EchoUnwrapped\<rparr>
      | (e, st, r) \<Rightarrow> s\<lparr>t_strm := st, t_rctr := r, t_main := InEcho e\<rparr>)"

definition not_registered :: "sys_call set \<Rightarrow> echo_test \<Rightarrow> echo_test" where
  "not_registered fl s = s\<lparr>t_pc := ServerPanicked (if RegisterCall \<in> fl then CallFailed RegisterCall else NoToken)\<rparr>"

definition test_accept :: "env \<Rightarrow> sys_call set \<Rightarrow> echo_test \<Rightarrow> echo_test" where
  "test_accept E fl s =
     (if AcceptCall \<in> fl then s\<lparr>t_pc := ServerPanicked (CallFailed AcceptCall)\<rparr>
      else if t_waiting s then
        (case register E (RegisterCall \<notin> fl) (t_rctr s) of
           Ok (t, r) \<Rightarrow> test_echo fl AtRead (s\<lparr>t_waiting := False, t_strm := (t_strm s)\<lparr>stok := t\<rparr>, t_rctr := r\<rparr>)
         | _ \<Rightarrow> not_registered fl s)
      else s\<lparr>t_main := InAccept, t_lblock := True, t_rctr := set_waker (t_ltok s) 0 (t_rctr s)\<rparr>)"

definition test_bind :: "env \<Rightarrow> sys_call set \<Rightarrow> echo_test \<Rightarrow> echo_test" where
  "test_bind E fl s =
     (if BindCall \<in> fl then s\<lparr>t_pc := ServerPanicked (CallFailed BindCall)\<rparr>
      else case register E (RegisterCall \<notin> fl) (t_rctr s) of
        Ok (t, r) \<Rightarrow> test_accept E fl (s\<lparr>t_ltok := t, t_rctr := r\<rparr>)
      | _ \<Rightarrow> not_registered fl s)"

definition test_poll :: "env \<Rightarrow> sys_call set \<Rightarrow> echo_test \<Rightarrow> echo_test" where
  "test_poll E fl s =
     (case t_main s of
        NotBound \<Rightarrow> test_bind E fl s
      | InAccept \<Rightarrow> test_accept E fl s
      | InEcho e \<Rightarrow> test_echo fl e s
      | MainReturned \<Rightarrow> s\<lparr>t_pc := ServerPanicked PolledAgain\<rparr>)"

text \<open>The loop of \<open>block_on\<close>, which returns once the main future has and the queue is empty.\<close>

definition test_drain :: "env \<Rightarrow> sys_call set \<Rightarrow> echo_test \<Rightarrow> echo_test" where
  "test_drain E fl s =
     (case t_queue s of
        [] \<Rightarrow> s\<lparr>t_pc := (if t_main s = MainReturned then BlockOnReturned else InTurn)\<rparr>
      | t # q \<Rightarrow> test_poll E fl (s\<lparr>t_queue := q\<rparr>))"

text \<open>\<open>turn\<close>, when mio's \<open>poll\<close> has returned the events \<open>evs\<close>.\<close>

definition test_turn :: "token list \<Rightarrow> echo_test \<Rightarrow> echo_test" where
  "test_turn evs s =
     (case turn evs (t_rctr s) of
        (r, ws) \<Rightarrow> s\<lparr>t_rctr := r, t_queue := t_queue s @ ws,
          t_events := (t_events s - set evs) \<union> (if ws = [] then {} else {NOTIFY_TOKEN}), t_pc := RunsTasks\<rparr>)"

text \<open>What happens to the socket of the server, with the event mio owes for it.\<close>

definition to_server :: "(stream \<Rightarrow> stream) \<Rightarrow> echo_test \<Rightarrow> echo_test" where
  "to_server f s =
     s\<lparr>t_strm := f (t_strm s),
       t_events := (if rblock (t_strm s) then insert (stok (t_strm s)) (t_events s) else t_events s)\<rparr>"

fun panicked :: "echo_test \<Rightarrow> bool" where
  "panicked s \<longleftrightarrow> (case t_pc s of ServerPanicked p \<Rightarrow> True | _ \<Rightarrow> False)"

fun in_test :: "client_pc \<Rightarrow> bool" where
  "in_test Passes = False"
| "in_test (Fails l) = False"
| "in_test c = True"

text \<open>
  The steps. With \<open>faulty = False\<close> no system call fails. With \<open>slow = False\<close> no thread is held up: the server listens when the client connects,
  and the client's \<open>read\<close> finds the whole echo within its time. When the server's thread has panicked, its
  listener and its stream are gone: a client that has not yet read the echo sees an error or the end of the stream,
  and one that has fails in \<open>join\<close>.
\<close>

inductive test_step :: "env \<Rightarrow> bool \<Rightarrow> bool \<Rightarrow> echo_test \<Rightarrow> echo_test \<Rightarrow> bool" for E faulty slow where
  test_drains: "t_pc s = RunsTasks \<Longrightarrow> faulty \<or> fl = {} \<Longrightarrow> test_step E faulty slow s (test_drain E fl s)"
| test_setup_fails: "t_main s = NotBound \<Longrightarrow> t_pc s = RunsTasks \<Longrightarrow> faulty \<Longrightarrow>
    test_step E faulty slow s (s\<lparr>t_pc := ServerPanicked (CallFailed SetupCall)\<rparr>)"
| test_turns: "t_pc s = InTurn \<Longrightarrow> evs \<noteq> [] \<Longrightarrow> distinct evs \<Longrightarrow> length evs \<le> 64 \<Longrightarrow> set evs \<subseteq> t_events s \<Longrightarrow>
    test_step E faulty slow s (test_turn evs s)"
| test_turn_fails: "t_pc s = InTurn \<Longrightarrow> faulty \<Longrightarrow>
    test_step E faulty slow s (s\<lparr>t_pc := ServerPanicked (CallFailed PollCall)\<rparr>)"
| test_event: "t_spurious s = Suc k \<Longrightarrow>
    test_step E faulty slow s (s\<lparr>t_events := insert t (t_events s), t_spurious := k\<rparr>)"
| test_connects: "t_client s = Sleeps \<Longrightarrow> t_main s \<noteq> NotBound \<Longrightarrow> \<not> panicked s \<Longrightarrow>
    test_step E faulty slow s
      (s\<lparr>t_client := Connected, t_waiting := True, t_lblock := False,
         t_events := (if t_lblock s then insert (t_ltok s) (t_events s) else t_events s)\<rparr>)"
| test_refused: "t_client s = Sleeps \<Longrightarrow> t_main s = NotBound \<Longrightarrow> slow \<Longrightarrow>
    test_step E faulty slow s (s\<lparr>t_client := Fails Refused\<rparr>)"
| test_writes: "t_client s = Connected \<Longrightarrow> test_step E faulty slow s (s\<lparr>t_client := Waits, t_transit := hello\<rparr>)"
| test_arrives: "t_transit s = bs @ rest \<Longrightarrow> bs \<noteq> [] \<Longrightarrow>
    test_step E faulty slow s (to_server (recv_bytes bs) (s\<lparr>t_transit := rest\<rparr>))"
| test_reads: "t_client s = Waits \<Longrightarrow> written_out (t_strm s) = bs @ rest \<Longrightarrow> bs \<noteq> [] \<Longrightarrow> length bs \<le> 64 \<Longrightarrow>
    slow \<or> bs = hello \<Longrightarrow>
    test_step E faulty slow s (s\<lparr>t_client := (if bs = hello then Joins else Fails Partial)\<rparr>)"
| test_times_out: "t_client s = Waits \<Longrightarrow> slow \<Longrightarrow> test_step E faulty slow s (s\<lparr>t_client := Fails TimedOut\<rparr>)"
| test_connect_fails: "t_client s = Sleeps \<Longrightarrow> faulty \<Longrightarrow> test_step E faulty slow s (s\<lparr>t_client := Fails ConnectFailed\<rparr>)"
| test_write_fails: "t_client s = Connected \<Longrightarrow> faulty \<Longrightarrow> test_step E faulty slow s (s\<lparr>t_client := Fails WriteFailed\<rparr>)"
| test_read_fails: "t_client s = Waits \<Longrightarrow> faulty \<Longrightarrow> test_step E faulty slow s (s\<lparr>t_client := Fails ReadFailed\<rparr>)"
| test_gone: "panicked s \<Longrightarrow> in_test (t_client s) \<Longrightarrow>
    test_step E faulty slow s (s\<lparr>t_client := Fails ServerGone\<rparr>)"
| test_closes: "t_client s = Joins \<Longrightarrow> t_transit s = [] \<Longrightarrow> peer (t_strm s) = Silent \<Longrightarrow>
    test_step E faulty slow s (to_server (recv_end PeerClosed) s)"
| test_joins: "t_client s = Joins \<Longrightarrow> t_pc s = BlockOnReturned \<Longrightarrow>
    test_step E faulty slow s (s\<lparr>t_client := Passes\<rparr>)"

section \<open>What a poll of \<open>echo\<close> leaves alone\<close>

lemma poll_echo_socket:
  assumes "poll_echo w e st r = (e', st', r')" "\<not> broken st" "peer st \<noteq> PeerReset"
  shows "\<not> broken st' \<and> peer st' = peer st \<and>
    room st' + length (written_out st') = room st + length (written_out st) \<and> room st' \<le> room st \<and>
    (e \<noteq> EchoFailed \<longrightarrow> e' \<noteq> EchoFailed)"
  using assms
proof (induction w e st r arbitrary: e' st' r' rule: poll_echo.induct)
  case (1 w st r)
  show ?case
  proof (cases "poll_read 1024 w st r")
    case (fields p t r1)
    then have t: "\<not> broken t" "peer t = peer st" "room t = room st" "written_out t = written_out st"
      and p: "p = PollPending \<or> (\<exists>bs. p = PollReady (Ok bs))" "p \<noteq> PollPending \<Longrightarrow> r1 = r"
      using "1.prems"(2,3) by (auto simp: poll_read_def mio_read_def split: list.splits peer.splits if_splits)
    show ?thesis
    proof (cases "\<exists>bs. p = PollReady (Ok bs) \<and> bs \<noteq> []")
      case True
      then obtain bs where bs: "p = PollReady (Ok bs)" "bs \<noteq> []" by blast
      with fields "1.prems"(1) have c: "poll_echo w (AtWrite bs 0) t r1 = (e', st', r')"
        by (simp add: poll_echo.simps(1))
      from "1.IH" [OF fields [symmetric] bs(1) refl refl bs(2) c t(1)] t "1.prems"(3) show ?thesis by simp
    next
      case False
      with p(1) consider "p = PollPending" | "p = PollReady (Ok [])" by blast
      then have "st' = t \<and> (e' = AtRead \<or> e' = EchoDone)"
        by cases (use fields "1.prems"(1) in \<open>simp_all add: poll_echo.simps(1)\<close>)
      with t show ?thesis by auto
    qed
  qed
next
  case (2 w bs pos st r)
  show ?case
  proof (cases "pos < length bs")
    case False
    with "2.prems"(1) have c: "poll_echo w AtRead st r = (e', st', r')" by (simp add: poll_echo.simps(2))
    from "2.IH"(2) [OF False c "2.prems"(2,3)] show ?thesis by simp
  next
    case True
    show ?thesis
    proof (cases "poll_write (drop pos bs) w st r")
      case (fields p t r1)
      then have t: "\<not> broken t" "peer t = peer st"
          "room t + length (written_out t) = room st + length (written_out st)" "room t \<le> room st"
        and p: "p = PollPending \<or> (\<exists>n. p = PollReady (Ok n))"
        using "2.prems"(2) by (auto simp: poll_write_def mio_write_def Let_def split: if_splits)
      show ?thesis
      proof (cases p)
        case PollPending
        with fields "2.prems"(1) True have "st' = t" "e' = AtWrite bs pos" by (simp_all add: poll_echo.simps(2))
        with t show ?thesis by auto
      next
        case (PollReady x)
        with p obtain n where n: "p = PollReady (Ok n)" by auto
        with fields "2.prems"(1) True have c: "poll_echo w (AtWrite bs (pos + n)) t r1 = (e', st', r')"
          by (simp add: poll_echo.simps(2))
        from "2.IH"(1) [OF True fields [symmetric] n refl refl c t(1)] t "2.prems"(3) show ?thesis by simp
      qed
    qed
  qed
qed (simp_all add: poll_echo.simps(3,4))

section \<open>The state of the server\<close>

text \<open>The state of the bytes: \<open>sent_by c\<close> is what a client at \<open>c\<close> has sent.\<close>

fun before_write :: "client_pc \<Rightarrow> bool" where
  "before_write Sleeps = True"
| "before_write Connected = True"
| "before_write (Fails l) \<longleftrightarrow> l = Refused \<or> l = ConnectFailed \<or> l = WriteFailed"
| "before_write _ = False"

fun unconnected :: "client_pc \<Rightarrow> bool" where
  "unconnected Sleeps = True"
| "unconnected (Fails l) \<longleftrightarrow> l = Refused \<or> l = ConnectFailed"
| "unconnected _ = False"

fun echo_at :: "main_future \<Rightarrow> echo_state" where
  "echo_at (InEcho e) = e"
| "echo_at MainReturned = EchoDone"
| "echo_at _ = AtRead"

definition test_bytes :: "echo_test \<Rightarrow> bool" where
  "test_bytes s \<longleftrightarrow>
     stream_ok (t_strm s) \<and> echo_ok (echo_at (t_main s)) (t_strm s) \<and>
     received (t_strm s) @ t_transit s = (if before_write (t_client s) then [] else hello) \<and>
     \<not> broken (t_strm s) \<and> length hello \<le> room (t_strm s) + length (written_out (t_strm s)) \<and>
     peer (t_strm s) \<noteq> PeerReset \<and> (peer (t_strm s) = PeerClosed \<longrightarrow> t_client s = Joins \<or> t_client s = Passes) \<and>
     (t_client s = Joins \<or> t_client s = Passes \<longrightarrow> written_out (t_strm s) = hello) \<and>
     (t_client s = Passes \<longrightarrow> t_pc s = BlockOnReturned)"

text \<open>The main future is queued, or the reactor keeps its waker and an event will come.\<close>

definition queued :: "echo_test \<Rightarrow> bool" where
  "queued s \<longleftrightarrow> t_queue s = [0] \<and> io_wakers (t_rctr s) = Map.empty \<and> t_pc s = RunsTasks"

definition waits_at :: "token \<Rightarrow> bool \<Rightarrow> echo_test \<Rightarrow> bool" where
  "waits_at t quiet s \<longleftrightarrow>
     t_queue s = [] \<and> io_wakers (t_rctr s) = [t \<mapsto> 0] \<and> (t \<in> t_events s \<or> quiet) \<and> t_pc s \<noteq> BlockOnReturned"

definition test_sched :: "echo_test \<Rightarrow> bool" where
  "test_sched s \<longleftrightarrow>
     (\<forall>p. t_pc s \<noteq> ServerPanicked p) \<and> finite (t_events s) \<and> (t_pc s = InTurn \<longrightarrow> t_queue s = []) \<and>
     (case t_main s of
        NotBound \<Rightarrow> queued s \<and> next_token (t_rctr s) = 0 \<and> \<not> t_waiting s \<and> unconnected (t_client s)
      | InAccept \<Rightarrow> t_ltok s = 0 \<and> next_token (t_rctr s) = 1 \<and> (t_waiting s \<longleftrightarrow> \<not> unconnected (t_client s)) \<and>
          (queued s \<or> waits_at 0 (t_lblock s \<and> \<not> t_waiting s) s)
      | InEcho e \<Rightarrow> suspended e \<and> stok (t_strm s) = 1 \<and> \<not> unconnected (t_client s) \<and>
          (queued s \<or> waits_at 1 (blocked_at e (t_strm s)) s)
      | MainReturned \<Rightarrow> t_queue s = [] \<and> t_pc s \<noteq> InTurn)"

lemma test_echo_ok:
  assumes ok: "test_bytes s" "echo_at (t_main s) = e" "suspended e"
    and st: "t_queue s = []" "io_wakers (t_rctr s) = Map.empty" "stok (t_strm s) = 1" "\<not> unconnected (t_client s)"
      "t_pc s = RunsTasks" "finite (t_events s)"
  shows "test_bytes (test_echo {} e s) \<and> test_sched (test_echo {} e s)"
proof -
  obtain e' t r where p: "poll_echo 0 e (t_strm s) (t_rctr s) = (e', t, r)" by (metis surj_pair)
  have b: "stream_ok (t_strm s)" "echo_ok e (t_strm s)" "\<not> broken (t_strm s)" "peer (t_strm s) \<noteq> PeerReset"
    using ok by (simp_all add: test_bytes_def)
  from poll_echo_spec [OF p b(1,2) ok(3)] poll_echo_socket [OF p b(3,4)]
  have sp: "stream_ok t" "echo_ok e' t" "stok t = stok (t_strm s)" "received t = received (t_strm s)"
      "\<not> broken t" "peer t = peer (t_strm s)"
      "room t + length (written_out t) = room (t_strm s) + length (written_out (t_strm s))" "room t \<le> room (t_strm s)"
      "e' \<noteq> EchoFailed"
    and wk: "suspended e' \<Longrightarrow> blocked_at e' t \<and> r = set_waker (stok t) 0 (t_rctr s)"
    using ok(3) by auto
  have wr: "written_out t = hello" if "t_client s = Joins \<or> t_client s = Passes"
  proof -
    have h: "written_out (t_strm s) = hello" "received (t_strm s) @ t_transit s = hello"
      using ok(1) that by (auto simp: test_bytes_def)
    have "received (t_strm s) = written_out (t_strm s) @ in_flight e @ concat (arrived (t_strm s))"
      using b(2) ok(3) by (cases e) (simp_all add: echo_ok_def)
    with h have r: "received (t_strm s) = hello" by (metis append.right_neutral append_eq_append_conv_if append_is_Nil_conv append_self_conv append.assoc)
    have w: "hello = written_out t @ in_flight e' @ concat (arrived t)" using sp(2,4,9) r by (simp add: echo_ok_def)
    moreover have "length hello \<le> length (written_out t)" using sp(7,8) h(1) by simp
    ultimately show ?thesis by (metis append_eq_conv_conj append_take_drop_id length_append le_add1 le_antisym take_all)
  qed
  from p have e: "test_echo {} e s = s\<lparr>t_strm := t, t_rctr := r, t_main := (if e' = EchoDone then MainReturned else InEcho e')\<rparr>"
    using sp(9) by (cases e') (simp_all add: test_echo_def)
  have "test_bytes (test_echo {} e s)"
    using ok(1) st(5) sp wr unfolding e by (cases e') (auto simp: test_bytes_def)
  moreover have "test_sched (test_echo {} e s)"
    using st sp(3,9) wk unfolding e
    by (cases e') (auto simp: test_sched_def waits_at_def set_waker_def)
  ultimately show ?thesis ..
qed

definition test_inv :: "echo_test \<Rightarrow> bool" where
  "test_inv s \<longleftrightarrow> test_bytes s \<and> test_sched s"

lemma test_accept_ok:
  assumes "test_bytes s" "echo_at (t_main s) = AtRead" "t_queue s = []" "io_wakers (t_rctr s) = Map.empty"
    and "t_ltok s = 0" "next_token (t_rctr s) = 1" "t_waiting s \<longleftrightarrow> \<not> unconnected (t_client s)"
    and "t_pc s = RunsTasks" "finite (t_events s)"
  shows "test_inv (test_accept E {} s)"
proof (cases "t_waiting s")
  case True
  have reg: "register E True (t_rctr s) = Ok (1, (t_rctr s)\<lparr>next_token := 2\<rparr>)"
    using assms(6) register_fits [of "t_rctr s" E] by simp
  let ?s = "s\<lparr>t_waiting := False, t_strm := (t_strm s)\<lparr>stok := 1\<rparr>, t_rctr := (t_rctr s)\<lparr>next_token := 2\<rparr>\<rparr>"
  have "test_bytes ?s" using assms(1) by (auto simp: test_bytes_def stream_ok_def echo_ok_def)
  from test_echo_ok [OF this, of AtRead] assms True reg show ?thesis by (simp add: test_accept_def test_inv_def)
next
  case False
  have "test_bytes (test_accept E {} s)" using assms(1,2) False by (simp add: test_accept_def test_bytes_def)
  with False assms show ?thesis
    by (simp add: test_accept_def test_inv_def test_sched_def waits_at_def set_waker_def)
qed

lemma test_bytes_queue [simp]: "test_bytes (s\<lparr>t_queue := q\<rparr>) = test_bytes s"
  by (simp add: test_bytes_def)

lemma test_drain_ok:
  assumes "t_pc s = RunsTasks" "test_inv s"
  shows "test_inv (test_drain E {} s)"
proof -
  have ok: "test_bytes s" "finite (t_events s)" and sc: "test_sched s"
    using assms(2) by (auto simp: test_inv_def test_sched_def)
  have idle: "test_inv (test_drain E {} s)" if "t_queue s = []" "t_main s \<noteq> NotBound"
    using assms that by (cases "t_main s") (auto simp: test_drain_def test_inv_def test_sched_def test_bytes_def queued_def waits_at_def)
  show ?thesis
  proof (cases "t_main s")
    case NotBound
    with sc have q: "t_queue s = [0]" "io_wakers (t_rctr s) = Map.empty" "next_token (t_rctr s) = 0" "\<not> t_waiting s"
      "unconnected (t_client s)" by (auto simp: test_sched_def queued_def)
    then have reg: "register E True (t_rctr s) = Ok (0, (t_rctr s)\<lparr>next_token := 1\<rparr>)"
      using register_fits [of "t_rctr s" E] by simp
    let ?s = "s\<lparr>t_queue := [], t_ltok := 0, t_rctr := (t_rctr s)\<lparr>next_token := 1\<rparr>\<rparr>"
    have "test_bytes ?s" using ok(1) by (simp add: test_bytes_def)
    from test_accept_ok [OF this, of E] NotBound q ok(2) assms(1) reg show ?thesis
      by (simp add: test_drain_def test_poll_def test_bind_def)
  next
    case InAccept
    show ?thesis
    proof (cases "t_queue s = []")
      case False
      with sc InAccept have q: "t_queue s = [0]" "io_wakers (t_rctr s) = Map.empty" "next_token (t_rctr s) = 1" "t_ltok s = 0"
        "t_waiting s \<longleftrightarrow> \<not> unconnected (t_client s)" by (auto simp: test_sched_def queued_def waits_at_def)
      from test_accept_ok [of "s\<lparr>t_queue := []\<rparr>" E] InAccept q ok assms(1) show ?thesis
        by (simp add: test_drain_def test_poll_def)
    qed (use idle InAccept in simp)
  next
    case (InEcho e)
    show ?thesis
    proof (cases "t_queue s = []")
      case False
      with sc InEcho have q: "t_queue s = [0]" "io_wakers (t_rctr s) = Map.empty" "suspended e" "stok (t_strm s) = 1"
        "\<not> unconnected (t_client s)" by (auto simp: test_sched_def queued_def waits_at_def)
      from test_echo_ok [of "s\<lparr>t_queue := []\<rparr>" e] InEcho q ok assms(1) show ?thesis
        by (simp add: test_drain_def test_poll_def test_inv_def)
    qed (use idle InEcho in simp)
  next
    case MainReturned
    with sc have "t_queue s = []" by (simp add: test_sched_def)
    with idle MainReturned show ?thesis by simp
  qed
qed

lemma turn_none: "io_wakers r = Map.empty \<Longrightarrow> turn evs r = (r, [])"
  by (induction evs) simp_all

lemma turn_single:
  assumes "t \<noteq> NOTIFY_TOKEN" "io_wakers r = [t \<mapsto> w]"
  shows "turn evs r = (if t \<in> set evs then (r\<lparr>io_wakers := Map.empty\<rparr>, [w]) else (r, []))"
  using assms by (induction evs) (auto simp: turn_none)

lemma test_turn_ok:
  assumes "t_pc s = InTurn" "test_inv s"
  shows "test_inv (test_turn evs s)"
proof -
  have sc: "test_sched s" "test_bytes s" and q: "t_queue s = []" using assms by (auto simp: test_inv_def test_sched_def)
  have n: "(0 :: token) \<noteq> NOTIFY_TOKEN" "(1 :: token) \<noteq> NOTIFY_TOKEN"
    using token_not_notify [of 0] token_not_notify [of 1] by simp_all
  have b: "test_bytes (test_turn evs s)"
    using sc(2) assms(1) by (auto simp: test_bytes_def test_turn_def split: prod.splits)
  obtain t where t: "t = 0 \<or> t = 1" "io_wakers (t_rctr s) = [t \<mapsto> 0]"
    using sc(1) assms(1) by (cases "t_main s") (auto simp: test_sched_def queued_def waits_at_def)
  then have "turn evs (t_rctr s) = (if t \<in> set evs then ((t_rctr s)\<lparr>io_wakers := Map.empty\<rparr>, [0]) else (t_rctr s, []))"
    using turn_single [of t "t_rctr s" 0 evs] n by auto
  then have "test_sched (test_turn evs s)"
    using sc(1) assms(1) q t
    by (cases "t_main s") (auto simp: test_sched_def test_turn_def queued_def waits_at_def fun_eq_iff split: if_splits)
  with b show ?thesis by (simp add: test_inv_def)
qed

lemma test_arrives_ok:
  assumes "test_inv s" "t_transit s = bs @ rest" "bs \<noteq> []"
  shows "test_inv (to_server (recv_bytes bs) (s\<lparr>t_transit := rest\<rparr>))"
proof -
  have b: "test_bytes s" and sc: "test_sched s" using assms(1) by (simp_all add: test_inv_def)
  have m: "echo_at (t_main s) \<noteq> EchoDone"
  proof
    assume "echo_at (t_main s) = EchoDone"
    with b have "peer (t_strm s) = PeerClosed" "received (t_strm s) = written_out (t_strm s)"
      by (cases "peer (t_strm s)"; simp add: test_bytes_def echo_ok_def)+
    with b have "written_out (t_strm s) = hello" "received (t_strm s) @ t_transit s = hello"
      by (auto simp: test_bytes_def)
    with \<open>received (t_strm s) = written_out (t_strm s)\<close> have "t_transit s = []" by simp
    with assms(2,3) show False by simp
  qed
  then have "test_bytes (to_server (recv_bytes bs) (s\<lparr>t_transit := rest\<rparr>))"
    using b assms(2,3)
    by (cases "t_main s") (auto simp: test_bytes_def to_server_def recv_bytes_def stream_ok_def echo_ok_def split: if_splits)
  moreover have "test_sched (to_server (recv_bytes bs) (s\<lparr>t_transit := rest\<rparr>))"
    using sc m by (cases "t_main s")
      (auto simp: test_sched_def to_server_def recv_bytes_def queued_def waits_at_def blocked_at_def split: echo_state.splits)
  ultimately show ?thesis by (simp add: test_inv_def)
qed

lemma test_closes_ok:
  assumes "test_inv s" "t_client s = Joins"
  shows "test_inv (to_server (recv_end PeerClosed) s)"
proof -
  have b: "test_bytes s" and sc: "test_sched s" using assms(1) by (simp_all add: test_inv_def)
  have "test_bytes (to_server (recv_end PeerClosed) s)"
    using b assms(2) by (auto simp: test_bytes_def to_server_def recv_end_def stream_ok_def echo_ok_def)
  moreover have "test_sched (to_server (recv_end PeerClosed) s)"
    using sc assms(2) by (cases "t_main s")
      (auto simp: test_sched_def to_server_def recv_end_def queued_def waits_at_def blocked_at_def split: echo_state.splits)
  ultimately show ?thesis by (simp add: test_inv_def)
qed

text \<open>A step of the client's thread leaves the server alone.\<close>

lemma test_client_ok:
  assumes "test_inv s" "unconnected c \<longleftrightarrow> unconnected (t_client s)"
    and "received (t_strm s) @ bs = (if before_write c then [] else hello)" "t_client s \<noteq> Joins" "t_client s \<noteq> Passes"
    and "c = Joins \<Longrightarrow> written_out (t_strm s) = hello" "c \<noteq> Passes"
  shows "test_inv (s\<lparr>t_client := c, t_transit := bs\<rparr>)"
proof -
  have b: "test_bytes s" and sc: "test_sched s" using assms(1) by (simp_all add: test_inv_def)
  have "test_bytes (s\<lparr>t_client := c, t_transit := bs\<rparr>)" using b assms(3-7) by (auto simp: test_bytes_def)
  moreover have "test_sched (s\<lparr>t_client := c, t_transit := bs\<rparr>)"
    using sc assms(2) by (cases "t_main s") (auto simp: test_sched_def queued_def waits_at_def)
  ultimately show ?thesis by (simp add: test_inv_def)
qed

text \<open>A poll in which a call fails is a poll in which none does, or the thread has panicked on it.\<close>

definition broke :: "echo_test \<Rightarrow> echo_test \<Rightarrow> bool" where
  "broke s s' \<longleftrightarrow> (\<exists>c. t_pc s' = ServerPanicked (CallFailed c)) \<and> t_queue s' = t_queue s \<and>
     t_events s' = t_events s \<and> t_client s' = t_client s \<and> t_transit s' = t_transit s \<and>
     t_spurious s' = t_spurious s \<and> peer (t_strm s') = peer (t_strm s)"

lemma broke_I: "broke s (s\<lparr>t_pc := ServerPanicked (CallFailed c)\<rparr>)"
  by (simp add: broke_def)

lemma test_echo_fails: "test_echo fl e s = test_echo {} e s \<or> broke s (test_echo fl e s)"
  by (simp add: test_echo_def broke_I)

lemma unregistered: "\<nexists>x. register E False r = Ok x" "register E b r \<noteq> Err e"
  by (auto simp: register_def Let_def add_usize_def)

lemma test_accept_fails: "test_accept E fl s = test_accept E {} s \<or> broke s (test_accept E fl s)"
proof (cases "AcceptCall \<in> fl \<or> \<not> t_waiting s")
  case True
  then show ?thesis by (auto simp: test_accept_def broke_I)
next
  case False
  show ?thesis
  proof (cases "RegisterCall \<in> fl")
    case True
    with False unregistered(1) [of E "t_rctr s"] show ?thesis
      by (auto simp: test_accept_def not_registered_def broke_I split: res.splits)
  next
    case r: False
    show ?thesis
    proof (cases "register E True (t_rctr s)")
      case (Ok tr)
      obtain t r' where tr: "tr = (t, r')" by (cases tr)
      let ?s = "s\<lparr>t_waiting := False, t_strm := (t_strm s)\<lparr>stok := t\<rparr>, t_rctr := r'\<rparr>"
      have "broke ?s u \<Longrightarrow> broke s u" for u by (simp add: broke_def)
      with test_echo_fails [of fl AtRead ?s] False r Ok tr show ?thesis by (auto simp: test_accept_def)
    qed (use False r in \<open>simp_all add: test_accept_def not_registered_def\<close>)
  qed
qed

lemma test_bind_fails: "test_bind E fl s = test_bind E {} s \<or> broke s (test_bind E fl s)"
proof (cases "BindCall \<in> fl")
  case True
  then show ?thesis by (simp add: test_bind_def broke_I)
next
  case b: False
  show ?thesis
  proof (cases "RegisterCall \<in> fl")
    case True
    with b unregistered(1) [of E "t_rctr s"] show ?thesis
      by (auto simp: test_bind_def not_registered_def broke_I split: res.splits)
  next
    case r: False
    show ?thesis
    proof (cases "register E True (t_rctr s)")
      case (Ok tr)
      obtain t r' where tr: "tr = (t, r')" by (cases tr)
      let ?s = "s\<lparr>t_ltok := t, t_rctr := r'\<rparr>"
      have "broke ?s u \<Longrightarrow> broke s u" for u by (simp add: broke_def)
      with test_accept_fails [of E fl ?s] b r Ok tr show ?thesis by (auto simp: test_bind_def)
    qed (use b r in \<open>simp_all add: test_bind_def not_registered_def\<close>)
  qed
qed

lemma test_poll_fails: "test_poll E fl s = test_poll E {} s \<or> broke s (test_poll E fl s)"
  using test_echo_fails test_accept_fails test_bind_fails by (cases "t_main s") (simp_all add: test_poll_def)

lemma test_drain_fails:
  "test_drain E fl s = test_drain E {} s \<or> (\<exists>t q. t_queue s = t # q \<and> broke (s\<lparr>t_queue := q\<rparr>) (test_drain E fl s))"
  using test_poll_fails by (cases "t_queue s") (simp_all add: test_drain_def)

text \<open>What holds once the server's thread has panicked.\<close>

definition test_broken :: "bool \<Rightarrow> echo_test \<Rightarrow> bool" where
  "test_broken faulty s \<longleftrightarrow> faulty \<and> (\<exists>c. t_pc s = ServerPanicked (CallFailed c)) \<and> finite (t_events s) \<and> t_client s \<noteq> Passes"

lemma inv_not_panicked: "test_inv s \<Longrightarrow> \<not> panicked s"
  by (auto simp: test_inv_def test_sched_def split: server_pc.splits)

lemma test_breaks:
  assumes "test_inv s" "t_pc s = RunsTasks \<or> t_pc s = InTurn" "broke u s'" "faulty"
    and "t_client u = t_client s" "t_events u = t_events s"
  shows "test_broken faulty s'"
  using assms by (auto simp: test_broken_def broke_def test_inv_def test_bytes_def test_sched_def)

lemma test_step_inv:
  assumes "test_step E faulty slow s s'" "test_inv s"
  shows "test_inv s' \<or> test_broken faulty s'"
  using assms(1)
proof cases
  case (test_drains fl)
  from test_drain_fails [of E fl s] show ?thesis
  proof
    assume "test_drain E fl s = test_drain E {} s"
    with test_drain_ok [OF test_drains(2) assms(2), of E] test_drains(1) show ?thesis by simp
  next
    assume "\<exists>t q. t_queue s = t # q \<and> broke (s\<lparr>t_queue := q\<rparr>) (test_drain E fl s)"
    then obtain q where b: "broke (s\<lparr>t_queue := q\<rparr>) (test_drain E fl s)" by blast
    show ?thesis
    proof (cases "fl = {}")
      case True
      with test_drain_ok [OF test_drains(2) assms(2), of E] test_drains(1) show ?thesis by simp
    next
      case False
      with test_breaks [OF assms(2) _ b, of faulty] test_drains show ?thesis by simp
    qed
  qed
next
  case test_setup_fails
  with test_breaks [OF assms(2) _ broke_I [of s SetupCall], of faulty] show ?thesis by simp
next
  case (test_turns evs)
  with test_turn_ok assms(2) show ?thesis by simp
next
  case test_turn_fails
  with test_breaks [OF assms(2) _ broke_I [of s PollCall], of faulty] show ?thesis by simp
next
  case (test_event k t)
  with assms(2) have "test_inv s'"
    by (cases "t_main s") (auto simp: test_inv_def test_bytes_def test_sched_def queued_def waits_at_def)
  then show ?thesis ..
next
  case test_connects
  with assms(2) have "test_inv s'"
    by (cases "t_main s") (auto simp: test_inv_def test_bytes_def test_sched_def queued_def waits_at_def)
  then show ?thesis ..
next
  case test_refused
  have "test_inv (s\<lparr>t_client := Fails Refused, t_transit := t_transit s\<rparr>)"
    by (rule test_client_ok [OF assms(2)]) (use test_refused assms(2) in \<open>auto simp: test_inv_def test_bytes_def\<close>)
  with test_refused show ?thesis by simp
next
  case test_connect_fails
  have "test_inv (s\<lparr>t_client := Fails ConnectFailed, t_transit := t_transit s\<rparr>)"
    by (rule test_client_ok [OF assms(2)]) (use test_connect_fails assms(2) in \<open>auto simp: test_inv_def test_bytes_def\<close>)
  with test_connect_fails show ?thesis by simp
next
  case test_writes
  have "test_inv (s\<lparr>t_client := Waits, t_transit := hello\<rparr>)"
    by (rule test_client_ok [OF assms(2)]) (use test_writes assms(2) in \<open>auto simp: test_inv_def test_bytes_def\<close>)
  with test_writes show ?thesis by simp
next
  case test_write_fails
  have "test_inv (s\<lparr>t_client := Fails WriteFailed, t_transit := t_transit s\<rparr>)"
    by (rule test_client_ok [OF assms(2)]) (use test_write_fails assms(2) in \<open>auto simp: test_inv_def test_bytes_def\<close>)
  with test_write_fails show ?thesis by simp
next
  case (test_arrives bs rest)
  with test_arrives_ok [OF assms(2)] show ?thesis by simp
next
  case (test_reads bs rest)
  have b: "test_bytes s" using assms(2) by (simp add: test_inv_def)
  have w: "written_out (t_strm s) = hello" if "bs = hello"
  proof -
    obtain x where "received (t_strm s) = written_out (t_strm s) @ x"
      using b by (auto simp: test_bytes_def echo_ok_def split: if_splits)
    moreover have "received (t_strm s) @ t_transit s = hello" using b test_reads(2) by (simp add: test_bytes_def)
    ultimately have "hello @ rest @ x @ t_transit s = hello" using test_reads(3) that by simp
    then show ?thesis using test_reads(3) that by simp
  qed
  have "test_inv (s\<lparr>t_client := (if bs = hello then Joins else Fails Partial), t_transit := t_transit s\<rparr>)"
    by (rule test_client_ok [OF assms(2)]) (use test_reads b w in \<open>auto simp: test_bytes_def split: if_splits\<close>)
  with test_reads show ?thesis by simp
next
  case test_times_out
  have "test_inv (s\<lparr>t_client := Fails TimedOut, t_transit := t_transit s\<rparr>)"
    by (rule test_client_ok [OF assms(2)]) (use test_times_out assms(2) in \<open>auto simp: test_inv_def test_bytes_def\<close>)
  with test_times_out show ?thesis by simp
next
  case test_read_fails
  have "test_inv (s\<lparr>t_client := Fails ReadFailed, t_transit := t_transit s\<rparr>)"
    by (rule test_client_ok [OF assms(2)]) (use test_read_fails assms(2) in \<open>auto simp: test_inv_def test_bytes_def\<close>)
  with test_read_fails show ?thesis by simp
next
  case test_gone
  with inv_not_panicked [OF assms(2)] show ?thesis by blast
next
  case test_closes
  with test_closes_ok [OF assms(2)] show ?thesis by simp
next
  case test_joins
  with assms(2) have "test_inv s'"
    by (cases "t_main s") (auto simp: test_inv_def test_bytes_def test_sched_def queued_def waits_at_def)
  then show ?thesis ..
qed

lemma test_step_broken:
  assumes "test_step E faulty slow s s'" "test_broken faulty s"
  shows "test_broken faulty s'"
  using assms by cases (auto simp: test_broken_def to_server_def)

lemma test_init_ok: "length hello \<le> n \<Longrightarrow> test_inv (test_init n k)"
  by (simp add: test_inv_def test_bytes_def test_sched_def test_init_def queued_def reactor_new_def stream_ok_def echo_ok_def)

section \<open>Every run ends\<close>

fun client_load :: "client_pc \<Rightarrow> nat" where
  "client_load Sleeps = 99"
| "client_load Connected = 90"
| "client_load Waits = 10"
| "client_load Joins = 2"
| "client_load _ = 0"

definition event_load :: "token set \<Rightarrow> nat" where
  "event_load ev = (if NOTIFY_TOKEN \<in> ev then 2 else 0) + 5 * card (ev - {NOTIFY_TOKEN})"

definition test_load :: "echo_test \<Rightarrow> nat" where
  "test_load s =
     length (t_queue s) + event_load (t_events s) + (if t_pc s = RunsTasks then 1 else 0) + 6 * t_spurious s +
     6 * length (t_transit s) + client_load (t_client s) + (if peer (t_strm s) = Silent then 6 else 0) +
     (if panicked s then 0 else 1)"

lemma event_load_insert: "finite ev \<Longrightarrow> event_load (insert t ev) \<le> event_load ev + 5"
  by (auto simp: event_load_def insert_Diff_if card_insert_if)

lemma event_load_turn:
  assumes "finite ev" "evs \<noteq> []" "set evs \<subseteq> ev" "length ws \<le> card (set evs - {NOTIFY_TOKEN})"
  shows "event_load ((ev - set evs) \<union> (if ws = [] then {} else {NOTIFY_TOKEN})) + Suc (length ws) < event_load ev"
proof -
  let ?k = "card (set evs - {NOTIFY_TOKEN})"
  have d: "(ev - set evs \<union> (if ws = [] then {} else {NOTIFY_TOKEN})) - {NOTIFY_TOKEN} =
      (ev - {NOTIFY_TOKEN}) - (set evs - {NOTIFY_TOKEN})" by auto
  have c: "card ((ev - {NOTIFY_TOKEN}) - (set evs - {NOTIFY_TOKEN})) + ?k = card (ev - {NOTIFY_TOKEN})"
    using assms(1,3) by (subst card_Diff_subset) (auto intro!: le_add_diff_inverse2 card_mono)
  have n: "NOTIFY_TOKEN \<in> ev - set evs \<union> (if ws = [] then {} else {NOTIFY_TOKEN}) \<longleftrightarrow>
      ws \<noteq> [] \<or> NOTIFY_TOKEN \<in> ev \<and> NOTIFY_TOKEN \<notin> set evs" by auto
  show ?thesis
  proof (cases "?k = 0")
    case True
    then have "NOTIFY_TOKEN \<in> set evs" using assms(2) by (cases evs) (auto simp: card_eq_0_iff)
    with True assms(3,4) c show ?thesis unfolding event_load_def n d by auto
  next
    case False
    have arith: "(if P then 2 else 0) + 5 * x + Suc l < (if Q then 2 else 0) + 5 * y"
      if "l \<le> k" "x + k = y" "k \<noteq> 0" for P Q and x y k l :: nat using that by auto
    show ?thesis unfolding event_load_def d by (rule arith [OF assms(4) c False])
  qed
qed

lemma test_echo_frame:
  assumes "\<not> broken (t_strm s)" "peer (t_strm s) \<noteq> PeerReset"
  shows "t_queue (test_echo {} e s) = t_queue s \<and> t_events (test_echo {} e s) = t_events s \<and>
    t_client (test_echo {} e s) = t_client s \<and> t_transit (test_echo {} e s) = t_transit s \<and>
    t_spurious (test_echo {} e s) = t_spurious s \<and> peer (t_strm (test_echo {} e s)) = peer (t_strm s)"
proof -
  obtain e' t r where p: "poll_echo 0 e (t_strm s) (t_rctr s) = (e', t, r)" by (metis surj_pair)
  from poll_echo_socket [OF p assms] p show ?thesis by (cases e') (simp_all add: test_echo_def)
qed

lemma test_poll_frame:
  assumes "\<not> broken (t_strm s)" "peer (t_strm s) \<noteq> PeerReset"
  shows "t_queue (test_poll E {} s) = t_queue s \<and> t_events (test_poll E {} s) = t_events s \<and>
    t_client (test_poll E {} s) = t_client s \<and> t_transit (test_poll E {} s) = t_transit s \<and>
    t_spurious (test_poll E {} s) = t_spurious s \<and> peer (t_strm (test_poll E {} s)) = peer (t_strm s)"
proof -
  have acc: "t_queue (test_accept E {} u) = t_queue u \<and> t_events (test_accept E {} u) = t_events u \<and>
      t_client (test_accept E {} u) = t_client u \<and> t_transit (test_accept E {} u) = t_transit u \<and>
      t_spurious (test_accept E {} u) = t_spurious u \<and> peer (t_strm (test_accept E {} u)) = peer (t_strm u)"
    if "\<not> broken (t_strm u)" "peer (t_strm u) \<noteq> PeerReset" for u
    using that by (simp add: test_accept_def not_registered_def test_echo_frame split: res.splits prod.splits)
  show ?thesis
    using assms by (cases "t_main s") (simp_all add: test_poll_def test_bind_def not_registered_def acc test_echo_frame split: res.splits prod.splits)
qed

lemma broke_load: "broke u s' \<Longrightarrow> \<not> panicked s \<Longrightarrow> t_events u = t_events s \<Longrightarrow> t_client u = t_client s \<Longrightarrow>
    t_transit u = t_transit s \<Longrightarrow> t_spurious u = t_spurious s \<Longrightarrow> peer (t_strm u) = peer (t_strm s) \<Longrightarrow>
    length (t_queue u) \<le> length (t_queue s) \<Longrightarrow> test_load s' < test_load s"
  by (auto simp: broke_def test_load_def split: server_pc.splits)

lemma drain_load:
  assumes "t_pc s = RunsTasks" "test_inv s"
  shows "test_load (test_drain E {} s) < test_load s"
proof -
  have sc: "\<not> broken (t_strm s)" "peer (t_strm s) \<noteq> PeerReset" and n: "\<not> panicked (test_drain E {} s)"
    using assms(2) inv_not_panicked [OF test_drain_ok [OF assms, of E]] by (simp_all add: test_inv_def test_bytes_def)
  show ?thesis
  proof (cases "t_queue s")
    case (Cons t q)
    with test_poll_frame [of "s\<lparr>t_queue := q\<rparr>" E] sc assms(1) n show ?thesis
      by (auto simp: test_drain_def test_load_def)
  qed (use assms(1) n in \<open>auto simp: test_drain_def test_load_def\<close>)
qed

lemma test_step_load:
  assumes "test_step E faulty slow s s'" "test_inv s \<or> test_broken faulty s"
  shows "test_load s' < test_load s"
proof -
  have fin: "finite (t_events s)" using assms(2) by (auto simp: test_inv_def test_sched_def test_broken_def)
  have inv: "test_inv s \<and> \<not> panicked s" if "t_pc s = RunsTasks \<or> t_pc s = InTurn"
    using assms(2) that inv_not_panicked by (auto simp: test_broken_def)
  note ins = event_load_insert [OF fin]
  from assms(1) show ?thesis
  proof cases
    case (test_drains fl)
    from test_drain_fails [of E fl s] show ?thesis
    proof
      assume "test_drain E fl s = test_drain E {} s"
      with drain_load [OF test_drains(2), of E] inv test_drains show ?thesis by simp
    next
      assume "\<exists>t q. t_queue s = t # q \<and> broke (s\<lparr>t_queue := q\<rparr>) (test_drain E fl s)"
      then obtain t q where b: "t_queue s = t # q" "broke (s\<lparr>t_queue := q\<rparr>) (test_drain E fl s)" by blast
      from broke_load [OF b(2), of s] b(1) inv test_drains show ?thesis by simp
    qed
  next
    case test_setup_fails
    with broke_load [OF broke_I [of s SetupCall], of s] inv show ?thesis by simp
  next
    case (test_turns evs)
    then have i: "test_inv s" "\<not> panicked s" using inv by blast+
    then have q: "t_queue s = []" using test_turns(2) by (simp add: test_inv_def test_sched_def)
    obtain r ws where t: "turn evs (t_rctr s) = (r, ws)" by (metis surj_pair)
    from event_load_turn [OF fin test_turns(3,6) turn_events [OF t test_turns(4)]] test_turns t q i(2) show ?thesis
      by (simp add: test_turn_def test_load_def)
  next
    case test_turn_fails
    with broke_load [OF broke_I [of s PollCall], of s] inv show ?thesis by simp
  next
    case (test_event k t)
    with ins [of t] show ?thesis by (simp add: test_load_def)
  next
    case test_connects
    with ins [of "t_ltok s"] show ?thesis by (simp add: test_load_def)
  next
    case (test_arrives bs rest)
    with ins [of "stok (t_strm s)"] show ?thesis
      by (cases bs) (simp_all add: test_load_def to_server_def recv_bytes_def)
  next
    case test_gone
    then show ?thesis by (cases "t_client s") (simp_all add: test_load_def)
  next
    case test_closes
    with ins [of "stok (t_strm s)"] show ?thesis by (simp add: test_load_def to_server_def recv_end_def)
  qed (auto simp: test_load_def hello_def)
qed

text \<open>When the server waits with no event to come, it has echoed all it was sent, and the client is still there.\<close>

lemma test_at_rest:
  assumes "test_inv s" "t_pc s = InTurn" "t_events s = {}" "\<not> unconnected (t_client s)"
  shows "written_out (t_strm s) = received (t_strm s) \<and> peer (t_strm s) = Silent"
proof -
  have b: "test_bytes s" using assms(1) by (simp add: test_inv_def)
  obtain e where e: "t_main s = InEcho e" "blocked_at e (t_strm s)"
    using assms by (cases "t_main s") (auto simp: test_inv_def test_sched_def queued_def waits_at_def)
  show ?thesis
  proof (cases e)
    case (AtWrite bs pos)
    with e b have r: "received (t_strm s) = written_out (t_strm s) @ drop pos bs @ concat (arrived (t_strm s))"
      "pos < length bs" "length hello \<le> length (written_out (t_strm s))"
      by (simp_all add: test_bytes_def blocked_at_def stream_ok_def echo_ok_def)
    have "length (received (t_strm s) @ t_transit s) \<le> length hello" using b by (simp add: test_bytes_def)
    with r show ?thesis by simp
  qed (use e b in \<open>simp_all add: test_bytes_def blocked_at_def stream_ok_def echo_ok_def\<close>)
qed

lemma test_stuck:
  assumes ok: "test_inv s" and stuck: "\<And>u. \<not> test_step E faulty slow s u"
  shows "t_client s = Passes \<and> t_pc s = BlockOnReturned \<or> (\<exists>l. t_client s = Fails l)"
proof -
  have b: "test_bytes s" and sc: "test_sched s" using ok by (simp_all add: test_inv_def)
  have "t_pc s \<noteq> RunsTasks" using stuck test_step.test_drains [of s faulty "{}"] by blast
  moreover have "t_events s = {}" if "t_pc s = InTurn"
    using stuck test_step.test_turns [OF that, of "[t]" for t] by fastforce
  ultimately have pc: "t_pc s = BlockOnReturned \<or> t_pc s = InTurn \<and> t_events s = {}"
    using sc by (cases "t_pc s") (auto simp: test_sched_def)
  have bound: "t_main s \<noteq> NotBound" "t_pc s = BlockOnReturned \<Longrightarrow> t_main s = MainReturned"
    using sc \<open>t_pc s \<noteq> RunsTasks\<close> by (auto simp: test_sched_def queued_def waits_at_def split: main_future.splits)
  have gone: "peer (t_strm s) \<noteq> Silent" if "t_pc s = BlockOnReturned"
    using bound(2) [OF that] b by (simp add: test_bytes_def echo_ok_def)
  have tr: "t_transit s = []" using stuck test_step.test_arrives [of s "t_transit s" "[]" E faulty slow] by auto
  show ?thesis
  proof (cases "t_client s")
    case Waits
    have "t_pc s \<noteq> BlockOnReturned" using gone b Waits by (cases "peer (t_strm s)") (auto simp: test_bytes_def)
    with pc test_at_rest [OF ok] Waits have "written_out (t_strm s) = received (t_strm s)" by auto
    with b tr Waits have "written_out (t_strm s) = hello @ []" by (simp add: test_bytes_def)
    from test_step.test_reads [OF Waits this, of slow E faulty] stuck show ?thesis by (simp add: hello_def)
  next
    case Joins
    have "peer (t_strm s) \<noteq> Silent" using stuck test_step.test_closes [OF Joins tr] by blast
    with pc test_at_rest [OF ok] Joins have "t_pc s = BlockOnReturned" by auto
    from test_step.test_joins [OF Joins this] stuck show ?thesis by blast
  next
    case Passes
    with b show ?thesis by (simp add: test_bytes_def)
  qed (use stuck bound(1) inv_not_panicked [OF ok] test_step.test_connects test_step.test_writes in blast)+
qed

lemma broken_stuck:
  assumes "test_broken faulty s" "\<And>u. \<not> test_step E faulty slow s u"
  shows "\<exists>l. t_client s = Fails l"
  using assms test_step.test_gone [of s E faulty slow] by (cases "t_client s") (auto simp: test_broken_def)

text \<open>What a failure of the test is due to.\<close>

fun blamed :: "bool \<Rightarrow> bool \<Rightarrow> failure \<Rightarrow> bool" where
  "blamed faulty slow Refused = slow"
| "blamed faulty slow TimedOut = slow"
| "blamed faulty slow Partial = slow"
| "blamed faulty slow _ = faulty"

lemma not_blamed [simp]: "\<not> blamed False False l"
  by (cases l) simp_all

lemma drain_client: "test_inv s \<Longrightarrow> t_client (test_drain E fl s) = t_client s"
proof -
  assume "test_inv s"
  then have "\<not> broken (t_strm s)" "peer (t_strm s) \<noteq> PeerReset" by (simp_all add: test_inv_def test_bytes_def)
  then have "t_client (test_drain E {} s) = t_client s"
    using test_poll_frame [of "s\<lparr>t_queue := q\<rparr>" E for q] by (auto simp: test_drain_def split: list.splits)
  with test_drain_fails [of E fl s] show ?thesis by (auto simp: broke_def)
qed

lemma test_fails_blamed:
  assumes "test_step E faulty slow s s'" "test_inv s \<or> test_broken faulty s"
    and "\<forall>l. t_client s = Fails l \<longrightarrow> blamed faulty slow l"
  shows "\<forall>l. t_client s' = Fails l \<longrightarrow> blamed faulty slow l"
  using assms(1)
proof cases
  case (test_drains fl)
  then have "test_inv s" using assms(2) by (auto simp: test_broken_def)
  from drain_client [OF this] test_drains(1) assms(3) show ?thesis by simp
next
  case test_gone
  with assms(2) inv_not_panicked show ?thesis by (auto simp: test_broken_def)
qed (use assms(3) in \<open>auto simp: test_turn_def to_server_def split: prod.splits if_splits\<close>)

lemma test_run_ok:
  assumes "(test_step E faulty slow ^^ m) (test_init n k) s" "length hello \<le> n"
  shows "(test_inv s \<or> test_broken faulty s) \<and> m + test_load s \<le> 108 + 6 * k \<and>
    (\<forall>l. t_client s = Fails l \<longrightarrow> blamed faulty slow l)"
  using assms(1)
proof (induction m arbitrary: s)
  case 0
  have "test_load (test_init n k) = 108 + 6 * k" by (simp add: test_load_def test_init_def event_load_def)
  with 0 test_init_ok [OF assms(2), of k] show ?case by (auto simp: test_init_def)
next
  case (Suc m)
  then obtain t where t: "(test_step E faulty slow ^^ m) (test_init n k) t" "test_step E faulty slow t s" by auto
  from Suc.IH [OF t(1)] have ih: "test_inv t \<or> test_broken faulty t" "m + test_load t \<le> 108 + 6 * k"
    "\<forall>l. t_client t = Fails l \<longrightarrow> blamed faulty slow l" by simp_all
  have "test_inv s \<or> test_broken faulty s" using ih(1) test_step_inv [OF t(2)] test_step_broken [OF t(2)] by blast
  moreover have "Suc m + test_load s \<le> 108 + 6 * k" using test_step_load [OF t(2) ih(1)] ih(2) by simp
  ultimately show ?case using test_fails_blamed [OF t(2) ih(1,3)] by blast
qed

section \<open>The outcome of the test\<close>

text \<open>
  C17: the test of the echo server of exercise 3, with \<open>register\<close>, \<open>set_waker\<close> and \<open>turn\<close> of the solution in the place of
  the exercise's \<open>todo!()\<close>. Every run ends after at most \<open>108 + 6 * k\<close> steps, where \<open>k\<close> is
  the number of events mio reports for no reason. The thread of the server panics only on an unwrapped system call
  that has failed (setting up mio, bind, accept, registration, poll, or a read or write of the echo). At the end
  the client has read back what it wrote and has joined the server's thread, whose \<open>block_on\<close>
  has returned; or the test has failed, because a system call of either thread did, or because a thread was so slow that the client connected before the server
  listened, timed out, or read a part of the echo.
\<close>

theorem echo_test_outcome:
  assumes "length hello \<le> n" "(test_step E faulty slow ^^ m) (test_init n k) s"
  shows "m \<le> 108 + 6 * k \<and> (\<forall>p. t_pc s = ServerPanicked p \<longrightarrow> faulty \<and> (\<exists>c. p = CallFailed c)) \<and>
    ((\<exists>u. test_step E faulty slow s u) \<or> t_client s = Passes \<and> t_pc s = BlockOnReturned \<or>
     (\<exists>l. t_client s = Fails l \<and> blamed faulty slow l))"
proof -
  note ok = test_run_ok [OF assms(2,1)]
  have "faulty \<and> (\<exists>c. p = CallFailed c)" if "t_pc s = ServerPanicked p" for p
    using ok that by (auto simp: test_inv_def test_sched_def test_broken_def)
  moreover have "(\<exists>u. test_step E faulty slow s u) \<or> t_client s = Passes \<and> t_pc s = BlockOnReturned \<or> (\<exists>l. t_client s = Fails l)"
    using ok test_stuck [of s E faulty slow] broken_stuck [of faulty s E slow] by blast
  ultimately show ?thesis using ok by auto
qed

theorem echo_test_outcome_witness:
  "\<exists>m s. (test_step (ref_env True) False False ^^ m) (test_init 4096 1) s \<and> t_client s = Passes \<and> m \<le> 114"
proof -
  let ?R = "test_step (ref_env True) False False"
  have len: "length hello \<le> 4096" by (simp add: hello_def)
  note claim = echo_test_outcome [OF len, where E = "ref_env True" and faulty = False and slow = False and k = 1]
  let ?P = "\<lambda>m. \<exists>s. (?R ^^ m) (test_init 4096 1) s" and ?m = "GREATEST m. \<exists>s. (?R ^^ m) (test_init 4096 1) s"
  have z: "?P 0" by simp
  have bd: "\<And>m. ?P m \<Longrightarrow> m \<le> 114" using claim by auto
  obtain s where s: "(?R ^^ ?m) (test_init 4096 1) s" using GreatestI_nat [where P = ?P, OF z bd] by blast
  have "\<not> ?R s u" for u
  proof
    assume "?R s u"
    with s have "?P (Suc ?m)" by auto
    then have "Suc ?m \<le> ?m" using bd by (rule Greatest_le_nat [where P = ?P])
    then show False by simp
  qed
  with claim [OF s] s show ?thesis by auto
qed

end
