(* ===== verification/Bench_Codec.thy ===== *)
theory Bench_Codec
  imports Connection
begin

text \<open>
  \<open>src/redis-bench/src/main.rs\<close>, first part: the request buffer \<open>build_batch\<close>, and the response
  scanner \<open>try_parse_response\<close>, which finds the end of a response without decoding it. The lemmas
  relate both to the wire format of the server (theory Connection): a batch is the encoding of its
  requests, and the scanner steps over exactly one encoded frame.
\<close>

section \<open>Requests\<close>

datatype Phase = SetPhase | GetPhase

definition bench_key :: "nat \<Rightarrow> nat \<Rightarrow> bytes" where
  "bench_key conn_id i = ''k:'' @ dec conn_id @ '':'' @ dec i"

definition bench_command :: "Phase \<Rightarrow> nat \<Rightarrow> bytes \<Rightarrow> nat \<Rightarrow> bytes" where
  "bench_command phase conn_id val i =
     (let key = bench_key conn_id i in
      case phase of
        SetPhase \<Rightarrow>
          ''*3'' @ CRLF @ ''$3'' @ CRLF @ ''SET'' @ CRLF @ ''$'' @ dec (length key) @ CRLF @ key @ CRLF @
          ''$'' @ dec (length val) @ CRLF @ val @ CRLF
      | GetPhase \<Rightarrow>
          ''*2'' @ CRLF @ ''$3'' @ CRLF @ ''GET'' @ CRLF @ ''$'' @ dec (length key) @ CRLF @ key @ CRLF)"

text \<open>The loop \<open>for i in 0..count\<close>.\<close>

definition build_batch :: "Phase \<Rightarrow> nat \<Rightarrow> nat \<Rightarrow> bytes \<Rightarrow> bytes" where
  "build_batch phase conn_id count val = concat (map (bench_command phase conn_id val) [0..<count])"

section \<open>Responses\<close>

text \<open>The first index at which the two bytes of a line end stand.\<close>

fun find_crlf :: "bytes \<Rightarrow> nat option" where
  "find_crlf (a # b # r) =
     (if a = CHR 0x0D \<and> b = CHR 0x0A then Some 0 else map_option Suc (find_crlf (b # r)))"
| "find_crlf _ = None"

text \<open>\<open>str::parse::<i64>\<close>: an optional sign, at least one digit, and a value in range.\<close>

definition parse_i64 :: "bytes \<Rightarrow> int option" where
  "parse_i64 s =
     (let neg = (s \<noteq> [] \<and> hd s = CHR ''-'');
          ds = (if s \<noteq> [] \<and> (hd s = CHR ''-'' \<or> hd s = CHR ''+'') then tl s else s);
          v = (if neg then - int (undec ds) else int (undec ds))
      in if ds \<noteq> [] \<and> list_all is_digit ds \<and> - (2 ^ 63) \<le> v \<and> v < 2 ^ 63 then Some v else None)"

text \<open>A sum of \<open>usize\<close> values.\<close>

definition usize_sum :: "env \<Rightarrow> nat \<Rightarrow> (nat, unit) res" where
  "usize_sum E n =
     (if n < 2 ^ 64 then Ok n
      else if overflow_checks E then Panic ArithOverflow else Ok (n mod 2 ^ 64))"

text \<open>
  \<open>try_parse_response\<close>: the number of bytes of the first response, \<open>None\<close> while it is incomplete.
  The loop over the entries of an array runs on the rest of the buffer; its result is the number
  of bytes they take.
\<close>

function (sequential) try_parse_response :: "env \<Rightarrow> bytes \<Rightarrow> (nat option, unit) res"
  and parse_items :: "env \<Rightarrow> nat \<Rightarrow> bytes \<Rightarrow> (nat option, unit) res" where
  "try_parse_response E [] = Ok None"
| "try_parse_response E (b # buf) =
     (if b = CHR ''+'' \<or> b = CHR ''-'' \<or> b = CHR '':'' then
        (case find_crlf (b # buf) of None \<Rightarrow> Ok None | Some crlf \<Rightarrow> Ok (Some (crlf + 2)))
      else if b = CHR ''$'' then
        (case find_crlf (b # buf) of
           None \<Rightarrow> Ok None
         | Some crlf \<Rightarrow>
             (case Option.bind (from_utf8 (take (crlf - 1) buf)) parse_i64 of
                None \<Rightarrow> Ok None
              | Some len \<Rightarrow>
                  if len < 0 then Ok (Some (crlf + 2))
                  else and_then (usize_sum E (crlf + 2 + nat len + 2)) (\<lambda>total.
                    Ok (if total \<le> length (b # buf) then Some total else None))))
      else if b = CHR ''*'' then
        (case find_crlf (b # buf) of
           None \<Rightarrow> Ok None
         | Some crlf \<Rightarrow>
             (case Option.bind (from_utf8 (take (crlf - 1) buf)) parse_i64 of
                None \<Rightarrow> Ok None
              | Some count \<Rightarrow>
                  if count < 0 then Ok (Some (crlf + 2))
                  else and_then (parse_items E (nat count) (drop (crlf + 1) buf)) (\<lambda>used.
                    Ok (map_option (\<lambda>n. crlf + 2 + n) used))))
      else Panic PanicMacro)"
| "parse_items E 0 buf = Ok (Some 0)"
| "parse_items E (Suc n) buf =
     and_then (try_parse_response E buf) (\<lambda>r.
       case r of
         None \<Rightarrow> Ok None
       | Some consumed \<Rightarrow>
           if length buf < consumed then Panic IndexOutOfBounds
           else and_then (parse_items E n (drop consumed buf)) (\<lambda>used.
             Ok (map_option (\<lambda>m. consumed + m) used)))"
  by pat_completeness auto
termination
  by (relation "inv_image (less_than <*lex*> less_than)
      (\<lambda>x. case x of Inl (E, buf) \<Rightarrow> (length buf, 0) | Inr (E, n, buf) \<Rightarrow> (length buf, n))") auto

declare try_parse_response.simps [simp del] parse_items.simps [simp del]

section \<open>Lines\<close>

lemma find_crlf_line:
  "\<not> has_crlf line \<Longrightarrow> find_crlf (line @ CRLF @ post) = Some (length line)"
proof (induction line rule: has_crlf.induct [case_names two nil one])
  case (two a b r)
  then show ?case by simp
next
  case (one a)
  then show ?case by (simp add: CRLF_def)
qed (simp add: CRLF_def)

lemma find_crlf_partial:
  assumes "\<not> has_crlf line" "line @ CRLF = xs @ ys" "ys \<noteq> []"
  shows "find_crlf xs = None"
  using assms
proof (induction line arbitrary: xs rule: has_crlf.induct [case_names two nil one])
  case (two a b r)
  show ?case
  proof (cases xs rule: find_crlf.cases)
    case (1 c d q)
    with two.prems have "c = a" "d = b" "(b # r) @ CRLF = (d # q) @ ys" "\<not> has_crlf (b # r)" by auto
    with two.IH two.prems 1 show ?thesis by auto
  qed simp_all
next
  case nil
  then have "CHR 0x0D # [CHR 0x0A] = xs @ ys" by (simp add: CRLF_def)
  with nil(3) show ?case by (cases xs rule: find_crlf.cases) (auto simp: append_eq_Cons_conv Cons_eq_append_conv)
next
  case (one a)
  then have "a # CHR 0x0D # [CHR 0x0A] = xs @ ys" by (simp add: CRLF_def)
  with one(3) show ?case
    by (cases xs rule: find_crlf.cases) (auto simp: append_eq_Cons_conv Cons_eq_append_conv)
qed

lemma has_crlf_Cons: "c \<noteq> CHR 0x0D \<Longrightarrow> has_crlf (c # s) = has_crlf s"
  by (cases s) simp_all

lemma parse_i64_dec: "n < 2 ^ 63 \<Longrightarrow> parse_i64 (dec n) = Some (int n)"
proof -
  assume n: "n < 2 ^ 63"
  have plus: "hd (dec n) \<noteq> CHR ''+''"
  proof
    assume "hd (dec n) = CHR ''+''"
    then have "CHR ''+'' \<in> set (dec n)" using hd_in_set [OF dec_nonempty [of n]] by simp
    with dec_digits [of "CHR ''+''" n] show False by (simp add: is_digit_def)
  qed
  have "list_all is_digit (dec n)" using dec_digits by (auto simp: list_all_iff)
  moreover have "int n < 2 ^ 63" using n by simp
  ultimately show ?thesis using plus dec_hd_not_minus [of n] by (simp add: parse_i64_def Let_def)
qed

lemma dec_line: "\<not> has_crlf (dec n)"
  by (rule has_crlf_no_CR) (rule dec_no_control)

text \<open>The header line of a bulk string or an array.\<close>

lemma header_line:
  assumes "n \<le> isize_max" "b \<noteq> CHR 0x0D"
  shows "find_crlf (b # dec n @ CRLF @ post) = Some (Suc (length (dec n)))"
    "Option.bind (from_utf8 (take (length (dec n)) (dec n @ CRLF @ post))) parse_i64 = Some (int n)"
proof -
  show "find_crlf (b # dec n @ CRLF @ post) = Some (Suc (length (dec n)))"
    using find_crlf_line [of "b # dec n" post] assms(2) dec_line by (simp add: has_crlf_Cons)
  show "Option.bind (from_utf8 (take (length (dec n)) (dec n @ CRLF @ post))) parse_i64 = Some (int n)"
    using assms(1) utf8_ascii [OF ascii_dec] by (simp add: from_utf8_def parse_i64_dec isize_max_def)
qed

lemma header_partial:
  assumes "b # dec n @ CRLF = xs @ ys" "ys \<noteq> []" "b \<noteq> CHR 0x0D"
  shows "find_crlf xs = None"
  using find_crlf_partial [of "b # dec n" xs ys] assms dec_line by (simp add: has_crlf_Cons)

section \<open>Stepping over one frame\<close>

lemma response_line:
  assumes "\<not> has_crlf s" "b = CHR ''+'' \<or> b = CHR ''-'' \<or> b = CHR '':''"
  shows "try_parse_response E (b # s @ CRLF @ post) = Ok (Some (length s + 3))"
  using assms find_crlf_line [of "b # s" post]
  by (auto simp: try_parse_response.simps has_crlf_Cons)

lemma usize_sum_fits: "n < 2 ^ 64 \<Longrightarrow> usize_sum E n = Ok n"
  by (simp add: usize_sum_def)

lemma length_dec_isize: "n \<le> isize_max \<Longrightarrow> length (dec n) \<le> 20"
  by (rule dec_length_bound) (simp_all add: isize_max_def)

lemma response_bulk:
  assumes "length val \<le> isize_max"
  shows "try_parse_response E (CHR ''$'' # dec (length val) @ CRLF @ rest) =
    Ok (if length val + 2 \<le> length rest then Some (length (dec (length val)) + 5 + length val) else None)"
proof -
  let ?d = "dec (length val)"
  have "Suc (length ?d) + 2 + nat (int (length val)) + 2 < 2 ^ 64"
    using assms length_dec_isize [OF assms] by (simp add: isize_max_def)
  from usize_sum_fits [OF this, of E] show ?thesis
    using header_line [OF assms, of "CHR ''$''" rest]
    by (auto simp: try_parse_response.simps CRLF_def)
qed

lemma response_value:
  assumes "value_fits f" "line_safe f"
  shows "try_parse_response E (encode_value f @ post) = Ok (Some (length (encode_value f)))"
proof (cases f)
  case (Integer v)
  with response_line [of "dec (unat v)" "CHR '':''" E post] dec_line show ?thesis by (simp add: CRLF_def)
next
  case Null
  have "find_crlf (CHR ''$'' # ''-1'' @ CRLF @ post) = Some 3"
    using find_crlf_line [of "CHR ''$'' # ''-1''" post] by simp
  moreover have "parse_i64 ''-1'' = Some (-1)" by (simp add: parse_i64_def is_digit_def undec_def digit_val_def)
  moreover have "from_utf8 ''-1'' = Some ''-1''" by (simp add: from_utf8_def utf8_def)
  ultimately show ?thesis using Null by (simp add: try_parse_response.simps CRLF_def)
next
  case (Bulk val)
  with assms response_bulk [of val E "val @ CRLF @ post"] show ?thesis by (simp add: CRLF_def)
qed (use assms response_line [where E = E and post = post] in \<open>auto simp: CRLF_def\<close>)

lemma response_items:
  assumes "list_all value_fits fs" "list_all line_safe fs"
  shows "parse_items E (length fs) (concat (map encode_value fs) @ post) =
    Ok (Some (length (concat (map encode_value fs))))"
  using assms
proof (induction fs)
  case (Cons f fs)
  with response_value [of f E "concat (map encode_value fs) @ post"] show ?case
    by (simp add: parse_items.simps)
qed (simp add: parse_items.simps)

lemma response_array:
  assumes "n \<le> isize_max"
  shows "try_parse_response E (CHR ''*'' # dec n @ CRLF @ rest) =
    and_then (parse_items E n rest) (\<lambda>used. Ok (map_option ((+) (length (dec n) + 3)) used))"
  using header_line [OF assms, of "CHR ''*''" rest]
  by (simp add: try_parse_response.simps CRLF_def numeral_3_eq_3)

lemma response_frame:
  assumes "flat f" "line_safe f"
  shows "try_parse_response E (encode f @ post) = Ok (Some (length (encode f)))"
proof (cases f)
  case (Array fs)
  with assms response_array [of "length fs" E "concat (map encode_value fs) @ post"]
    response_items [of fs E post] show ?thesis by (simp add: CRLF_def)
qed (use assms response_value [of f E post] in simp_all)

section \<open>A part of a frame is not mistaken for a frame\<close>

lemma strict_prefix_cases:
  assumes "as @ bs = xs @ ys" "ys \<noteq> []"
  obtains zs where "as = xs @ zs" "zs \<noteq> []" | zs where "xs = as @ zs" "bs = zs @ ys"
proof -
  from assms(1) obtain us where "as = xs @ us \<or> as @ us = xs \<and> bs = us @ ys"
    by (auto simp: append_eq_append_conv2)
  with assms(1) that(1) [of us] that(2) [of us] that(2) [of "[]"] show thesis by (cases us) auto
qed

lemma no_line: "find_crlf xs = None \<Longrightarrow> xs = [] \<or> hd xs \<in> set ''+-:$*'' \<Longrightarrow> try_parse_response E xs = Ok None"
  by (cases xs) (auto simp: try_parse_response.simps)

lemma line_partial:
  assumes "\<not> has_crlf s" "b = CHR ''+'' \<or> b = CHR ''-'' \<or> b = CHR '':''"
    and "b # s @ CRLF = xs @ ys" "ys \<noteq> []"
  shows "try_parse_response E xs = Ok None"
proof (rule no_line)
  show "find_crlf xs = None"
    using find_crlf_partial [of "b # s" xs ys] assms by (auto simp: has_crlf_Cons)
qed (use assms(2,3) in \<open>cases xs; auto\<close>)

lemma null_partial:
  assumes "''$-1'' @ CRLF = xs @ ys" "ys \<noteq> []"
  shows "try_parse_response E xs = Ok None"
proof (rule no_line)
  show "find_crlf xs = None" by (rule find_crlf_partial [OF _ assms]) simp
qed (use assms(1) in \<open>cases xs; auto\<close>)

lemma bulk_partial:
  assumes "length val \<le> isize_max" "CHR ''$'' # dec (length val) @ CRLF @ val @ CRLF = xs @ ys" "ys \<noteq> []"
  shows "try_parse_response E xs = Ok None"
proof -
  have "(CHR ''$'' # dec (length val) @ CRLF) @ (val @ CRLF) = xs @ ys" using assms(2) by simp
  then show ?thesis using assms(3)
  proof (cases rule: strict_prefix_cases)
    case (1 zs)
    from header_partial [OF 1] have "find_crlf xs = None" by simp
    then show ?thesis by (rule no_line) (use 1 in \<open>cases xs; simp\<close>)
  next
    case (2 zs)
    from 2(2) have "length (val @ CRLF) = length (zs @ ys)" by (rule arg_cong)
    with assms(3) have "length zs < length val + 2" by (cases ys) (simp_all add: CRLF_def)
    with 2 response_bulk [OF assms(1), of E zs] show ?thesis by simp
  qed
qed

lemma value_partial:
  assumes "value_fits f" "line_safe f" "encode_value f = xs @ ys" "ys \<noteq> []"
  shows "try_parse_response E xs = Ok None"
proof (cases f)
  case (Integer v)
  with assms line_partial [of "dec (unat v)" "CHR '':''" xs ys E] dec_line show ?thesis by simp
next
  case Null
  with assms null_partial [of xs ys E] show ?thesis by simp
next
  case (Bulk val)
  with assms bulk_partial [of val xs ys E] show ?thesis by simp
qed (use assms line_partial [of _ _ xs ys E] in auto)

lemma items_partial:
  assumes "list_all value_fits fs" "list_all line_safe fs"
    and "concat (map encode_value fs) = xs @ ys" "ys \<noteq> []"
  shows "parse_items E (length fs) xs = Ok None"
  using assms
proof (induction fs arbitrary: xs)
  case (Cons f fs)
  then have f: "value_fits f" "line_safe f" by simp_all
  have "encode_value f @ concat (map encode_value fs) = xs @ ys" using Cons.prems(3) by simp
  then show ?case using Cons.prems(4)
  proof (cases rule: strict_prefix_cases)
    case (1 zs)
    from value_partial [OF f 1] show ?thesis by (simp add: parse_items.simps)
  next
    case (2 zs)
    from Cons.IH [OF _ _ 2(2) Cons.prems(4)] Cons.prems(1,2) response_value [OF f, of E zs] 2(1) show ?thesis
      by (simp add: parse_items.simps)
  qed
qed simp

lemma frame_partial:
  assumes "flat f" "line_safe f" "encode f = xs @ ys" "ys \<noteq> []"
  shows "try_parse_response E xs = Ok None"
proof (cases f)
  case (Array fs)
  have "(CHR ''*'' # dec (length fs) @ CRLF) @ concat (map encode_value fs) = xs @ ys" using assms(3) Array by simp
  then show ?thesis using assms(4)
  proof (cases rule: strict_prefix_cases)
    case (1 zs)
    from header_partial [OF 1] have "find_crlf xs = None" by simp
    then show ?thesis by (rule no_line) (use 1 in \<open>cases xs; simp\<close>)
  next
    case (2 zs)
    with assms Array response_array [of "length fs" E zs] items_partial [OF _ _ 2(2) assms(4), of E] show ?thesis
      by simp
  qed
qed (use assms value_partial [of f xs ys E] in simp_all)

section \<open>Batches\<close>

text \<open>The request frames of a batch, as the server will see them.\<close>

definition bench_frame :: "Phase \<Rightarrow> nat \<Rightarrow> bytes \<Rightarrow> nat \<Rightarrow> frame" where
  "bench_frame phase conn_id val i = Array (map Bulk (case phase of
     SetPhase \<Rightarrow> [''SET'', bench_key conn_id i, val] | GetPhase \<Rightarrow> [''GET'', bench_key conn_id i]))"

lemma dec_digit: "dec 2 = ''2''" "dec 3 = ''3''"
  by code_simp+

lemma bench_command_encode: "bench_command phase conn_id val i = encode (bench_frame phase conn_id val i)"
  by (cases phase) (simp_all add: bench_command_def bench_frame_def Let_def dec_digit
      numeral_2_eq_2 [symmetric] numeral_3_eq_3 [symmetric])

lemma build_batch_encode:
  "build_batch phase conn_id count val = concat (map encode (map (bench_frame phase conn_id val) [0..<count]))"
  unfolding build_batch_def map_map comp_def bench_command_encode [symmetric] ..

section \<open>Properties\<close>

text \<open>
  The scanner looks for the first line break, as the server's own reader does. A simple string or an error
  whose text has a line break, which the server does write for some unknown commands, is
  therefore taken for a response that ends at that line break.
\<close>

lemma scanner_splits_text:
  assumes "\<not> has_crlf line" "f = Simple (line @ CRLF @ text) \<or> f = Error (line @ CRLF @ text)"
  shows "try_parse_response E (encode f @ post) = Ok (Some (length line + 3)) \<and> length line + 3 < length (encode f)"
  using assms(2) response_line [OF assms(1), of "CHR ''+''" E "text @ CRLF @ post"]
    response_line [OF assms(1), of "CHR ''-''" E "text @ CRLF @ post"]
  by auto (simp_all add: CRLF_def)

text \<open>
  C37: the benchmark's scanner agrees with the server's encoder on frames as the protocol has them: an
  array has no arrays in it, lengths fit an \<open>isize\<close> (\<open>flat\<close>), and the text of a simple string or
  an error is UTF-8 without a line break (\<open>line_safe\<close>). On a buffer that starts with the encoding of such a frame it
  reports exactly the length of that encoding, whatever follows; on every proper prefix of the
  encoding it waits for more; it never panics on either.
\<close>

theorem response_scanner_exact:
  assumes "flat f" "line_safe f"
  shows "try_parse_response E (encode f @ post) = Ok (Some (length (encode f))) \<and>
    (encode f = xs @ ys \<and> ys \<noteq> [] \<longrightarrow> try_parse_response E xs = Ok None)"
  using response_frame [OF assms] frame_partial [OF assms] by blast

theorem response_scanner_exact_witness:
  "try_parse_response (ref_env True) (encode (Bulk ''xx'') @ ''+OK'') = Ok (Some 8)"
proof -
  have "flat (Bulk ''xx'')" "line_safe (Bulk ''xx'')" by (simp_all add: isize_max_def)
  from conjunct1 [OF response_scanner_exact [OF this, of "ref_env True" "''+OK''"]]
  show ?thesis by (simp add: CRLF_def dec_digit numeral_2_eq_2 [symmetric])
qed

end
