(* ===== verification/Bench_Loop.thy ===== *)
theory Bench_Loop
  imports Bench_Codec Reactor "HOL-Library.Multiset"
begin

text \<open>
  \<open>src/redis-bench/src/main.rs\<close>, second part: the event loop of \<open>run_phase\<close> and the statistics of
  \<open>print_stats\<close>. A connection uses the stream of theory Reactor; between two events bytes arrive,
  room grows and the peer closes as it likes, and any event may come at any time.
\<close>

section \<open>Connections\<close>

record bconn =
  b_stream :: stream
  b_obuf :: bytes
  b_written :: nat
  b_recv :: bytes
  b_cap :: nat
  b_pending :: nat
  b_batch :: nat
  b_start :: instant
  b_latency :: "duration option"
  b_sent :: nat
  b_total :: nat
  b_connected :: bool
  b_want_write :: bool
  b_registered :: bool

record bench =
  b_conns :: "bconn list"
  b_lats :: "duration list"
  b_done :: nat

definition conn_new :: "instant \<Rightarrow> Phase \<Rightarrow> nat \<Rightarrow> nat \<Rightarrow> bytes \<Rightarrow> nat \<Rightarrow> stream \<Rightarrow> bconn" where
  "conn_new t phase requests_per_conn pipeline val i st =
     (let batch_size = min pipeline requests_per_conn in
      \<lparr>b_stream = st, b_obuf = build_batch phase i batch_size val, b_written = 0, b_recv = [], b_cap = 64 * 1024,
       b_pending = batch_size, b_batch = batch_size, b_start = t, b_latency = None, b_sent = batch_size,
       b_total = requests_per_conn, b_connected = False, b_want_write = True, b_registered = True\<rparr>)"

definition bench_init :: "instant \<Rightarrow> Phase \<Rightarrow> nat \<Rightarrow> nat \<Rightarrow> bytes \<Rightarrow> stream list \<Rightarrow> bench" where
  "bench_init t phase requests_per_conn pipeline val streams =
     \<lparr>b_conns = map (\<lambda>(i, st). conn_new t phase requests_per_conn pipeline val i st) (enumerate 0 streams),
      b_lats = [], b_done = 0\<rparr>"

section \<open>One event\<close>

text \<open>The loop that flushes the command buffer.\<close>

function bench_write_loop :: "bconn \<Rightarrow> (bconn, unit) res" where
  "bench_write_loop c =
     (if b_written c < length (b_obuf c) then
        (case mio_write (drop (b_written c) (b_obuf c)) (b_stream c) of
           (IoOk n, st) \<Rightarrow> bench_write_loop (c\<lparr>b_stream := st, b_written := b_written c + n\<rparr>)
         | (WouldBlock, st) \<Rightarrow> Ok (c\<lparr>b_stream := st\<rparr>)
         | (IoErr, st) \<Rightarrow> Panic PanicMacro)
      else Ok c)"
  by pat_completeness auto
termination
  by (relation "measure (\<lambda>c. length (b_obuf c) - b_written c)")
    (auto simp: mio_write_def Let_def split: if_splits)

text \<open>The loop that reads until the socket would block; a full buffer is doubled first.\<close>

definition grow_cap :: "bconn \<Rightarrow> bconn" where
  "grow_cap c = (if length (b_recv c) = b_cap c then c\<lparr>b_cap := b_cap c * 2\<rparr> else c)"

lemma grow_cap_simps [simp]:
  "b_stream (grow_cap c) = b_stream c" "b_recv (grow_cap c) = b_recv c" "b_pending (grow_cap c) = b_pending c"
  "b_batch (grow_cap c) = b_batch c" "b_sent (grow_cap c) = b_sent c" "b_total (grow_cap c) = b_total c"
  "b_latency (grow_cap c) = b_latency c"
  by (simp_all add: grow_cap_def)

lemma mio_read_shrinks:
  "(IoOk bs, st') = mio_read len st \<Longrightarrow> bs \<noteq> [] \<Longrightarrow> length (concat (arrived st')) < length (concat (arrived st))"
  by (auto simp: mio_read_def split: list.splits peer.splits if_splits)

function bench_read_loop :: "bconn \<Rightarrow> (bconn, unit) res" where
  "bench_read_loop c =
     (let c = grow_cap c in
      case mio_read (b_cap c - length (b_recv c)) (b_stream c) of
        (IoOk bs, st) \<Rightarrow>
          if bs = [] then Panic PanicMacro
          else bench_read_loop (c\<lparr>b_stream := st, b_recv := b_recv c @ bs\<rparr>)
      | (WouldBlock, st) \<Rightarrow> Ok (c\<lparr>b_stream := st\<rparr>)
      | (IoErr, st) \<Rightarrow> Panic PanicMacro)"
  by pat_completeness auto
termination
  by (relation "measure (\<lambda>c. length (concat (arrived (b_stream c))))")
    (auto dest: mio_read_shrinks simp del: length_concat)

declare bench_write_loop.simps [simp del] bench_read_loop.simps [simp del]

text \<open>The loop that counts responses: what is still pending and the bytes not yet used.\<close>

fun bench_parse :: "env \<Rightarrow> nat \<Rightarrow> bytes \<Rightarrow> (nat \<times> bytes, unit) res" where
  "bench_parse E 0 buf = Ok (0, buf)"
| "bench_parse E (Suc pending) buf =
     (if buf = [] then Ok (Suc pending, buf)
      else and_then (try_parse_response E buf) (\<lambda>r.
        case r of
          Some consumed \<Rightarrow> bench_parse E pending (drop consumed buf)
        | None \<Rightarrow> Ok (Suc pending, buf)))"

text \<open>The writable half of the handler; the flag says that the batch is flushed.\<close>

definition on_writable :: "instant \<Rightarrow> bconn \<Rightarrow> (bconn \<times> bool, unit) res" where
  "on_writable t c =
     (let c = c\<lparr>b_connected := True\<rparr>;
          c = (if b_written c = 0 then c\<lparr>b_start := t\<rparr> else c)
      in and_then (bench_write_loop c) (\<lambda>c.
           if b_written c = length (b_obuf c) then Ok (c\<lparr>b_want_write := False\<rparr>, True)
           else Ok (c, False)))"

text \<open>A complete batch: the connection is done or starts the next batch with the same buffer.\<close>

definition batch_complete :: "nat \<Rightarrow> bconn \<Rightarrow> bconn \<times> nat" where
  "batch_complete done_count c =
     (if b_total c \<le> b_sent c then (c\<lparr>b_registered := False\<rparr>, done_count + 1)
      else (c\<lparr>b_written := 0, b_pending := b_batch c, b_sent := b_sent c + b_batch c, b_latency := None,
              b_want_write := True\<rparr>, done_count))"

definition on_readable ::
    "env \<Rightarrow> instant \<Rightarrow> bconn \<Rightarrow> duration list \<Rightarrow> nat \<Rightarrow> (bconn \<times> duration list \<times> nat, unit) res" where
  "on_readable E t c lats done_count =
     (let batch_lat = (case b_latency c of None \<Rightarrow> t - b_start c | Some d \<Rightarrow> d);
          c = c\<lparr>b_latency := Some batch_lat\<rparr>
      in and_then (bench_read_loop c) (\<lambda>c.
         and_then (bench_parse E (b_pending c) (b_recv c)) (\<lambda>(pending, rest).
           let lats = lats @ replicate (b_pending c - pending) batch_lat;
               c = c\<lparr>b_recv := rest, b_pending := pending\<rparr>;
               (c, done_count) = (if pending = 0 then batch_complete done_count c else (c, done_count))
           in Ok (c, lats, done_count))))"

definition bench_event ::
    "env \<Rightarrow> instant \<Rightarrow> nat \<Rightarrow> bool \<Rightarrow> bool \<Rightarrow> bench \<Rightarrow> (bench, unit) res" where
  "bench_event E t idx writable readable s =
     (let c = b_conns s ! idx in
      if b_total c \<le> b_sent c \<and> b_pending c = 0 then Ok s
      else
        and_then (if writable then on_writable t c else Ok (c, False)) (\<lambda>(c, flushed).
          if flushed \<or> \<not> readable then Ok (s\<lparr>b_conns := (b_conns s)[idx := c]\<rparr>)
          else and_then (on_readable E t c (b_lats s) (b_done s)) (\<lambda>(c, lats, done_count).
            Ok (s\<lparr>b_conns := (b_conns s)[idx := c], b_lats := lats, b_done := done_count\<rparr>))))"

text \<open>The steps of \<open>run_phase\<close>: an event is handled, or the outside changes a socket.\<close>

inductive bench_step :: "env \<Rightarrow> bench \<Rightarrow> bench \<Rightarrow> bool" for E where
  step_event: "idx < length (b_conns s) \<Longrightarrow> bench_event E t idx writable readable s = Ok s' \<Longrightarrow>
    bench_step E s s'"
| step_socket: "idx < length (b_conns s) \<Longrightarrow>
    bench_step E s (s\<lparr>b_conns := (b_conns s)[idx := (b_conns s ! idx)\<lparr>b_stream := st\<rparr>]\<rparr>)"

abbreviation bench_reach where
  "bench_reach E \<equiv> (bench_step E)\<^sup>*\<^sup>*"

text \<open>The loop \<open>while done_count < num_conns\<close> is over.\<close>

definition bench_returned :: "bench \<Rightarrow> bool" where
  "bench_returned s \<longleftrightarrow> length (b_conns s) \<le> b_done s"

section \<open>What one event changes\<close>

definition counters :: "bconn \<Rightarrow> nat \<times> nat \<times> nat \<times> nat" where
  "counters c = (b_batch c, b_total c, b_sent c, b_pending c)"

lemma write_loop_counters: "bench_write_loop c = Ok c' \<Longrightarrow> counters c' = counters c"
proof (induction c arbitrary: c' rule: bench_write_loop.induct)
  case (1 c)
  show ?case
  proof (cases "b_written c < length (b_obuf c)")
    case True
    obtain x st where m: "mio_write (drop (b_written c) (b_obuf c)) (b_stream c) = (x, st)" by (metis surj_pair)
    show ?thesis
    proof (cases x)
      case (IoOk n)
      with 1(2) True m have "bench_write_loop (c\<lparr>b_stream := st, b_written := b_written c + n\<rparr>) = Ok c'"
        by (simp add: bench_write_loop.simps [of c])
      from "1.IH" [OF True m [symmetric] IoOk this] show ?thesis by (simp add: counters_def)
    qed (use 1(2) True m in \<open>auto simp: bench_write_loop.simps [of c] counters_def\<close>)
  qed (use 1(2) in \<open>simp add: bench_write_loop.simps [of c]\<close>)
qed

lemma read_loop_counters: "bench_read_loop c = Ok c' \<Longrightarrow> counters c' = counters c"
proof (induction c arbitrary: c' rule: bench_read_loop.induct)
  case (1 c)
  obtain x st where m: "mio_read (b_cap (grow_cap c) - length (b_recv (grow_cap c))) (b_stream (grow_cap c)) = (x, st)"
    by (metis surj_pair)
  show ?case
  proof (cases x)
    case (IoOk bs)
    with 1(2) m have ne: "bs \<noteq> []" and
      "bench_read_loop ((grow_cap c)\<lparr>b_stream := st, b_recv := b_recv (grow_cap c) @ bs\<rparr>) = Ok c'"
      by (auto simp: bench_read_loop.simps [of c] Let_def split: if_splits)
    from "1.IH" [OF refl m [symmetric] IoOk ne this(2)] show ?thesis by (simp add: counters_def)
  qed (use 1(2) m in \<open>auto simp: bench_read_loop.simps [of c] Let_def counters_def\<close>)
qed

lemma bench_parse_le: "bench_parse E p buf = Ok (q, rest) \<Longrightarrow> q \<le> p"
  by (induction E p buf rule: bench_parse.induct)
    (auto simp: and_then_def le_SucI split: if_splits res.splits option.splits)

lemma on_writable_counters: "on_writable t c = Ok (c', flushed) \<Longrightarrow> counters c' = counters c"
  by (auto simp: on_writable_def Let_def and_then_def counters_def
      dest!: write_loop_counters split: res.splits if_splits)

text \<open>The readable half takes some responses off the pending count and records one sample for each.\<close>

lemma on_readable_counters:
  assumes "on_readable E t c lats d = Ok (c', lats', d')"
  obtains q where "q \<le> b_pending c" "length lats' = length lats + (b_pending c - q)"
    "q \<noteq> 0 \<or> b_total c \<le> b_sent c \<Longrightarrow> counters c' = (b_batch c, b_total c, b_sent c, q)"
    "q = 0 \<Longrightarrow> b_sent c < b_total c \<Longrightarrow>
       counters c' = (b_batch c, b_total c, b_sent c + b_batch c, b_batch c)"
    "d' = (if q = 0 \<and> b_total c \<le> b_sent c then d + 1 else d)"
proof -
  define lat where "lat = (case b_latency c of None \<Rightarrow> t - b_start c | Some d \<Rightarrow> d)"
  from assms obtain c1 where r: "bench_read_loop (c\<lparr>b_latency := Some lat\<rparr>) = Ok c1"
    by (auto simp: on_readable_def Let_def lat_def and_then_def split: res.splits)
  with assms obtain q rest where p: "bench_parse E (b_pending c1) (b_recv c1) = Ok (q, rest)"
    by (auto simp: on_readable_def Let_def lat_def and_then_def split: res.splits)
  from read_loop_counters [OF r] have e: "b_batch c1 = b_batch c" "b_total c1 = b_total c"
      "b_sent c1 = b_sent c" "b_pending c1 = b_pending c"
    by (simp_all add: counters_def)
  have q: "q \<le> b_pending c" using bench_parse_le [OF p] e by simp
  from assms r p have "lats' = lats @ replicate (b_pending c1 - q) lat"
      "(c', d') = (if q = 0 then batch_complete d (c1\<lparr>b_recv := rest, b_pending := q\<rparr>)
                   else (c1\<lparr>b_recv := rest, b_pending := q\<rparr>, d))"
    by (auto simp: on_readable_def Let_def lat_def split: prod.splits if_splits)
  with q e show thesis
    by (intro that [of q]) (auto simp: counters_def batch_complete_def split: if_splits)
qed

section \<open>The invariant of a phase\<close>

definition conn_done :: "bconn \<Rightarrow> bool" where
  "conn_done c \<longleftrightarrow> b_total c \<le> b_sent c \<and> b_pending c = 0"

definition conn_inv :: "nat \<Rightarrow> nat \<Rightarrow> bconn \<Rightarrow> bool" where
  "conn_inv B T c \<longleftrightarrow> b_batch c = B \<and> b_total c = T \<and> B dvd b_sent c \<and> B \<le> b_sent c \<and> b_sent c < T + B \<and>
     b_pending c \<le> B \<and> (b_pending c = 0 \<longrightarrow> T \<le> b_sent c)"

definition received_count :: "bconn \<Rightarrow> nat" where
  "received_count c = b_sent c - b_pending c"

definition bench_inv :: "nat \<Rightarrow> nat \<Rightarrow> nat \<Rightarrow> bench \<Rightarrow> bool" where
  "bench_inv B T n s \<longleftrightarrow> length (b_conns s) = n \<and> (\<forall>c\<in>set (b_conns s). conn_inv B T c) \<and>
     b_done s = length (filter conn_done (b_conns s)) \<and>
     length (b_lats s) = sum_list (map received_count (b_conns s))"

lemma counters_inv:
  "counters c' = counters c \<Longrightarrow> conn_inv B T c' = conn_inv B T c \<and> conn_done c' = conn_done c \<and>
     received_count c' = received_count c"
  by (simp add: counters_def conn_inv_def conn_done_def received_count_def)

text \<open>Replacing one connection.\<close>

lemma length_filter_update:
  "i < length xs \<Longrightarrow> length (filter P (xs[i := y])) + of_bool (P (xs ! i)) = length (filter P xs) + of_bool (P y)"
proof (induction xs arbitrary: i)
  case (Cons x xs)
  then show ?case using Cons.IH [of "i - 1"] by (cases i) simp_all
qed simp

lemma sum_list_update_nat:
  fixes f :: "'a \<Rightarrow> nat"
  shows "i < length xs \<Longrightarrow> sum_list (map f (xs[i := y])) + f (xs ! i) = sum_list (map f xs) + f y"
proof (induction xs arbitrary: i)
  case (Cons x xs)
  then show ?case using Cons.IH [of "i - 1"] by (cases i) simp_all
qed simp

lemma bench_inv_update:
  assumes inv: "bench_inv B T n s" and i: "i < length (b_conns s)"
    and c: "conn_inv B T c" "\<not> conn_done (b_conns s ! i)"
      "d = b_done s + of_bool (conn_done c)"
      "length lats + received_count (b_conns s ! i) = length (b_lats s) + received_count c"
  shows "bench_inv B T n (s\<lparr>b_conns := (b_conns s)[i := c], b_lats := lats, b_done := d\<rparr>)"
proof -
  have "\<forall>x\<in>set ((b_conns s)[i := c]). conn_inv B T x"
    using inv c(1) set_update_subset_insert [of "b_conns s" i c] by (auto simp: bench_inv_def)
  with inv c(2-) length_filter_update [OF i, of conn_done c] sum_list_update_nat [OF i, of received_count c]
  show ?thesis by (simp add: bench_inv_def)
qed

lemma bench_inv_same:
  assumes "bench_inv B T n s" "i < length (b_conns s)" "counters c = counters (b_conns s ! i)"
  shows "bench_inv B T n (s\<lparr>b_conns := (b_conns s)[i := c]\<rparr>)"
proof -
  from assms(1,2) have "conn_inv B T (b_conns s ! i)" by (simp add: bench_inv_def)
  with counters_inv [OF assms(3)]
  have "\<forall>x\<in>set ((b_conns s)[i := c]). conn_inv B T x"
    using assms(1) set_update_subset_insert [of "b_conns s" i c] by (auto simp: bench_inv_def)
  with assms counters_inv [OF assms(3)] length_filter_update [OF assms(2), of conn_done c]
    sum_list_update_nat [OF assms(2), of received_count c]
  show ?thesis by (simp add: bench_inv_def)
qed

lemma conn_inv_readable:
  assumes inv: "conn_inv B T c" "\<not> conn_done c" "0 < B" and r: "on_readable E t c lats d = Ok (c', lats', d')"
  shows "conn_inv B T c'" "d' = d + of_bool (conn_done c')"
    "length lats' + received_count c = length lats + received_count c'"
proof -
  obtain q where q: "q \<le> b_pending c" "length lats' = length lats + (b_pending c - q)"
    "q \<noteq> 0 \<or> b_total c \<le> b_sent c \<Longrightarrow> counters c' = (b_batch c, b_total c, b_sent c, q)"
    "q = 0 \<Longrightarrow> b_sent c < b_total c \<Longrightarrow>
       counters c' = (b_batch c, b_total c, b_sent c + b_batch c, b_batch c)"
    "d' = (if q = 0 \<and> b_total c \<le> b_sent c then d + 1 else d)"
    using on_readable_counters [OF r] by blast
  have "conn_inv B T c' \<and> d' = d + of_bool (conn_done c') \<and>
    length lats' + received_count c = length lats + received_count c'"
  proof (cases "q \<noteq> 0 \<or> b_total c \<le> b_sent c")
    case True
    from q(3) [OF True] q(1,2,5) inv True show ?thesis
      by (auto simp: counters_def conn_inv_def conn_done_def received_count_def)
  next
    case False
    with q(4) q(1,2,5) inv show ?thesis
      by (auto simp: counters_def conn_inv_def conn_done_def received_count_def)
  qed
  then show "conn_inv B T c'" "d' = d + of_bool (conn_done c')"
    "length lats' + received_count c = length lats + received_count c'" by blast+
qed

text \<open>The four ways an event can go.\<close>

lemma bench_event_cases:
  assumes "bench_event E t i writable readable s = Ok s'"
  obtains (idle) "conn_done (b_conns s ! i)" "s' = s"
  | (write_only) c where "\<not> conn_done (b_conns s ! i)" "counters c = counters (b_conns s ! i)"
      "s' = s\<lparr>b_conns := (b_conns s)[i := c]\<rparr>"
  | (read) c1 c lats d where "\<not> conn_done (b_conns s ! i)" "counters c1 = counters (b_conns s ! i)"
      "on_readable E t c1 (b_lats s) (b_done s) = Ok (c, lats, d)"
      "s' = s\<lparr>b_conns := (b_conns s)[i := c], b_lats := lats, b_done := d\<rparr>"
proof (cases "conn_done (b_conns s ! i)")
  case True
  with assms have "s' = s" unfolding bench_event_def conn_done_def by simp
  with idle True show thesis by blast
next
  case False
  with assms have "and_then (if writable then on_writable t (b_conns s ! i) else Ok (b_conns s ! i, False))
    (\<lambda>(c, flushed).
       if flushed \<or> \<not> readable then Ok (s\<lparr>b_conns := (b_conns s)[i := c]\<rparr>)
       else and_then (on_readable E t c (b_lats s) (b_done s)) (\<lambda>(c, lats, d).
         Ok (s\<lparr>b_conns := (b_conns s)[i := c], b_lats := lats, b_done := d\<rparr>))) = Ok s'"
    unfolding bench_event_def Let_def conn_done_def by (simp only: if_False)
  then obtain c1 flushed where
    w: "(if writable then on_writable t (b_conns s ! i) else Ok (b_conns s ! i, False)) = Ok (c1, flushed)" and
    rest: "(if flushed \<or> \<not> readable then Ok (s\<lparr>b_conns := (b_conns s)[i := c1]\<rparr>)
       else and_then (on_readable E t c1 (b_lats s) (b_done s)) (\<lambda>(c, lats, d).
         Ok (s\<lparr>b_conns := (b_conns s)[i := c], b_lats := lats, b_done := d\<rparr>))) = Ok s'"
    unfolding and_then_Ok_iff split_paired_Ex prod.case by blast
  have c1: "counters c1 = counters (b_conns s ! i)" using w by (auto dest: on_writable_counters split: if_splits)
  show thesis
  proof (cases "flushed \<or> \<not> readable")
    case True
    with rest have "s' = s\<lparr>b_conns := (b_conns s)[i := c1]\<rparr>" by simp
    with write_only [OF False c1] show thesis .
  next
    case nf: False
    with rest obtain c2 lats d where "on_readable E t c1 (b_lats s) (b_done s) = Ok (c2, lats, d)"
      "s' = s\<lparr>b_conns := (b_conns s)[i := c2], b_lats := lats, b_done := d\<rparr>"
      by (auto simp: and_then_Ok_iff)
    with read [OF False c1] show thesis .
  qed
qed

lemma bench_event_inv:
  assumes inv: "bench_inv B T n s" "0 < B" and i: "i < length (b_conns s)"
    and ev: "bench_event E t i writable readable s = Ok s'"
  shows "bench_inv B T n s'"
  using ev
proof (cases rule: bench_event_cases)
  case idle
  with inv show ?thesis by simp
next
  case (write_only c)
  with bench_inv_same [OF inv(1) i] show ?thesis by simp
next
  case (read c1 c lats d)
  from inv(1) i have "conn_inv B T (b_conns s ! i)" by (simp add: bench_inv_def)
  with counters_inv [OF read(2)] read(1) have "conn_inv B T c1" "\<not> conn_done c1" by simp_all
  from conn_inv_readable [OF this inv(2) read(3)] counters_inv [OF read(2)]
  show ?thesis unfolding read(4) by (intro bench_inv_update [OF inv(1) i]) (use read(1) in auto)
qed

lemma bench_step_inv: "bench_step E s s' \<Longrightarrow> bench_inv B T n s \<Longrightarrow> 0 < B \<Longrightarrow> bench_inv B T n s'"
  by (induction rule: bench_step.induct) (auto intro: bench_event_inv bench_inv_same simp: counters_def)

lemma filter_none: "(\<And>x. x \<in> set xs \<Longrightarrow> \<not> P x) \<Longrightarrow> filter P xs = []"
  by simp

lemma bench_init_inv:
  assumes "B = min pipeline T" "0 < B"
  shows "bench_inv B T (length streams) (bench_init t phase T pipeline val streams)"
proof -
  let ?s = "bench_init t phase T pipeline val streams"
  have c: "conn_inv B T c \<and> \<not> conn_done c \<and> received_count c = 0" if "c \<in> set (b_conns ?s)" for c
    using that assms by (auto simp: bench_init_def conn_new_def Let_def conn_inv_def conn_done_def received_count_def)
  then have "filter conn_done (b_conns ?s) = []" "sum_list (map received_count (b_conns ?s)) = 0"
    by (auto simp: sum_list_eq_0_iff intro!: filter_none)
  with c show ?thesis by (simp add: bench_inv_def) (simp add: bench_init_def)
qed

lemma bench_reach_inv:
  assumes "bench_reach E (bench_init t phase T pipeline val streams) s" "0 < min pipeline T"
  shows "bench_inv (min pipeline T) T (length streams) s"
  using assms(1)
proof (rule reach_invariant)
  show "bench_inv (min pipeline T) T (length streams) (bench_init t phase T pipeline val streams)"
    by (rule bench_init_inv) (use assms in simp_all)
  show "bench_inv (min pipeline T) T (length streams) y"
    if "bench_inv (min pipeline T) T (length streams) x" "bench_step E x y" for x y
    using bench_step_inv [OF that(2,1)] assms(2) by blast
qed

lemma rounded_up:
  fixes B T x :: nat
  assumes "0 < B" "B dvd x" "T \<le> x" "x < T + B"
  shows "x = B * ((T + B - 1) div B)"
proof -
  from assms(2) obtain k where k: "x = B * k" by blast
  from assms k have "B * k \<le> T + B - 1" "T + B - 1 < B * Suc k" by auto
  with k assms(1) show ?thesis by (metis div_nat_eqI mult.commute)
qed

section \<open>Counting responses\<close>

lemma encode_nonempty: "encode f \<noteq> []"
  by (cases f) simp_all

text \<open>
  Of a buffer that holds whole responses and then less than one more, the loop takes the whole ones
  and keeps the rest.
\<close>

lemma bench_parse_frames:
  assumes "list_all flat fs" "list_all line_safe fs" "length fs \<le> p"
    and "flat g" "line_safe g" "encode g = xs @ ys" "ys \<noteq> []"
  shows "bench_parse E p (concat (map encode fs) @ xs) = Ok (p - length fs, xs)"
  using assms(1-3)
proof (induction fs arbitrary: p)
  case Nil
  show ?case by (cases p) (simp_all add: frame_partial [OF assms(4-7)])
next
  case (Cons f fs)
  then obtain p' where p: "p = Suc p'" by (cases p) simp_all
  from Cons p have "bench_parse E p' (concat (map encode fs) @ xs) = Ok (p' - length fs, xs)" by simp
  moreover have "try_parse_response E (encode f @ concat (map encode fs) @ xs) = Ok (Some (length (encode f)))"
    using Cons.prems by (intro response_frame) simp_all
  ultimately show ?case using p encode_nonempty [of f] by simp
qed

lemma bench_parse_all:
  assumes "list_all flat fs" "list_all line_safe fs"
  shows "bench_parse E (length fs) (concat (map encode fs)) = Ok (0, [])"
  using bench_parse_frames [OF assms, of "length fs" Null "[]" "encode Null" E] by simp

section \<open>Statistics\<close>

text \<open>
  The summary of \<open>print_stats\<close>. The sum of durations and its division are checked, the divisor is
  the length cast to 32 bits, the products that give the positions are \<open>usize\<close>, and indexing is checked.
\<close>

record summary =
  s_avg :: duration
  s_min :: duration
  s_p50 :: duration
  s_p95 :: duration
  s_p99 :: duration
  s_max :: duration

definition sum_durations :: "duration list \<Rightarrow> (duration, unit) res" where
  "sum_durations ds = (if sum_list ds < 2 ^ 64 * 10 ^ 9 then Ok (sum_list ds) else Panic ExpectNone)"

definition sample :: "duration list \<Rightarrow> nat \<Rightarrow> (duration, unit) res" where
  "sample ds i = (if i < length ds then Ok (ds ! i) else Panic IndexOutOfBounds)"

definition pct_sample :: "env \<Rightarrow> nat \<Rightarrow> duration list \<Rightarrow> (duration, unit) res" where
  "pct_sample E p ds = and_then (usize_sum E (length ds * p)) (\<lambda>x. sample ds (x div 100))"

definition print_stats :: "env \<Rightarrow> duration list \<Rightarrow> (summary option, unit) res" where
  "print_stats E lats =
     (if lats = [] then Ok None
      else
        let ds = sort lats;
            len = length ds
        in and_then (sum_durations ds) (\<lambda>total.
           and_then (if len mod 2 ^ 32 = 0 then Panic ExpectNone else Ok (total div (len mod 2 ^ 32))) (\<lambda>avg.
           and_then (sample ds 0) (\<lambda>lo.
           and_then (pct_sample E 50 ds) (\<lambda>p50.
           and_then (pct_sample E 95 ds) (\<lambda>p95.
           and_then (pct_sample E 99 ds) (\<lambda>p99.
           and_then (sample ds (len - 1)) (\<lambda>hi.
             Ok (Some \<lparr>s_avg = avg, s_min = lo, s_p50 = p50, s_p95 = p95, s_p99 = p99, s_max = hi\<rparr>)))))))))"

lemma pct_sample_ok:
  assumes "ds \<noteq> []" "length ds < 2 ^ 32" "p < 100"
  shows "pct_sample E p ds = Ok (ds ! (length ds * p div 100))" "length ds * p div 100 < length ds"
proof -
  have "length ds * p \<le> length ds * 99" using assms(3) by simp
  also have "\<dots> < 2 ^ 64" using assms(2) by simp
  finally have "usize_sum E (length ds * p) = Ok (length ds * p)" by (rule usize_sum_fits)
  moreover show i: "length ds * p div 100 < length ds" using assms(1,3) by (simp add: div_less_iff_less_mult)
  ultimately show "pct_sample E p ds = Ok (ds ! (length ds * p div 100))" by (simp add: pct_sample_def sample_def)
qed

lemma sorted_bounds:
  assumes "sorted ds" "x \<in> set ds"
  shows "ds ! 0 \<le> x" "x \<le> ds ! (length ds - 1)"
proof -
  from assms(2) obtain i where "i < length ds" "x = ds ! i" by (auto simp: in_set_conv_nth)
  with assms(1) show "ds ! 0 \<le> x" "x \<le> ds ! (length ds - 1)" by (auto intro!: sorted_nth_mono)
qed

lemma sum_list_sort: "sum_list (sort ds) = sum_list (ds :: nat list)"
  by (metis mset_sort sum_mset_sum_list)

lemma avg_bounds:
  fixes ds :: "nat list"
  assumes "ds \<noteq> []" "\<And>x. x \<in> set ds \<Longrightarrow> lo \<le> x" "\<And>x. x \<in> set ds \<Longrightarrow> x \<le> hi"
  shows "lo \<le> sum_list ds div length ds" "sum_list ds div length ds \<le> hi"
proof -
  have "length ds * lo \<le> sum_list ds" using assms(2) by (induction ds) fastforce+
  with assms(1) show "lo \<le> sum_list ds div length ds" by (simp add: less_eq_div_iff_mult_less_eq mult.commute)
  have "sum_list ds \<le> length ds * hi" using assms(3) by (induction ds) fastforce+
  then have "sum_list ds div length ds \<le> length ds * hi div length ds" by (rule div_le_mono)
  with assms(1) show "sum_list ds div length ds \<le> hi" by simp
qed

section \<open>The configuration\<close>

text \<open>The split of the requests over the connections in \<open>main\<close>.\<close>

definition requests_per_conn :: "nat \<Rightarrow> nat \<Rightarrow> (nat, unit) res" where
  "requests_per_conn num_requests connections =
     (if connections = 0 then Panic DivByZero else Ok (num_requests div connections))"

section \<open>Empty batches\<close>

definition empty_inv :: "nat \<Rightarrow> nat \<Rightarrow> bench \<Rightarrow> bool" where
  "empty_inv T n s \<longleftrightarrow> length (b_conns s) = n \<and> b_done s = 0 \<and>
     (\<forall>c\<in>set (b_conns s). counters c = (0, T, 0, 0))"

lemma empty_inv_update:
  assumes "empty_inv T n s" "counters c = (0, T, 0, 0)"
  shows "empty_inv T n (s\<lparr>b_conns := (b_conns s)[i := c]\<rparr>)"
    "empty_inv T n (s\<lparr>b_conns := (b_conns s)[i := c], b_lats := lats, b_done := 0\<rparr>)"
  using assms set_update_subset_insert [of "b_conns s" i c] by (auto simp: empty_inv_def)

lemma empty_inv_nth: "empty_inv T n s \<Longrightarrow> i < length (b_conns s) \<Longrightarrow> counters (b_conns s ! i) = (0, T, 0, 0)"
  by (simp add: empty_inv_def)

lemma empty_event_inv:
  assumes inv: "empty_inv T n s" and i: "i < length (b_conns s)"
    and ev: "bench_event E t i writable readable s = Ok s'"
  shows "empty_inv T n s'"
  using ev
proof (cases rule: bench_event_cases)
  case idle
  with inv show ?thesis by simp
next
  case (write_only c)
  with empty_inv_update(1) [OF inv] empty_inv_nth [OF inv i] show ?thesis by simp
next
  case (read c1 c lats d)
  from read(2) empty_inv_nth [OF inv i] have c1: "counters c1 = (0, T, 0, 0)" by simp
  have "0 < T" using read(1) empty_inv_nth [OF inv i] by (simp add: conn_done_def counters_def)
  with c1 on_readable_counters [OF read(3)] have "counters c = (0, T, 0, 0) \<and> d = b_done s"
    by (auto simp: counters_def)
  moreover have "b_done s = 0" using inv by (simp add: empty_inv_def)
  ultimately show ?thesis unfolding read(4) using empty_inv_update(2) [OF inv, where c = c and i = i and lats = lats] by simp
qed

lemma empty_step_inv: "bench_step E s s' \<Longrightarrow> empty_inv T n s \<Longrightarrow> empty_inv T n s'"
proof (induction rule: bench_step.induct)
  case (step_event idx s t writable readable s')
  then show ?case by (blast intro: empty_event_inv)
next
  case (step_socket idx s st)
  with empty_inv_nth [OF step_socket(2,1)] show ?case
    by (intro empty_inv_update(1)) (simp_all add: counters_def)
qed

lemma empty_init_inv:
  "min pipeline T = 0 \<Longrightarrow> empty_inv T (length streams) (bench_init t phase T pipeline val streams)"
  by (auto simp: empty_inv_def bench_init_def conn_new_def Let_def counters_def)

section \<open>A run of the loop\<close>

text \<open>With enough room a batch leaves in one event; what has arrived is read in one event.\<close>

lemma write_loop_all:
  assumes "b_written c = 0" "b_obuf c \<noteq> []" "\<not> broken (b_stream c)" "length (b_obuf c) \<le> room (b_stream c)"
  shows "bench_write_loop c = Ok (c\<lparr>b_stream := (b_stream c)\<lparr>room := room (b_stream c) - length (b_obuf c),
    written_out := written_out (b_stream c) @ b_obuf c\<rparr>, b_written := length (b_obuf c)\<rparr>)"
proof -
  let ?st = "(b_stream c)\<lparr>room := room (b_stream c) - length (b_obuf c),
    written_out := written_out (b_stream c) @ b_obuf c\<rparr>"
  have "0 < room (b_stream c)" using assms(2,4) by (cases "b_obuf c") auto
  with assms have "mio_write (b_obuf c) (b_stream c) = (IoOk (length (b_obuf c)), ?st)"
    by (simp add: mio_write_def Let_def)
  with assms(1,2) show ?thesis by (simp add: bench_write_loop.simps)
qed

lemma read_loop_one:
  assumes "arrived (b_stream c) = [bs]" "peer (b_stream c) = Silent" "bs \<noteq> []"
    "length (b_recv c) + length bs < b_cap c"
  shows "bench_read_loop c = Ok (c\<lparr>b_stream := (b_stream c)\<lparr>arrived := [], rblock := True\<rparr>, b_recv := b_recv c @ bs\<rparr>)"
proof -
  let ?c = "c\<lparr>b_stream := (b_stream c)\<lparr>arrived := []\<rparr>, b_recv := b_recv c @ bs\<rparr>"
  have fits: "length bs \<le> b_cap c - length (b_recv c)" using assms(4) by simp
  have "grow_cap c = c" "grow_cap ?c = ?c" using assms(3,4) by (simp_all add: grow_cap_def)
  with assms fits have 1: "bench_read_loop c = bench_read_loop ?c"
    by (subst bench_read_loop.simps) (simp add: mio_read_def Let_def)
  have "bench_read_loop ?c = Ok (c\<lparr>b_stream := (b_stream c)\<lparr>arrived := [], rblock := True\<rparr>, b_recv := b_recv c @ bs\<rparr>)"
    using \<open>grow_cap ?c = ?c\<close> assms(2) by (subst bench_read_loop.simps) (simp add: mio_read_def Let_def)
  with 1 show ?thesis by simp
qed


text \<open>One connection, one request, one reply.\<close>

definition demo_conn :: "bytes list \<Rightarrow> bytes \<Rightarrow> stream" where
  "demo_conn arr out = \<lparr>stok = 0, arrived = arr, peer = Silent, room = 100 - length out, broken = False, rblock = False,
     wblock = False, received = concat arr, written_out = out\<rparr>"

definition demo_bench :: "Phase \<Rightarrow> bytes list \<Rightarrow> bool \<Rightarrow> bench" where
  "demo_bench ph arr flushed =
     (let c = conn_new 5 ph 1 1 [] 0 (demo_conn arr (if flushed then build_batch ph 0 1 [] else []))
      in \<lparr>b_conns = [if flushed then c\<lparr>b_written := length (b_obuf c), b_connected := True, b_want_write := False\<rparr> else c],
          b_lats = [], b_done = 0\<rparr>)"

lemma demo_batch:
  "length (build_batch ph 0 (Suc 0) []) \<le> 100" "build_batch ph 0 (Suc 0) [] \<noteq> []"
  by (cases ph; simp add: build_batch_def bench_command_def bench_key_def Let_def CRLF_def dec.simps)+

lemma demo_write: "bench_event E 5 0 True False (demo_bench ph [] False) = Ok (demo_bench ph [] True)"
proof -
  let ?c = "(conn_new 5 ph 1 1 [] 0 (demo_conn [] []))\<lparr>b_connected := True\<rparr>"
  have "bench_write_loop ?c = Ok (?c\<lparr>b_stream := demo_conn [] (b_obuf ?c), b_written := length (b_obuf ?c)\<rparr>)"
    using write_loop_all [of ?c] by (simp add: conn_new_def demo_conn_def demo_batch CRLF_def Let_def)
  then show ?thesis
    by (simp add: bench_event_def demo_bench_def on_writable_def conn_new_def Let_def)
qed

definition demo_end :: "Phase \<Rightarrow> bench" where
  "demo_end ph = (let s = demo_bench ph [] True; c = b_conns s ! 0; st = b_stream c
     in s\<lparr>b_conns := [c\<lparr>b_stream := st\<lparr>rblock := True, received := encode Null\<rparr>, b_pending := 0, b_latency := Some 4, b_registered := False\<rparr>],
        b_lats := [4], b_done := 1\<rparr>)"

lemma demo_read: "bench_event E 9 0 False True (demo_bench ph [encode Null] True) = Ok (demo_end ph)"
proof -
  let ?c = "(b_conns (demo_bench ph [encode Null] True) ! 0)\<lparr>b_latency := Some 4\<rparr>"
  have "bench_read_loop ?c = Ok (?c\<lparr>b_stream := (b_stream ?c)\<lparr>arrived := [], rblock := True\<rparr>, b_recv := encode Null\<rparr>)"
    using read_loop_one [of ?c "encode Null"] by (simp add: demo_bench_def conn_new_def demo_conn_def CRLF_def Let_def)
  moreover have "bench_parse E 1 (encode Null) = Ok (0, [])" using bench_parse_all [of "[Null]" E] by simp
  ultimately show ?thesis
    by (simp add: bench_event_def demo_bench_def demo_end_def on_readable_def batch_complete_def conn_new_def demo_conn_def Let_def)
qed

lemma demo_bench_reach: "bench_reach E (bench_init 5 ph 1 1 [] [demo_conn [] []]) (demo_end ph)"
proof -
  let ?s = "demo_bench ph [] True"
  have 0: "bench_init 5 ph 1 1 [] [demo_conn [] []] = demo_bench ph [] False"
    by (simp add: bench_init_def demo_bench_def Let_def)
  have n: "0 < length (b_conns (demo_bench ph arr f))" for arr f by (simp add: demo_bench_def Let_def)
  have 1: "bench_step E (demo_bench ph [] False) ?s"
    by (rule bench_step.step_event [OF n demo_write])
  have "demo_bench ph [encode Null] True = ?s\<lparr>b_conns := (b_conns ?s)[0 := (b_conns ?s ! 0)\<lparr>b_stream :=
      b_stream (b_conns (demo_bench ph [encode Null] True) ! 0)\<rparr>]\<rparr>"
    by (simp add: demo_bench_def conn_new_def Let_def)
  then have 2: "bench_step E ?s (demo_bench ph [encode Null] True)"
    by (metis bench_step.step_socket [OF n])
  have 3: "bench_step E (demo_bench ph [encode Null] True) (demo_end ph)"
    by (rule bench_step.step_event [OF n demo_read])
  from 1 2 3 show ?thesis unfolding 0 by (meson r_into_rtranclp rtranclp.rtrancl_into_rtrancl)
qed

section \<open>Properties\<close>

text \<open>When every connection is done, it has had its share, rounded up to whole batches.\<close>

lemma phase_sample_count:
  assumes "requests_per_conn num_requests (length streams) = Ok T"
    and "bench_reach E (bench_init t phase T pipeline val streams) s"
    and "bench_returned s" "B = min pipeline T" "0 < B"
  shows "length (b_lats s) = length streams * (B * ((T + B - 1) div B))"
proof -
  from bench_reach_inv [OF assms(2)] assms(4,5) have inv: "bench_inv B T (length streams) s" by simp
  then have all: "filter conn_done (b_conns s) = b_conns s"
    using assms(3) by (simp add: bench_inv_def bench_returned_def)
      (metis filter_True filter_id_conv length_filter_le length_filter_less nat_less_le order_antisym_conv)
  have "received_count c = B * ((T + B - 1) div B)" if "c \<in> set (b_conns s)" for c
  proof -
    from that all have "conn_done c" by (metis filter_id_conv)
    with that inv rounded_up [of B "b_sent c" T] assms(5) show ?thesis
      by (simp add: bench_inv_def conn_inv_def conn_done_def received_count_def)
  qed
  then have "map received_count (b_conns s) = replicate (length streams) (B * ((T + B - 1) div B))"
    using inv by (simp add: bench_inv_def map_replicate_const list_eq_iff_nth_eq)
  with inv show ?thesis by (simp add: bench_inv_def sum_list_replicate)
qed

text \<open>
  C27: a benchmark phase takes one latency sample per response, and it takes a whole number of
  batches per connection. When \<open>run_phase\<close> returns, every connection has had its share of the
  requests rounded up to a multiple of the batch size answered: with \<open>B = min pipeline T\<close> and
  \<open>T = num_requests / connections\<close> there are, in all, \<open>B * ceil (T / B)\<close> samples times the number of connections, whatever
  the order and the kind of the events and however the responses are cut into pieces. This is the
  number of requests asked for only if \<open>connections\<close> divides it and \<open>B\<close> divides the quotient.
\<close>

theorem bench_sample_count:
  assumes "requests_per_conn num_requests (length streams) = Ok T"
    and "bench_reach E (bench_init t phase T pipeline val streams) s"
    and "bench_returned s" "B = min pipeline T" "0 < B"
  shows "length (b_lats s) = length streams * (B * ((T + B - 1) div B))"
  using assms by (rule phase_sample_count)

lemma demo_end_returned: "bench_returned (demo_end ph)"
  by (simp add: bench_returned_def demo_end_def demo_bench_def Let_def)

theorem bench_sample_count_witness: "bench_returned (demo_end GetPhase) \<and> length (b_lats (demo_end GetPhase)) = 1"
proof -
  note r = demo_end_returned [of GetPhase]
  have "requests_per_conn 1 (length [demo_conn [] []]) = Ok 1" by (simp add: requests_per_conn_def)
  from bench_sample_count [OF this demo_bench_reach [of "ref_env True" GetPhase] r refl] r show ?thesis by simp
qed

text \<open>
  A phase whose batches are empty never returns. If the pipeline depth is 0, or there are fewer
  requests than connections so that a connection's share is 0, then the first test of the loop body
  or the test \<open>sent >= total\<close> never lets a connection be counted as done, whatever happens.
\<close>

theorem bench_empty_batch_hangs:
  assumes "requests_per_conn num_requests (length streams) = Ok T" "min pipeline T = 0"
    and "bench_reach E (bench_init t phase T pipeline val streams) s"
  shows "\<not> bench_returned s"
proof -
  from assms(3) empty_init_inv [OF assms(2)] empty_step_inv have "empty_inv T (length streams) s"
    by (rule reach_invariant)
  moreover have "streams \<noteq> []" using assms(1) by (auto simp: requests_per_conn_def)
  ultimately show ?thesis by (simp add: empty_inv_def bench_returned_def)
qed

theorem bench_empty_batch_hangs_witness:
  "\<not> bench_returned (bench_init 0 SetPhase 0 50 ''x'' [demo_conn [] [], demo_conn [] []])"
proof (rule bench_empty_batch_hangs)
  show "requests_per_conn 1 (length [demo_conn [] [], demo_conn [] []]) = Ok 0" by (simp add: requests_per_conn_def)
  show "bench_reach (ref_env True) (bench_init 0 SetPhase 0 50 ''x'' [demo_conn [] [], demo_conn [] []])
    (bench_init 0 SetPhase 0 50 ''x'' [demo_conn [] [], demo_conn [] []])" by (rule rtranclp.rtrancl_refl)
qed simp

text \<open>
  The summary of a phase is well formed. For between 1 and 2^32 - 1 samples whose sum is a
  \<open>Duration\<close>, \<open>print_stats\<close> does not panic: every index is in range, the percentiles are in order
  between the minimum and the maximum, and so is the average.
\<close>

theorem print_stats_ordered:
  assumes "lats \<noteq> []" "length lats < 2 ^ 32" "sum_list lats < 2 ^ 64 * 10 ^ 9"
  shows "\<exists>r. print_stats E lats = Ok (Some r) \<and> s_min r \<le> s_p50 r \<and> s_p50 r \<le> s_p95 r \<and>
    s_p95 r \<le> s_p99 r \<and> s_p99 r \<le> s_max r \<and> s_min r \<le> s_avg r \<and> s_avg r \<le> s_max r \<and>
    s_min r \<in> set lats \<and> s_max r \<in> set lats"
proof -
  define ds where "ds = sort lats"
  have ds: "ds \<noteq> []" "length ds = length lats" "set ds = set lats" "sum_list ds = sum_list lats" "sorted ds"
    using assms(1) by (simp_all add: ds_def sum_list_sort) (metis length_0_conv length_sort)
  have at: "pct_sample E p ds = Ok (ds ! (length ds * p div 100))" "length ds * p div 100 < length ds" if "p < 100" for p
    using pct_sample_ok [OF ds(1)] ds(2) assms(2) that by simp_all
  have mono: "ds ! (length ds * p div 100) \<le> ds ! (length ds * q div 100)" if "p \<le> q" "q < 100" for p q
    by (rule sorted_nth_mono [OF ds(5)]) (use that at(2) in \<open>simp_all add: div_le_mono\<close>)
  have ends: "ds ! 0 \<in> set ds" "ds ! (length ds - 1) \<in> set ds" using ds(1) by simp_all
  note bounds = sorted_bounds [OF ds(5)]
  have len: "length lats mod 2 ^ 32 = length lats" using assms(2) by simp
  have "print_stats E lats = Ok (Some \<lparr>s_avg = sum_list ds div length ds, s_min = ds ! 0,
      s_p50 = ds ! (length ds * 50 div 100), s_p95 = ds ! (length ds * 95 div 100),
      s_p99 = ds ! (length ds * 99 div 100), s_max = ds ! (length ds - 1)\<rparr>)"
    using assms(1,3) len ds at
    by (simp add: print_stats_def ds_def [symmetric] Let_def sum_durations_def sample_def)
  moreover have "ds ! 0 \<le> ds ! (length ds * 50 div 100)" "ds ! (length ds * 99 div 100) \<le> ds ! (length ds - 1)"
    by (rule bounds, rule nth_mem, rule at(2), simp)+
  ultimately show ?thesis
    using mono [of 50 95] mono [of 95 99] avg_bounds [OF ds(1) bounds] ends ds(3) by simp
qed

theorem print_stats_ordered_witness:
  "\<exists>r. print_stats (ref_env False) [7, 3] = Ok (Some r) \<and> s_min r \<le> s_p50 r \<and> s_p99 r \<le> s_max r"
  using print_stats_ordered [of "[7, 3]" "ref_env False"] by auto

text \<open>
  The divisor is the length cast to 32 bits: 2^32 samples give a division by zero.
\<close>

theorem print_stats_truncates:
  assumes "length lats = 2 ^ 32" "sum_list lats < 2 ^ 64 * 10 ^ 9"
  shows "print_stats E lats = Panic ExpectNone"
proof -
  have "lats \<noteq> []" using assms(1) by auto
  then show ?thesis using assms by (simp add: sum_list_sort print_stats_def sum_durations_def Let_def)
qed

end
