(* ===== verification/F64.thy ===== *)
theory F64
  imports Std_Lib "HOL-Library.Log_Nat"
begin

text \<open>
  The part of \<open>f64\<close> that the statistics use: finite numbers that are not negative, as rationals,
  and the rounding of IEEE 754 to 53 bits, ties to even. The numbers that occur are neither so
  large nor so small that the exponent matters. The lemmas say that rounding keeps the order and
  does not change a whole number of at most \<open>2^53\<close>.
\<close>

type_synonym f64 = rat

definition round_even :: "rat \<Rightarrow> int" where
  "round_even y =
     (let f = \<lfloor>y\<rfloor>; r = y - of_int f in
      if r < 1 / 2 then f else if 1 / 2 < r then f + 1 else if even f then f else f + 1)"

text \<open>The exponent of the binade of a positive number.\<close>

definition fexp :: "rat \<Rightarrow> int" where
  "fexp x =
     (case quotient_of x of (n, d) \<Rightarrow>
        let e = bitlen n - bitlen d in if 2 powi e \<le> x then e else e - 1)"

definition rnd :: "rat \<Rightarrow> f64" where
  "rnd x = (if x = 0 then 0 else let u = 2 powi (fexp x - 52) in of_int (round_even (x / u)) * u)"

text \<open>Conversions and operations.\<close>

definition f64_of :: "nat \<Rightarrow> f64" where
  "f64_of n = rnd (of_nat n)"

definition f64_mul :: "f64 \<Rightarrow> f64 \<Rightarrow> f64" where
  "f64_mul a b = rnd (a * b)"

text \<open>Division by zero is an infinity (or not a number), which no rational stands for.\<close>

definition f64_div :: "f64 \<Rightarrow> f64 \<Rightarrow> f64 option" where
  "f64_div a b = (if b = 0 then None else Some (rnd (a / b)))"

definition to_usize :: "f64 \<Rightarrow> nat" where
  "to_usize x = min (nat \<lfloor>x\<rfloor>) (2 ^ 64 - 1)"

text \<open>\<open>Duration::as_secs_f64\<close> of a duration in nanoseconds.\<close>

definition as_secs_f64 :: "duration \<Rightarrow> f64" where
  "as_secs_f64 d = rnd (f64_of (d div 10 ^ 9) + rnd (of_nat (d mod 10 ^ 9) / 10 ^ 9))"

section \<open>Rounding keeps the order\<close>

lemma round_even_bounds: "\<lfloor>y\<rfloor> \<le> round_even y" "round_even y \<le> \<lfloor>y\<rfloor> + 1"
  by (simp_all add: round_even_def Let_def)

lemma round_even_int [simp]: "round_even (of_int n) = n"
  by (simp add: round_even_def)

lemma round_even_mono:
  assumes "x \<le> y"
  shows "round_even x \<le> round_even y"
proof (cases "\<lfloor>x\<rfloor> = \<lfloor>y\<rfloor>")
  case True
  with assms show ?thesis by (auto simp: round_even_def Let_def)
next
  case False
  with assms have "\<lfloor>x\<rfloor> + 1 \<le> \<lfloor>y\<rfloor>" using floor_mono [OF assms] by linarith
  with round_even_bounds(2) [of x] round_even_bounds(1) [of y] show ?thesis by linarith
qed

lemma bitlen_rat:
  assumes "0 < m"
  shows "2 powi (bitlen m - 1) \<le> (of_int m :: rat)" "(of_int m :: rat) < 2 powi bitlen m"
proof -
  have b: "1 \<le> bitlen m" using assms bitlen_nonneg [of m] bitlen_eq_zero_iff [of m] by linarith
  have "of_int (2 ^ nat (bitlen m - 1)) \<le> (of_int m :: rat)" "(of_int m :: rat) < of_int (2 ^ nat (bitlen m))"
    using bitlen_bounds [OF assms] by (simp_all only: of_int_le_iff of_int_less_iff)
  with b show "2 powi (bitlen m - 1) \<le> (of_int m :: rat)" "(of_int m :: rat) < 2 powi bitlen m"
    by (simp_all add: power_int_def)
qed

lemma fexp_bounds:
  assumes "0 < x"
  shows "2 powi fexp x \<le> x" "x < 2 powi (fexp x + 1)"
proof -
  obtain n d where q: "quotient_of x = (n, d)" by (cases "quotient_of x")
  have d: "0 < d" using quotient_of_denom_pos [OF q] .
  have x: "x = of_int n / of_int d" using quotient_of_div [OF q] .
  with assms d have n: "0 < n" by (simp add: zero_less_divide_iff)
  let ?bn = "bitlen n" and ?bd = "bitlen d"
  have xd: "x * of_int d = of_int n" using x d by simp
  have "2 powi (?bn - 1) < x * 2 powi ?bd"
  proof -
    have "2 powi (?bn - 1) \<le> x * of_int d" using bitlen_rat(1) [OF n] xd by simp
    also have "\<dots> < x * 2 powi ?bd" using bitlen_rat(2) [OF d] assms by simp
    finally show ?thesis .
  qed
  then have "2 powi (?bn - 1) / 2 powi ?bd < x" by (simp only: pos_divide_less_eq zero_less_power_int zero_less_numeral)
  moreover have "2 powi (?bn - 1) / 2 powi ?bd = (2::rat) powi (?bn - 1 - ?bd)"
    by (rule power_int_diff [symmetric]) simp
  ultimately have lo: "2 powi (?bn - ?bd - 1) < x" by (simp only: diff_right_commute)
  have "x * 2 powi (?bd - 1) < 2 powi ?bn"
  proof -
    have "x * 2 powi (?bd - 1) \<le> x * of_int d" using bitlen_rat(1) [OF d] assms by simp
    also have "\<dots> < 2 powi ?bn" using bitlen_rat(2) [OF n] xd by simp
    finally show ?thesis .
  qed
  then have "x < 2 powi ?bn / 2 powi (?bd - 1)" by (simp only: pos_less_divide_eq zero_less_power_int zero_less_numeral)
  moreover have "2 powi ?bn / 2 powi (?bd - 1) = (2::rat) powi (?bn - (?bd - 1))"
    by (rule power_int_diff [symmetric]) simp
  moreover have "?bn - (?bd - 1) = ?bn - ?bd + 1" by simp
  ultimately have hi: "x < 2 powi (?bn - ?bd + 1)" by (simp only:)
  show "2 powi fexp x \<le> x" "x < 2 powi (fexp x + 1)"
    using lo hi by (simp_all add: fexp_def q Let_def)
qed

lemma powi_le: "i \<le> j \<Longrightarrow> (2::rat) powi i \<le> 2 powi j"
  by (simp add: power_int_increasing)

lemma powi_less_iff: "(2::rat) powi i < 2 powi j \<longleftrightarrow> i < j"
proof (cases "i < j")
  case True
  then have "(2::rat) powi i < 2 powi j" by (rule power_int_strict_increasing) simp
  with True show ?thesis by simp
next
  case False
  with powi_le [of j i] show ?thesis by simp
qed

lemma fexp_unique:
  assumes "2 powi e \<le> x" "x < 2 powi (e + 1)"
  shows "fexp x = e"
proof -
  have x: "0 < x" using assms(1) by (rule less_le_trans [rotated]) simp
  have "2 powi fexp x < (2::rat) powi (e + 1)" "(2::rat) powi e < 2 powi (fexp x + 1)"
    using fexp_bounds [OF x] assms by linarith+
  then show ?thesis by (simp add: powi_less_iff)
qed

lemma rnd_pos:
  assumes "0 < x"
  shows "2 powi fexp x \<le> rnd x" "rnd x \<le> 2 powi (fexp x + 1)"
proof -
  let ?u = "2 powi (fexp x - 52) :: rat"
  have u: "0 < ?u" by simp
  have scale: "2 powi fexp x = of_int (2 ^ 52) * ?u" "2 powi (fexp x + 1) = of_int (2 ^ 53) * ?u"
    by (simp_all add: power_int_diff power_int_add)
  have r: "rnd x = of_int (round_even (x / ?u)) * ?u" using assms by (simp add: rnd_def Let_def)
  have "of_int (2 ^ 52) \<le> x / ?u" "x / ?u \<le> of_int (2 ^ 53)"
    using fexp_bounds [OF assms] u unfolding scale by (simp_all add: pos_le_divide_eq pos_divide_le_eq)
  from round_even_mono [OF this(1)] round_even_mono [OF this(2)]
  have "(2 ^ 52 :: int) \<le> round_even (x / ?u)" "round_even (x / ?u) \<le> 2 ^ 53"
    unfolding round_even_int .
  then have "of_int (2 ^ 52) \<le> (of_int (round_even (x / ?u)) :: rat)"
    "(of_int (round_even (x / ?u)) :: rat) \<le> of_int (2 ^ 53)" by (simp_all only: of_int_le_iff)
  with u show "2 powi fexp x \<le> rnd x" "rnd x \<le> 2 powi (fexp x + 1)"
    unfolding r scale by (simp_all only: mult_right_mono less_imp_le)
qed

lemma rnd_nonneg: "0 \<le> x \<Longrightarrow> 0 \<le> rnd x"
proof (cases "x = 0")
  case False
  assume "0 \<le> x"
  with False have "2 powi fexp x \<le> rnd x" by (intro rnd_pos(1)) simp
  moreover have "(0::rat) \<le> 2 powi fexp x" by simp
  ultimately show ?thesis by (rule order_trans [rotated])
qed (simp add: rnd_def)

lemma rnd_mono:
  assumes "0 \<le> x" "x \<le> y"
  shows "rnd x \<le> rnd y"
proof (cases "x = 0")
  case True
  with assms rnd_nonneg [of y] show ?thesis by (simp add: rnd_def)
next
  case False
  with assms have x: "0 < x" and y: "0 < y" by simp_all
  have "(2::rat) powi fexp x < 2 powi (fexp y + 1)" using fexp_bounds(1) [OF x] fexp_bounds(2) [OF y] assms(2) by linarith
  then have "fexp x \<le> fexp y" by (simp add: powi_less_iff)
  show ?thesis
  proof (cases "fexp x = fexp y")
    case True
    let ?u = "2 powi (fexp x - 52) :: rat"
    have "round_even (x / ?u) \<le> round_even (y / ?u)"
      by (rule round_even_mono) (simp add: assms(2) divide_right_mono)
    with x y True show ?thesis by (simp add: rnd_def Let_def mult_right_mono)
  next
    case False
    with \<open>fexp x \<le> fexp y\<close> have "(2::rat) powi (fexp x + 1) \<le> 2 powi fexp y" by (intro powi_le) simp
    with rnd_pos(2) [OF x] rnd_pos(1) [OF y] show ?thesis by linarith
  qed
qed

lemma rnd_of_nat:
  assumes "n \<le> 2 ^ 53"
  shows "rnd (of_nat n) = of_nat n"
proof (cases "n = 0")
  case False
  let ?x = "of_nat n :: rat" and ?e = "fexp (of_nat n)"
  have x: "0 < ?x" using False by simp
  have "2 powi ?e \<le> (2::rat) powi 53"
  proof -
    have "?x \<le> of_nat (2 ^ 53)" using assms by (simp only: of_nat_le_iff)
    with fexp_bounds(1) [OF x] show ?thesis by simp
  qed
  then have e: "?e \<le> 53" using powi_less_iff [of 53 ?e] by linarith
  let ?u = "2 powi (?e - 52) :: rat"
  have "\<exists>k. ?x / ?u = of_int k"
  proof (cases "?e \<le> 52")
    case True
    then have "?x / ?u = of_int (int n * 2 ^ nat (52 - ?e))"
      by (simp add: power_int_def divide_simps power_int_minus)
    then show ?thesis by blast
  next
    case False
    with e have "?e = 53" by simp
    with fexp_bounds(1) [OF x] have "of_nat (2 ^ 53) \<le> ?x" by simp
    then have "n = 2 ^ 53" using assms by (simp only: of_nat_le_iff)
    with \<open>?e = 53\<close> have "?x / ?u = of_int (2 ^ 52)" by simp
    then show ?thesis by blast
  qed
  then obtain k where k: "?x / ?u = of_int k" by blast
  then have "rnd ?x = of_int k * ?u" using False by (simp add: rnd_def Let_def k)
  also have "\<dots> = ?x" using k by (simp add: field_simps)
  finally show ?thesis .
qed (simp add: rnd_def)

lemma f64_of_exact: "n \<le> 2 ^ 53 \<Longrightarrow> f64_of n = of_nat n"
  by (simp add: f64_of_def rnd_of_nat)

end
