(* ===== verification/Bench_Report.thy ===== *)
theory Bench_Report
  imports Bench_Loop F64
begin

text \<open>
  The floating point part of \<open>print_stats\<close> in \<open>src/redis-bench/src/main.rs\<close>: the requests per
  second and the table of the latencies by percentile (the summary below it is in theory
  Bench\_Loop). The lemmas say that the positions computed in \<open>f64\<close> are in range and in order, and
  that the table always ends with the slowest request.
\<close>

section \<open>The report\<close>

text \<open>An infinity, for a phase that took no time, is \<open>None\<close>.\<close>

definition requests_per_second :: "nat \<Rightarrow> duration \<Rightarrow> f64 option" where
  "requests_per_second len elapsed = f64_div (f64_of len) (as_secs_f64 elapsed)"

definition percentiles :: "f64 list" where
  "percentiles =
     [0, 50, 75, 875 / 10, 9375 / 100, 96875 / 1000, 984375 / 10000, 9921875 / 100000,
      99609375 / 1000000, 998046875 / 10000000, 9990234375 / 100000000, 99951171875 / 1000000000, 100]"

definition pct_index :: "f64 \<Rightarrow> nat \<Rightarrow> nat" where
  "pct_index pct len = min (to_usize (f64_mul (rnd (pct / 100)) (f64_of (len - 1)))) (len - 1)"

record table_row =
  t_pct :: f64
  t_latency :: duration
  t_msecs :: f64
  t_count :: nat

text \<open>The loop over the percentiles; \<open>sample\<close> is the indexing.\<close>

fun table_loop :: "duration list \<Rightarrow> f64 list \<Rightarrow> (table_row list, unit) res" where
  "table_loop ds [] = Ok []"
| "table_loop ds (pct # pcts) =
     (let idx = pct_index pct (length ds) in
      and_then (sample ds idx) (\<lambda>d.
        let r = \<lparr>t_pct = pct, t_latency = d, t_msecs = f64_mul (as_secs_f64 d) 1000, t_count = idx + 1\<rparr> in
        if idx = length ds - 1 then Ok [r]
        else and_then (table_loop ds pcts) (\<lambda>rows. Ok (r # rows))))"

definition percentile_table :: "duration list \<Rightarrow> (table_row list, unit) res" where
  "percentile_table lats = (if lats = [] then Ok [] else table_loop (sort lats) percentiles)"

section \<open>The positions\<close>

lemma pct_index_range: "0 < len \<Longrightarrow> pct_index pct len < len"
  unfolding pct_index_def by (rule le_less_trans [OF min.cobounded2]) simp

lemma pct_index_mono:
  assumes "0 \<le> p" "p \<le> q"
  shows "pct_index p len \<le> pct_index q len"
proof -
  have n: "0 \<le> f64_of (len - 1)" by (simp add: f64_of_def rnd_nonneg)
  have r: "0 \<le> rnd (p / 100)" "rnd (p / 100) \<le> rnd (q / 100)"
    using assms by (auto intro: rnd_nonneg rnd_mono divide_right_mono)
  then have "f64_mul (rnd (p / 100)) (f64_of (len - 1)) \<le> f64_mul (rnd (q / 100)) (f64_of (len - 1))"
    unfolding f64_mul_def using n by (intro rnd_mono) (simp_all add: mult_right_mono)
  then have "to_usize (f64_mul (rnd (p / 100)) (f64_of (len - 1))) \<le> to_usize (f64_mul (rnd (q / 100)) (f64_of (len - 1)))"
    unfolding to_usize_def by (intro min.mono nat_mono floor_mono) simp_all
  then show ?thesis unfolding pct_index_def by (intro min.mono) simp_all
qed

text \<open>Up to \<open>2^53\<close> samples, the position of the last percentile is the last position.\<close>

lemma pct_index_100:
  assumes "0 < len" "len \<le> 2 ^ 53"
  shows "pct_index 100 len = len - 1"
proof -
  have n: "f64_of (len - 1) = of_nat (len - 1)" using assms(2) by (intro f64_of_exact) simp
  have 1: "rnd 1 = 1" using rnd_of_nat [of 1] by simp
  have "f64_mul (rnd (100 / 100)) (f64_of (len - 1)) = of_nat (len - 1)"
    unfolding f64_mul_def n using rnd_of_nat [of "len - 1"] assms(2) by (simp add: 1)
  moreover have "to_usize (of_nat (len - 1)) = len - 1" using assms(2) by (simp add: to_usize_def)
  ultimately show ?thesis unfolding pct_index_def by simp
qed

text \<open>A row counts no more samples than there are within its latency.\<close>

definition row_honest :: "duration list \<Rightarrow> table_row \<Rightarrow> bool" where
  "row_honest ds r \<longleftrightarrow> 0 < t_count r \<and> t_count r \<le> length (filter (\<lambda>d. d \<le> t_latency r) ds)"

lemma sorted_prefix_count:
  assumes "sorted ds" "i < length ds"
  shows "i + 1 \<le> length (filter (\<lambda>d. d \<le> ds ! i) ds)"
proof -
  have "x \<le> ds ! i" if "x \<in> set (take (Suc i) ds)" for x
    using that assms by (auto simp: in_set_conv_nth sorted_iff_nth_mono)
  then have "filter (\<lambda>d. d \<le> ds ! i) (take (Suc i) ds) = take (Suc i) ds" by (simp add: filter_True)
  moreover have "filter (\<lambda>d. d \<le> ds ! i) ds =
      filter (\<lambda>d. d \<le> ds ! i) (take (Suc i) ds) @ filter (\<lambda>d. d \<le> ds ! i) (drop (Suc i) ds)"
    by (metis append_take_drop_id filter_append)
  ultimately show ?thesis using assms(2) by simp
qed

lemma sorted_Max_last:
  assumes "sorted ds" "ds \<noteq> []"
  shows "Max (set ds) = ds ! (length ds - 1)"
proof (rule Max_eqI)
  show "ds ! (length ds - 1) \<in> set ds" using assms(2) by simp
qed (use assms in \<open>auto simp: in_set_conv_nth sorted_iff_nth_mono\<close>)

lemma table_loop_rows:
  assumes "sorted ds" "ds \<noteq> []" "length ds \<le> 2 ^ 53"
    and "sorted (p # ps)" "0 \<le> p" "last (p # ps) = 100"
  shows "\<exists>rows. table_loop ds (p # ps) = Ok rows \<and> rows \<noteq> [] \<and> list_all (row_honest ds) rows \<and>
    sorted (map t_count rows) \<and> (\<forall>r \<in> set rows. pct_index p (length ds) + 1 \<le> t_count r) \<and>
    t_count (last rows) = length ds \<and> t_latency (last rows) = ds ! (length ds - 1)"
  using assms(4-6)
proof (induction ps arbitrary: p)
  case Nil
  then have "pct_index p (length ds) = length ds - 1" using assms(2,3) pct_index_100 by simp
  with assms(1,2) sorted_prefix_count [OF assms(1), of "length ds - 1"] show ?case
    by (simp add: sample_def row_honest_def Let_def)
next
  case (Cons q ps)
  let ?i = "pct_index p (length ds)"
  have i: "?i < length ds" using assms(2) by (simp add: pct_index_range)
  have honest: "row_honest ds \<lparr>t_pct = p, t_latency = ds ! ?i, t_msecs = m, t_count = ?i + 1\<rparr>" for m
    using sorted_prefix_count [OF assms(1) i] by (simp add: row_honest_def)
  show ?case
  proof (cases "?i = length ds - 1")
    case True
    with i assms(2) honest show ?thesis by (simp add: sample_def Let_def)
  next
    case False
    from Cons.prems have pq: "p \<le> q" "sorted (q # ps)" "0 \<le> q" "last (q # ps) = 100" by auto
    from Cons.IH [OF pq(2-4)] obtain rows where rows: "table_loop ds (q # ps) = Ok rows" "rows \<noteq> []"
      "list_all (row_honest ds) rows" "sorted (map t_count rows)"
      "\<forall>r \<in> set rows. pct_index q (length ds) + 1 \<le> t_count r"
      "t_count (last rows) = length ds" "t_latency (last rows) = ds ! (length ds - 1)" by blast
    have "?i \<le> pct_index q (length ds)" using Cons.prems(2) pq(1) by (rule pct_index_mono)
    then have ge: "\<forall>r \<in> set rows. ?i + 1 \<le> t_count r" using rows(5) by fastforce
    let ?r = "\<lparr>t_pct = p, t_latency = ds ! ?i, t_msecs = f64_mul (as_secs_f64 (ds ! ?i)) 1000, t_count = ?i + 1\<rparr>"
    have "table_loop ds (p # q # ps) = Ok (?r # rows)"
      using rows(1) False i by (simp add: sample_def Let_def)
    moreover have "sorted (map t_count (?r # rows))" using rows(4) ge by simp
    ultimately show ?thesis
      using rows honest ge by (intro exI [of _ "?r # rows"]) simp
  qed
qed

text \<open>
  The latency table of the benchmark is right for up to \<open>2^53\<close> samples, in spite of the floating
  point arithmetic that finds the positions: no index is out of range, the cumulative counts never
  fall, no row claims more requests than were as fast as it says, and the table always ends with the
  slowest request and the count of all of them.
\<close>

theorem percentile_table_complete:
  assumes "lats \<noteq> []" "length lats \<le> 2 ^ 53"
  shows "\<exists>rows. percentile_table lats = Ok rows \<and> rows \<noteq> [] \<and> list_all (row_honest lats) rows \<and>
    sorted (map t_count rows) \<and> t_count (last rows) = length lats \<and> t_latency (last rows) = Max (set lats)"
proof -
  let ?ds = "sort lats"
  have "?ds \<noteq> []" using assms(1) by (metis length_0_conv length_sort)
  then have ds: "sorted ?ds" "?ds \<noteq> []" "length ?ds \<le> 2 ^ 53" using assms(2) by simp_all
  have "sorted percentiles" "0 \<le> hd percentiles" "last percentiles = 100" "percentiles = hd percentiles # tl percentiles"
    by (simp_all add: percentiles_def)
  then have "\<exists>rows. table_loop ?ds percentiles = Ok rows \<and> rows \<noteq> [] \<and> list_all (row_honest ?ds) rows \<and>
    sorted (map t_count rows) \<and> t_count (last rows) = length ?ds \<and> t_latency (last rows) = ?ds ! (length ?ds - 1)"
    using table_loop_rows [OF ds, of "hd percentiles" "tl percentiles"] by metis
  then obtain rows where
    rows: "table_loop ?ds percentiles = Ok rows" "rows \<noteq> []" "list_all (row_honest ?ds) rows"
    "sorted (map t_count rows)" "t_count (last rows) = length ?ds" "t_latency (last rows) = ?ds ! (length ?ds - 1)"
    by blast
  have "row_honest ?ds = row_honest lats"
    unfolding row_honest_def by (intro ext) (metis mset_filter mset_sort size_mset)
  with rows(3) have "list_all (row_honest lats) rows" by simp
  moreover have "?ds ! (length ?ds - 1) = Max (set lats)" using sorted_Max_last [OF ds(1,2)] by simp
  ultimately show ?thesis using rows assms(1) by (simp add: percentile_table_def)
qed

theorem percentile_table_complete_witness:
  "\<exists>rows. percentile_table [7, 3, 5] = Ok rows \<and> t_count (last rows) = 3 \<and> t_latency (last rows) = 7"
  using percentile_table_complete [of "[7, 3, 5]"] by auto

section \<open>The whole report\<close>

text \<open>What \<open>print_stats\<close> prints, and \<open>main\<close> around it. The two calls of \<open>run_phase\<close> are a parameter.\<close>

record bench_report =
  rp_rate :: "f64 option"
  rp_table :: "table_row list"
  rp_summary :: summary

definition bench_stats :: "env \<Rightarrow> duration list \<Rightarrow> duration \<Rightarrow> (bench_report option, unit) res" where
  "bench_stats E lats elapsed =
     and_then (print_stats E lats) (\<lambda>summary.
       case summary of
         None \<Rightarrow> Ok None
       | Some summary \<Rightarrow>
           and_then (percentile_table lats) (\<lambda>rows.
             Ok (Some \<lparr>rp_rate = requests_per_second (length lats) elapsed, rp_table = rows, rp_summary = summary\<rparr>)))"

record bench_cli =
  cl_connections :: nat
  cl_num_requests :: nat
  cl_pipeline :: nat
  cl_value_size :: nat

definition bench_main ::
    "env \<Rightarrow> (nat \<Rightarrow> nat \<Rightarrow> nat \<Rightarrow> bytes \<Rightarrow> Phase \<Rightarrow> duration list \<times> duration) \<Rightarrow> bench_cli \<Rightarrow>
      (bench_report option \<times> bench_report option, unit) res" where
  "bench_main E run_phase cli =
     and_then (requests_per_conn (cl_num_requests cli) (cl_connections cli)) (\<lambda>per_conn.
       let val = replicate (cl_value_size cli) (CHR ''x'');
           (set_lats, set_elapsed) = run_phase (cl_connections cli) per_conn (cl_pipeline cli) val SetPhase;
           (get_lats, get_elapsed) = run_phase (cl_connections cli) per_conn (cl_pipeline cli) val GetPhase
       in and_then (bench_stats E set_lats set_elapsed) (\<lambda>set_report.
          and_then (bench_stats E get_lats get_elapsed) (\<lambda>get_report. Ok (set_report, get_report))))"

text \<open>A result that \<open>run_phase\<close> can return: its event loop has ended with these latencies.\<close>

definition run_phase_returns :: "env \<Rightarrow> nat \<Rightarrow> nat \<Rightarrow> nat \<Rightarrow> bytes \<Rightarrow> Phase \<Rightarrow> duration list \<times> duration \<Rightarrow> bool" where
  "run_phase_returns E num_conns per_conn pipeline val ph r \<longleftrightarrow>
     (\<exists>t streams s. length streams = num_conns \<and>
        bench_reach E (bench_init t ph per_conn pipeline val streams) s \<and> bench_returned s \<and> fst r = b_lats s)"

text \<open>A report of \<open>n\<close> requests that says what happened.\<close>

definition report_ok :: "nat \<Rightarrow> duration list \<Rightarrow> bench_report \<Rightarrow> bool" where
  "report_ok n lats r \<longleftrightarrow>
     length lats = n \<and> rp_table r \<noteq> [] \<and> list_all (row_honest lats) (rp_table r) \<and>
     sorted (map t_count (rp_table r)) \<and> t_count (last (rp_table r)) = n \<and>
     t_latency (last (rp_table r)) = s_max (rp_summary r) \<and> s_max (rp_summary r) = Max (set lats) \<and>
     sorted [s_min (rp_summary r), s_p50 (rp_summary r), s_p95 (rp_summary r), s_p99 (rp_summary r), s_max (rp_summary r)]"

lemma print_stats_max:
  assumes "print_stats E lats = Ok (Some r)"
  shows "s_max r = Max (set lats)"
proof -
  have ne: "lats \<noteq> []" using assms by (auto simp: print_stats_def)
  then have ds: "sort lats \<noteq> []" by (metis length_0_conv length_sort)
  from assms ne have "s_max r = sort lats ! (length (sort lats) - 1)"
    by (auto simp: print_stats_def Let_def and_then_def sample_def split: res.splits if_splits)
  with sorted_Max_last [OF sorted_sort ds] show ?thesis by simp
qed

lemma bench_stats_ok:
  assumes "lats \<noteq> []" "length lats < 2 ^ 32" "sum_list lats < 2 ^ 64 * 10 ^ 9"
  shows "\<exists>r. bench_stats E lats elapsed = Ok (Some r) \<and> report_ok (length lats) lats r"
proof -
  from print_stats_ordered [OF assms, of E] obtain sm where
    sm: "print_stats E lats = Ok (Some sm)" "sorted [s_min sm, s_p50 sm, s_p95 sm, s_p99 sm, s_max sm]" by auto
  have "length lats \<le> 2 ^ 53" using assms(2) by simp
  from percentile_table_complete [OF assms(1) this] obtain rows where
    rows: "percentile_table lats = Ok rows" "rows \<noteq> []" "list_all (row_honest lats) rows"
    "sorted (map t_count rows)" "t_count (last rows) = length lats" "t_latency (last rows) = Max (set lats)" by blast
  then show ?thesis
    using sm print_stats_max [OF sm(1)] by (auto simp: bench_stats_def report_ok_def)
qed

text \<open>
  C28: the benchmark reports what it measured. If both phases return, and the counts and durations
  fit their types, then \<open>main\<close> prints a report for each, without a panic: with \<open>B\<close> the batch size and \<open>T\<close>
  the share of a connection, each report is about \<open>B * ceil (T / B)\<close> requests per connection; no index
  found by floating point arithmetic is out of range, no row of the table claims more requests
  than were as fast as it says, the cumulative counts never fall, and the table ends with all
  requests at the maximum of the summary, whose percentiles are in order.
\<close>

theorem bench_main_reports:
  assumes "requests_per_conn (cl_num_requests cli) (cl_connections cli) = Ok T" "B = min (cl_pipeline cli) T" "0 < B"
    and "N = cl_connections cli * (B * ((T + B - 1) div B))" "N < 2 ^ 32"
    and "phase = (\<lambda>ph. run_phase (cl_connections cli) T (cl_pipeline cli) (replicate (cl_value_size cli) (CHR ''x'')) ph)"
    and "\<And>ph. run_phase_returns E (cl_connections cli) T (cl_pipeline cli) (replicate (cl_value_size cli) (CHR ''x'')) ph (phase ph)"
    and "\<And>ph. sum_list (fst (phase ph)) < 2 ^ 64 * 10 ^ 9"
  shows "\<exists>a b. bench_main E run_phase cli = Ok (Some a, Some b) \<and>
    report_ok N (fst (phase SetPhase)) a \<and> report_ok N (fst (phase GetPhase)) b"
proof -
  have len: "length (fst (phase ph)) = N" for ph
  proof -
    from assms(7) [of ph] obtain t streams s where
      s: "length streams = cl_connections cli" "bench_returned s" "fst (phase ph) = b_lats s"
      "bench_reach E (bench_init t ph T (cl_pipeline cli) (replicate (cl_value_size cli) (CHR ''x'')) streams) s"
      by (auto simp: run_phase_returns_def)
    from phase_sample_count [OF assms(1) [folded s(1)] s(4,2) assms(2,3)] s(1,3) assms(4) show ?thesis by simp
  qed
  have T: "0 < T" "0 < cl_connections cli" using assms(1-3) by (auto simp: requests_per_conn_def split: if_splits)
  then have "B \<le> T + B - 1" by simp
  then have "0 < (T + B - 1) div B" using assms(3) by (simp add: div_greater_zero_iff)
  then have "0 < N" using T(2) assms(3,4) by simp
  then have "fst (phase ph) \<noteq> []" for ph using len [of ph] by auto
  with bench_stats_ok assms(5,8) len have st: "\<exists>r. bench_stats E (fst (phase ph)) (snd (phase ph)) = Ok (Some r) \<and>
      report_ok N (fst (phase ph)) r" for ph by metis
  from st [of SetPhase] st [of GetPhase] show ?thesis
    using assms(1,6) by (auto simp: bench_main_def Let_def split: prod.splits)
qed

theorem bench_main_reports_witness:
  "\<exists>a b. bench_main (ref_env True) (\<lambda>n T P val ph. (b_lats (demo_end ph), 9))
     \<lparr>cl_connections = 1, cl_num_requests = 1, cl_pipeline = 1, cl_value_size = 0\<rparr> = Ok (Some a, Some b) \<and>
     report_ok 1 (b_lats (demo_end SetPhase)) a \<and> report_ok 1 (b_lats (demo_end GetPhase)) b"
proof -
  let ?cli = "\<lparr>cl_connections = 1, cl_num_requests = 1, cl_pipeline = 1, cl_value_size = 0\<rparr>"
  have lats: "b_lats (demo_end ph) = [4]" for ph by (simp add: demo_end_def Let_def)
  have r: "run_phase_returns (ref_env True) 1 1 1 [] ph (b_lats (demo_end ph), 9)" for ph
    unfolding run_phase_returns_def
    using demo_bench_reach demo_end_returned by (intro exI [of _ 5] exI [of _ "[demo_conn [] []]"] exI [of _ "demo_end ph"]) simp
  show ?thesis
    using bench_main_reports [of ?cli 1 1 1 "\<lambda>ph. (b_lats (demo_end ph), 9)" "\<lambda>n T P val ph. (b_lats (demo_end ph), 9)" "ref_env True"] r
    by (simp add: requests_per_conn_def lats)
qed

end
