(* ===== verification/Metrics.thy ===== *)
theory Metrics
  imports F64
begin

text \<open>
  \<open>src/mini-redis/src/metrics.rs\<close>: the histogram of poll times. The counters are those of the
  runtime, a parameter; what is modelled is how they are summed up, which rows are printed, and
  the numbers in them, the floating point ones included. The lemmas say that the rows add up to the
  total and that no bar is longer than the width.
\<close>

section \<open>The printer\<close>

text \<open>\<open>RuntimeMetrics\<close>: the methods that are called.\<close>

record runtime_metrics =
  num_buckets :: nat
  num_workers :: nat
  bucket_range :: "nat \<Rightarrow> duration \<times> duration"
  bucket_count :: "nat \<Rightarrow> nat \<Rightarrow> u64"

fun worker_loop :: "env \<Rightarrow> runtime_metrics \<Rightarrow> nat \<Rightarrow> nat list \<Rightarrow> u64 \<Rightarrow> (u64, unit) res" where
  "worker_loop E m b [] count = Ok count"
| "worker_loop E m b (w # ws) count =
     and_then (add_usize E count (bucket_count m w b)) (\<lambda>count. worker_loop E m b ws count)"

type_synonym bucket = "(duration \<times> duration) \<times> u64"

fun bucket_loop ::
    "env \<Rightarrow> runtime_metrics \<Rightarrow> nat list \<Rightarrow> bucket list \<Rightarrow> u64 \<Rightarrow> (bucket list \<times> u64, unit) res" where
  "bucket_loop E m [] buckets ttl = Ok (buckets, ttl)"
| "bucket_loop E m (b # bs) buckets ttl =
     and_then (worker_loop E m b [0..<num_workers m] 0) (\<lambda>count.
     and_then (add_usize E ttl count) (\<lambda>ttl.
       bucket_loop E m bs (buckets @ [(bucket_range m b, count)]) ttl))"

text \<open>A row of the histogram; a quotient by zero would not be a number.\<close>

record row =
  r_range :: "duration \<times> duration"
  r_count :: u64
  r_cumulative :: u64
  r_pct :: "f64 option"
  r_cum_pct :: "f64 option"
  r_bar :: nat

definition percent :: "u64 \<Rightarrow> u64 \<Rightarrow> f64 option" where
  "percent count ttl =
     map_option (\<lambda>q. f64_mul q 100) (f64_div (f64_of (unat count)) (f64_of (unat ttl)))"

definition bar_len :: "u64 \<Rightarrow> u64 \<Rightarrow> nat" where
  "bar_len count max_count =
     (case f64_div (f64_of (unat count)) (f64_of (unat max_count)) of
        Some q \<Rightarrow> to_usize (f64_mul q (f64_of 40))
      | None \<Rightarrow> 2 ^ 64 - 1)"

fun row_loop :: "env \<Rightarrow> u64 \<Rightarrow> u64 \<Rightarrow> bucket list \<Rightarrow> u64 \<Rightarrow> (row list, unit) res" where
  "row_loop E ttl max_count [] cumulative = Ok []"
| "row_loop E ttl max_count ((rg, count) # buckets) cumulative =
     (if count = 0 then row_loop E ttl max_count buckets cumulative
      else
        and_then (add_usize E cumulative count) (\<lambda>cumulative.
        and_then (row_loop E ttl max_count buckets cumulative) (\<lambda>rows.
          Ok (\<lparr>r_range = rg, r_count = count, r_cumulative = cumulative,
               r_pct = percent count ttl, r_cum_pct = percent cumulative ttl,
               r_bar = bar_len count max_count\<rparr> # rows))))"

datatype histogram = NotAvailable | NoPolls | Histogram u64 "row list"

definition max_of :: "bucket list \<Rightarrow> u64" where
  "max_of buckets = (case map snd buckets of [] \<Rightarrow> 1 | c # cs \<Rightarrow> fold max cs c)"

definition print_poll_time_histogram :: "env \<Rightarrow> runtime_metrics \<Rightarrow> (histogram, unit) res" where
  "print_poll_time_histogram E m =
     (if num_buckets m = 0 then Ok NotAvailable
      else
        and_then (bucket_loop E m [0..<num_buckets m] [] 0) (\<lambda>(buckets, ttl).
          if ttl = 0 then Ok NoPolls
          else map_res (Histogram ttl) id (row_loop E ttl (max_of buckets) buckets 0)))"

section \<open>The sums\<close>

definition bucket_total :: "runtime_metrics \<Rightarrow> nat \<Rightarrow> nat" where
  "bucket_total m b = (\<Sum>w\<leftarrow>[0..<num_workers m]. unat (bucket_count m w b))"

definition poll_total :: "runtime_metrics \<Rightarrow> nat" where
  "poll_total m = (\<Sum>b\<leftarrow>[0..<num_buckets m]. bucket_total m b)"

lemma add_usize_unat:
  assumes "unat a + unat b < 2 ^ 64"
  shows "(add_usize E a b :: (u64, unit) res) = Ok (a + b)" "unat (a + b) = unat a + unat b"
  using assms by (simp_all add: add_usize_def unat_word_ariths)

lemma worker_loop_sum:
  assumes "unat count + (\<Sum>w\<leftarrow>ws. unat (bucket_count m w b)) < 2 ^ 64"
  shows "\<exists>c. worker_loop E m b ws count = Ok c \<and> unat c = unat count + (\<Sum>w\<leftarrow>ws. unat (bucket_count m w b))"
  using assms
proof (induction ws arbitrary: count)
  case (Cons w ws)
  then have "unat count + unat (bucket_count m w b) < 2 ^ 64" by simp
  from add_usize_unat [OF this] Cons.prems Cons.IH [of "count + bucket_count m w b"] show ?case
    by (simp add: add.assoc)
qed simp

lemma bucket_loop_sum:
  assumes "unat ttl + (\<Sum>b\<leftarrow>bs. bucket_total m b) < 2 ^ 64"
  shows "\<exists>cs t. bucket_loop E m bs buckets ttl = Ok (buckets @ cs, t) \<and>
    unat t = unat ttl + (\<Sum>b\<leftarrow>bs. bucket_total m b) \<and>
    map (\<lambda>x. unat (snd x)) cs = map (bucket_total m) bs"
  using assms
proof (induction bs arbitrary: buckets ttl)
  case (Cons b bs)
  from Cons.prems worker_loop_sum [of 0 m b "[0..<num_workers m]" E] obtain c where
    c: "worker_loop E m b [0..<num_workers m] 0 = Ok c" "unat c = bucket_total m b"
    by (auto simp: bucket_total_def)
  with Cons.prems have "unat ttl + unat c < 2 ^ 64" by simp
  note a = add_usize_unat [OF this]
  from Cons.IH [of "ttl + c" "buckets @ [(bucket_range m b, c)]"] Cons.prems a c
  obtain cs t where "bucket_loop E m bs (buckets @ [(bucket_range m b, c)]) (ttl + c) =
      Ok ((buckets @ [(bucket_range m b, c)]) @ cs, t)"
    "unat t = unat (ttl + c) + (\<Sum>b\<leftarrow>bs. bucket_total m b)" "map (\<lambda>x. unat (snd x)) cs = map (bucket_total m) bs"
    by auto
  with a c show ?case by (intro exI [of _ "(bucket_range m b, c) # cs"] exI [of _ t]) simp
qed simp


section \<open>The rows\<close>

lemma f64_of_pos: "0 < n \<Longrightarrow> 0 < f64_of n"
  unfolding f64_of_def by (rule less_le_trans [OF _ rnd_pos(1)]) simp_all

lemma f64_of_mono: "m \<le> n \<Longrightarrow> f64_of m \<le> f64_of n"
  unfolding f64_of_def by (rule rnd_mono) simp_all

text \<open>The quotient of a part by the whole is at most one after rounding, and one for the whole.\<close>

lemma f64_part:
  assumes "m \<le> n" "0 < n"
  shows "\<exists>q. f64_div (f64_of m) (f64_of n) = Some q \<and> 0 \<le> q \<and> q \<le> 1 \<and> (m = n \<longrightarrow> q = 1)"
proof -
  let ?q = "f64_of m / f64_of n"
  have n: "0 < f64_of n" using assms(2) by (rule f64_of_pos)
  have m: "0 \<le> f64_of m" by (simp add: f64_of_def rnd_nonneg)
  have "0 \<le> ?q" "?q \<le> 1" using m n f64_of_mono [OF assms(1)] by simp_all
  moreover have "rnd 1 = 1" using rnd_of_nat [of 1] by simp
  ultimately have "0 \<le> rnd ?q" "rnd ?q \<le> 1" using rnd_nonneg rnd_mono [of ?q 1] by simp_all
  with n \<open>rnd 1 = 1\<close> show ?thesis by (auto simp: f64_div_def)
qed

lemma f64_scale:
  assumes "0 \<le> q" "q \<le> 1" "k \<le> 2 ^ 53"
  shows "f64_mul q (of_nat k) \<le> of_nat k" "q = 1 \<Longrightarrow> f64_mul q (of_nat k) = of_nat k"
proof -
  have "rnd (q * of_nat k) \<le> rnd (of_nat k)"
    using assms by (intro rnd_mono) (simp_all add: mult_left_le_one_le)
  with rnd_of_nat [OF assms(3)] show "f64_mul q (of_nat k) \<le> of_nat k" by (simp add: f64_mul_def)
  show "f64_mul q (of_nat k) = of_nat k" if "q = 1"
    using that rnd_of_nat [OF assms(3)] by (simp add: f64_mul_def)
qed

lemma percent_bounds:
  assumes "count \<le> ttl" "0 < ttl"
  shows "\<exists>p. percent count ttl = Some p \<and> p \<le> 100 \<and> (count = ttl \<longrightarrow> p = 100)"
proof -
  have "unat count \<le> unat ttl" "0 < unat ttl" using assms by (simp_all add: word_le_nat_alt word_less_nat_alt)
  from f64_part [OF this] obtain q where q: "f64_div (f64_of (unat count)) (f64_of (unat ttl)) = Some q"
    "0 \<le> q" "q \<le> 1" "unat count = unat ttl \<longrightarrow> q = 1" by blast
  with f64_scale [OF q(2,3), of 100] show ?thesis by (simp add: percent_def)
qed

lemma bar_len_bounds:
  assumes "count \<le> mx" "0 < mx"
  shows "bar_len count mx \<le> 40" "count = mx \<Longrightarrow> bar_len count mx = 40"
proof -
  have "unat count \<le> unat mx" "0 < unat mx" using assms by (simp_all add: word_le_nat_alt word_less_nat_alt)
  from f64_part [OF this] obtain q where q: "f64_div (f64_of (unat count)) (f64_of (unat mx)) = Some q"
    "0 \<le> q" "q \<le> 1" "unat count = unat mx \<longrightarrow> q = 1" by blast
  have 40: "f64_of 40 = of_nat 40" by (rule f64_of_exact) simp
  have le: "f64_mul q (of_nat 40) \<le> of_nat 40" by (rule f64_scale(1) [OF q(2,3)]) simp
  then have "\<lfloor>f64_mul q (of_nat 40)\<rfloor> \<le> 40" by (simp add: floor_le_iff)
  then have "nat \<lfloor>f64_mul q (of_nat 40)\<rfloor> \<le> 40" by linarith
  then show "bar_len count mx \<le> 40" unfolding bar_len_def q(1) to_usize_def 40 option.case by (rule min.coboundedI1)
  have "q = 1 \<Longrightarrow> f64_mul q (of_nat 40) = of_nat 40" by (rule f64_scale(2) [OF q(2,3)]) simp_all
  then show "count = mx \<Longrightarrow> bar_len count mx = 40"
    unfolding bar_len_def q(1) using q(4) by (simp add: to_usize_def 40)
qed

definition row_ok :: "u64 \<Rightarrow> row \<Rightarrow> bool" where
  "row_ok ttl r \<longleftrightarrow>
     0 < r_count r \<and> r_bar r \<le> 40 \<and> (\<exists>p \<le> 100. r_pct r = Some p) \<and> (\<exists>p \<le> 100. r_cum_pct r = Some p) \<and>
     (r_cumulative r = ttl \<longrightarrow> r_cum_pct r = Some 100)"

lemma row_loop_rows:
  assumes "unat cum + (\<Sum>b\<leftarrow>bs. unat (snd b)) = unat ttl" "0 < ttl" "0 < mx" "\<forall>b \<in> set bs. snd b \<le> mx"
  shows "\<exists>rows. row_loop E ttl mx bs cum = Ok rows \<and> list_all (row_ok ttl) rows \<and>
    sorted_wrt (<) (cum # map r_cumulative rows) \<and>
    last (cum # map r_cumulative rows) = ttl \<and>
    ((\<exists>b \<in> set bs. snd b = mx) \<longrightarrow> (\<exists>r \<in> set rows. r_bar r = 40))"
  using assms(1,4)
proof (induction bs arbitrary: cum)
  case Nil
  then show ?case by (simp add: word_unat_eq_iff)
next
  case (Cons b bs)
  obtain rg c where b: "b = (rg, c)" by (cases b)
  show ?case
  proof (cases "c = 0")
    case True
    with b have eq: "row_loop E ttl mx (b # bs) cum = row_loop E ttl mx bs cum" by simp
    have mx: "(\<exists>b \<in> set (b # bs). snd b = mx) \<longleftrightarrow> (\<exists>b \<in> set bs. snd b = mx)"
      using True b assms(3) by auto
    have "unat cum + (\<Sum>b\<leftarrow>bs. unat (snd b)) = unat ttl" using Cons.prems(1) True b by simp
    moreover have "\<forall>b \<in> set bs. snd b \<le> mx" using Cons.prems(2) by simp
    ultimately show ?thesis unfolding eq mx by (rule Cons.IH)
  next
    case False
    have "unat cum + unat c \<le> unat ttl" using Cons.prems(1) b by simp
    moreover have "unat ttl < 2 ^ 64" using unsigned_less [of ttl, where 'a = nat] by simp
    ultimately have "unat cum + unat c < 2 ^ 64" by linarith
    note a = add_usize_unat [OF this]
    have c: "0 < c" using False by (simp add: word_gt_0)
    have "unat (cum + c) + (\<Sum>b\<leftarrow>bs. unat (snd b)) = unat ttl" using Cons.prems(1) b a(2) by simp
    moreover have "\<forall>b \<in> set bs. snd b \<le> mx" using Cons.prems(2) by simp
    ultimately obtain rows where rows:
      "row_loop E ttl mx bs (cum + c) = Ok rows" "list_all (row_ok ttl) rows"
      "sorted_wrt (<) ((cum + c) # map r_cumulative rows)"
      "last ((cum + c) # map r_cumulative rows) = ttl"
      "(\<exists>b \<in> set bs. snd b = mx) \<longrightarrow> (\<exists>r \<in> set rows. r_bar r = 40)" using Cons.IH by blast
    let ?r = "\<lparr>r_range = rg, r_count = c, r_cumulative = cum + c, r_pct = percent c ttl,
      r_cum_pct = percent (cum + c) ttl, r_bar = bar_len c mx\<rparr>"
    have "c \<le> mx" using Cons.prems(2) b by simp
    note bar = bar_len_bounds [OF this assms(3)]
    have "c \<le> ttl" "cum + c \<le> ttl" using Cons.prems(1) b a(2) by (simp_all add: word_le_nat_alt)
    note pct = percent_bounds [OF this(1) assms(2)] percent_bounds [OF this(2) assms(2)]
    have "row_ok ttl ?r" using c bar(1) pct by (auto simp: row_ok_def)
    moreover have "cum < cum + c" using a(2) c by (simp add: word_less_nat_alt)
    ultimately have "list_all (row_ok ttl) (?r # rows)" "sorted_wrt (<) (cum # map r_cumulative (?r # rows))"
      using rows(2,3) by auto
    moreover have "row_loop E ttl mx (b # bs) cum = Ok (?r # rows)" using False b a(1) rows(1) by simp
    moreover have "last (cum # map r_cumulative (?r # rows)) = ttl" using rows(4) by simp
    moreover have "(\<exists>b \<in> set (b # bs). snd b = mx) \<longrightarrow> (\<exists>r \<in> set (?r # rows). r_bar r = 40)"
      using rows(5) bar(2) b by auto
    ultimately show ?thesis by blast
  qed
qed


lemma max_of_bounds:
  assumes "bs \<noteq> []"
  shows "\<forall>b \<in> set bs. snd b \<le> max_of bs" "\<exists>b \<in> set bs. snd b = max_of bs"
proof -
  obtain c cs where m: "map snd bs = c # cs" using assms by (cases bs) auto
  have "max_of bs = Max (set (map snd bs))" unfolding m max_of_def Max.set_eq_fold list.case ..
  moreover have "finite (set (map snd bs))" "set (map snd bs) \<noteq> {}" using assms by simp_all
  ultimately have "max_of bs \<in> set (map snd bs)" "\<forall>x \<in> set (map snd bs). x \<le> max_of bs" by simp_all
  then show "\<forall>b \<in> set bs. snd b \<le> max_of bs" "\<exists>b \<in> set bs. snd b = max_of bs" by force+
qed

text \<open>
  C29: the histogram of poll times adds up. When the counters of all buckets and workers sum to
  less than \<open>2^64\<close> and at least one poll was recorded, the printer neither overflows nor divides by
  zero; the total it prints is that sum; the cumulative counts rise strictly from row to row and
  end at the total, with a percentage of exactly 100; no percentage is above 100 and no bar longer
  than 40 characters; and some row has a bar of exactly 40, in spite of the rounding of
  \<open>f64\<close>.
\<close>

theorem histogram_adds_up:
  assumes "poll_total m < 2 ^ 64" "0 < poll_total m"
  shows "\<exists>ttl rows. print_poll_time_histogram E m = Ok (Histogram ttl rows) \<and> unat ttl = poll_total m \<and>
    list_all (row_ok ttl) rows \<and> sorted_wrt (<) (map r_cumulative rows) \<and>
    r_cumulative (last rows) = ttl \<and> r_cum_pct (last rows) = Some 100 \<and> (\<exists>r \<in> set rows. r_bar r = 40)"
proof -
  have nb: "num_buckets m \<noteq> 0" using assms(2) by (rule contrapos_pn) (simp add: poll_total_def)
  from bucket_loop_sum [of 0 m "[0..<num_buckets m]" E "[]"] assms(1) obtain cs ttl where
    cs: "bucket_loop E m [0..<num_buckets m] [] 0 = Ok (cs, ttl)" "unat ttl = poll_total m"
      "map (\<lambda>x. unat (snd x)) cs = map (bucket_total m) [0..<num_buckets m]"
    by (auto simp: poll_total_def)
  have ttl: "0 < ttl" using cs(2) assms(2) by (simp add: word_less_nat_alt)
  have "length cs = num_buckets m" using arg_cong [OF cs(3), of length] by simp
  with nb have "cs \<noteq> []" by auto
  note mx = max_of_bounds [OF this]
  have sum: "unat 0 + (\<Sum>b\<leftarrow>cs. unat (snd b)) = unat ttl" using cs(2,3) by (simp add: poll_total_def)
  have pos: "0 < max_of cs"
  proof (rule ccontr)
    assume "\<not> 0 < max_of cs"
    then have "max_of cs = 0" by (simp add: word_gt_0)
    with mx(1) have "\<forall>b \<in> set cs. unat (snd b) = 0" by simp
    then have "(\<Sum>b\<leftarrow>cs. unat (snd b)) = 0" by simp
    with sum cs(2) assms(2) show False by simp
  qed
  from row_loop_rows [OF sum ttl pos mx(1), of E] mx(2) obtain rows where
    rows: "row_loop E ttl (max_of cs) cs 0 = Ok rows" "list_all (row_ok ttl) rows"
      "sorted_wrt (<) (0 # map r_cumulative rows)" "last (0 # map r_cumulative rows) = ttl"
      "\<exists>r \<in> set rows. r_bar r = 40" by blast
  have ne: "rows \<noteq> []" using rows(5) by auto
  then have l: "r_cumulative (last rows) = ttl" using rows(4) by (simp add: last_map)
  moreover have "row_ok ttl (last rows)" using ne rows(2) by (simp add: list_all_iff)
  ultimately have "r_cum_pct (last rows) = Some 100" by (simp add: row_ok_def)
  moreover have "print_poll_time_histogram E m = Ok (Histogram ttl rows)"
    using nb cs(1) ttl rows(1) by (simp add: print_poll_time_histogram_def)
  ultimately show ?thesis using cs(2) rows l by auto
qed

theorem histogram_adds_up_witness:
  "\<exists>ttl rows. print_poll_time_histogram (ref_env True)
     \<lparr>num_buckets = 2, num_workers = 2, bucket_range = \<lambda>b. (b, b + 1), bucket_count = \<lambda>w b. if b = 0 then 2 else 5\<rparr> =
       Ok (Histogram ttl rows) \<and> unat ttl = 14 \<and> (\<exists>r \<in> set rows. r_bar r = 40)"
proof -
  let ?m = "\<lparr>num_buckets = 2, num_workers = 2, bucket_range = \<lambda>b. (b, b + 1), bucket_count = \<lambda>w b. if b = 0 then 2 else 5\<rparr>"
  have sum: "poll_total ?m = 14"
    by (simp add: poll_total_def bucket_total_def upt_rec)
  then have "poll_total ?m < 2 ^ 64" "0 < poll_total ?m" by simp_all
  from histogram_adds_up [OF this, of "ref_env True"] show ?thesis unfolding sum by blast
qed

end
