(* ===== verification/Spec2Isabelle.thy ===== *)
theory Spec2Isabelle
  imports Server_Panics Atomic_Server Buffered_Client Cli Async_Solo Ex1_Tests Echo_Progress Message_Stream Pub_Sub Programs Echo_Test Bench_Report Metrics
begin

text \<open>
  A verification of the programs of an asynchronous Rust workshop: mini-redis (\<open>src/mini-redis\<close>), a
  Redis server with its clients; the exercises (\<open>src/workshop\<close>), hand-written futures, executors and
  a reactor; and the load generator (\<open>src/redis-bench\<close>).

  mini-redis. A \<^emph>\<open>frame\<close> is a value of the wire protocol; a \<^emph>\<open>connection\<close> reads and writes
  frames over a byte stream. A client turns a \<^emph>\<open>command\<close> into an array frame, the server turns
  it back and applies it to the shared \<^emph>\<open>database\<close>, whose keys may expire; a background task
  purges them. \<open>SUBSCRIBE\<close> turns a connection into a subscriber that forwards published messages.
  The \<^emph>\<open>server\<close> accepts connections up to a limit, runs one handler task per connection and
  shuts down gracefully. The \<^emph>\<open>buffered client\<close> lets many tasks share a connection through a
  channel, the \<^emph>\<open>blocking client\<close> hides the asynchronous one, the \<^emph>\<open>command line client\<close> runs one
  command.

  The workshop. A \<^emph>\<open>future\<close> is polled with a waker and either is ready or has arranged for a wake.
  Exercise 1 has three futures and an executor for one of them; exercise 2 two executors with run
  queues, the second with spawned tasks; exercise 3 adds a \<^emph>\<open>reactor\<close> that turns readiness of
  sockets into wakes, and an echo server on top of it.

  redis-bench. An event loop sends batches of \<open>SET\<close> or \<open>GET\<close> requests on several connections,
  counts the responses and prints a summary of the latencies.

  The theories, in the order they build on each other.

  \<^item> Prelude: byte strings, \<open>u64\<close>, outcomes (\<open>Ok\<close>, \<open>Err\<close>, \<open>Panic\<close>), the \<open>?\<close> operator, and the
    record \<open>env\<close> of what the sources call and the repository does not contain.
  \<^item> Std\_Lib: decimal formatting, UTF-8, ASCII case, \<open>Duration\<close> and \<open>Instant\<close>; the named
    hypotheses on \<open>atoi\<close> and the Unicode case tables, with an environment that satisfies them.
  \<^item> Frame (\<open>frame.rs\<close>): the two passes over the read buffer. They stop at the same byte, a decided
    answer is stable when more bytes arrive, a frame is found as soon as it is complete, and a
    checked buffer is parsed without a panic in a build with overflow checks.
  \<^item> Connection (\<open>connection.rs\<close>): \<open>read_frame\<close> over the completions of the coming reads, and the
    writer. Reading inverts writing for every way of cutting the stream into packets (the contract
    \<open>framing\<close>); a stream that ends inside a frame is reported as such.
  \<^item> Parse\_Cursor (\<open>parse.rs\<close>) and Commands (\<open>cmd/*.rs\<close>): the command structs, their parsers and
    request frames. The dispatcher accepts exactly the grammar \<open>denotes\<close>; every command obeys the
    contract \<open>command_codec\<close>, so the request of a command is read back as that command.
  \<^item> Db (\<open>db.rs\<close>): the state behind the mutex and its operations, with poisoning. The index of
    expirations always agrees with the entries; entries live until overwritten or purged at or
    after their expiration (the contract \<open>ttl_store\<close>); publishing counts the receivers.
  \<^item> Purge\_Task (\<open>purge_expired_tasks\<close> in \<open>db.rs\<close>): the background task interleaved with its
    clients, including a client between unlocking and \<open>notify_one\<close>. No wake-up is lost, expired
    keys are purged, the shutdown flag ends the task.
  \<^item> Apply (the \<open>apply\<close> methods) and Subscriber (\<open>Subscribe::apply\<close> and \<open>handle_command\<close>): what
    each command does to the database and writes to the connection. Pub\_Sub: messages on their way
    from publisher to subscriber, with ghost histories of what was published and sent on each
    channel (the fields \<open>f_since\<close>, \<open>f_got\<close>, \<open>f_behind\<close> of \<open>feed\<close>). They arrive in order and not twice, and
    all of them unless the subscriber is more than 1024 behind.
  \<^item> Server (\<open>server.rs\<close>, \<open>shutdown.rs\<close>): the handler as a function of one outcome of its
    \<open>select!\<close>, and the step relation \<open>server_step\<close> of the listener, any number of handlers, the
    background task and the shutdown sequence. At most 250 connections are served; permits are
    never lost; the database is stopped only after the last handler; a shutdown ends by itself unless a
    handler waits in a write (\<open>stalled\<close>); pipelined requests are
    answered one by one in order.
  \<^item> Server\_Panics: of all the panics in the code a handler runs, the ones a client can cause are the
    overflowing bulk length (\<open>oversized\<close>) and the overflowing expiration, which poisons the lock; nothing else.
  \<^item> Atomic\_Server: what the server promises to its clients. It refines an atomic key-value server,
    which has a map, a clock and, for each connection, the bytes not yet read and the bytes sent
    (\<open>atomic_of\<close>): a request takes effect on the whole map at once and is answered from it, and only
    requests and the sweep of expired entries change the map.
  \<^item> Client (\<open>clients/client.rs\<close>): the client's operations, all instances of the contract
    \<open>client_operation\<close>.
  \<^item> Buffered\_Client (\<open>clients/buffered_client.rs\<close>): the steps of requesters, channel, connection
    task and network. Replies go to the requests they belong to, the channel is bounded and in
    order, and every request is answered once the server has answered it.
  \<^item> Blocking\_Client (\<open>clients/blocking_client.rs\<close>) and Cli (\<open>bin/cli.rs\<close>): the operations over
    \<open>Client\<close>; the iterator and the \<open>subscribe\<close> command yield the published messages, an
    expiration given in milliseconds reaches the server as it is. Message\_Stream (\<open>into_stream\<close>): the
    stream yields what the iterator does up to the first error. Programs (\<open>connect\<close>, the starts of
    \<open>bin/server.rs\<close> and \<open>bin/cli.rs\<close>, the examples, \<open>workshop/src/main.rs\<close>): the addresses of client and
    server agree, and the examples print what they announce.
  \<^item> Futures (\<open>solutions/ex1_*.rs\<close>, \<open>ex1_executor.rs\<close>): the futures, their contracts (the locales
    \<open>wakeful\<close> and \<open>solo_future\<close>, interpreted on all three) and the executor, whose lemmas hold for
    every future that keeps the contract.
  \<^item> Block\_On (\<open>solutions/ex2_1.rs\<close>) and Executor (\<open>solutions/ex2_2.rs\<close>): the run queues, interleaved
    with threads that have queued a task but not yet unparked the executor. No wake-up is lost,
    tasks are polled in the order they were queued, \<open>block_on\<close> returns.
  \<^item> Ex1\_Tests (\<open>ex1_1.rs\<close>, \<open>ex1_2.rs\<close>, \<open>ex1_3.rs\<close>): the demonstrations and tests of exercise 1, with
    what they can rely on and the assertions that can fail.
  \<^item> Async\_Blocks and Async\_Tasks: a small language of asynchronous blocks over the futures of
    exercise 1, its compilation into the futures of the executors, and what holds of every block:
    ownership of channel halves is kept, no task is polled after its end, a task is queued exactly
    once when it can go on and not at all while it waits, a run without the clock is finite, and
    \<open>block_on\<close> returns unless all that is left waits for a message nobody sends.
  \<^item> Async\_Tests (\<open>ex2_2.rs\<close>) and Async\_Solo (\<open>ex2_1.rs\<close>): the programs of \<open>run\<close> and of the tests
    as such blocks, with their outcomes in every run; the executor of exercise 2.1 is refined by
    that of 2.2 on blocks that do not spawn.
  \<^item> Reactor and Echo\_Server (\<open>solutions/ex3.rs\<close>): tokens and wakers; the futures of the sockets; the
    whole server with its tasks. Every byte is echoed once and in order, and a task that waits has
    a waker stored under the token whose event will come. Echo\_Progress: left alone, the server comes
    to rest in a bounded number of steps, with everything accepted and echoed. Echo\_Test
    (\<open>echo_server_test\<close> in \<open>ex3.rs\<close>): \<open>block_on\<close> with a main future that returns, and the test's
    client, on the reactor of the solution; every run ends, and the test passes unless a system call fails or a
    thread is held up.
  \<^item> Bench\_Codec and Bench\_Loop (\<open>redis-bench/src/main.rs\<close>): a batch is the encoding of its requests,
    the response scanner finds exactly the ends of the server's frames; the loop takes one sample
    per response and a fixed number of them; the percentiles are in order.
  \<^item> F64: the rounding of \<open>f64\<close> on rationals. Bench\_Report (\<open>print_stats\<close> and
    \<open>main\<close>): the percentile table is in range, in order and complete, and both reports are about all
    requests. Metrics (\<open>metrics.rs\<close>): the rows of the histogram of poll times
    add up, and no bar is too long.
  \<^item> This theory: the properties that span client and server.

  How state and effects are modelled. Rust structs are records and enums datatypes; a method returns
  the updated struct, and an outcome of type \<open>res\<close> keeps errors and panics apart. Awaiting is made
  explicit: what the network delivers is a list in the connection, a read that needs more is
  \<open>Pending\<close>; a \<open>select!\<close> takes the outcome it chooses as an argument, and the step relations let
  every choice happen. One step of a handler runs a whole command; the critical sections in it
  are the steps that Purge\_Task allows the connection tasks, in the same order. Loops over lists
  are recursive functions; the parsers terminate because a successful pass moves the cursor, so no
  fuel is used anywhere. Lengths are bounded by \<open>isize::MAX\<close>, the largest allocation of Rust.

  What is outside the repository is a parameter with named hypotheses: \<open>atoi_reads_decimal\<close> and
  \<open>ascii_case\<close> (theory Std\_Lib), \<open>broadcast_counts\<close> and \<open>broadcast_delivers\<close> for
  \<open>tokio::sync::broadcast\<close> (Db, Pub\_Sub),
  \<open>notify_stores\<close> for \<open>tokio::sync::Notify\<close> (Purge\_Task), \<open>stream_map_ok\<close> and
  \<open>stream_map_gets\<close> for \<open>tokio_stream::StreamMap\<close> (Subscriber, Pub\_Sub); each has a concrete instance next to it. The semaphore
  of the server is its count of permits and the \<open>mpsc\<close> channel of the shutdown sequence is the
  set of handlers that still hold a sender.

  The primitives of the standard library and of mio that the workshop programs use are part of the
  step relations: a condition variable and \<open>thread::park\<close> may wake spuriously (a parameter or a step
  of its own), \<open>unpark\<close> leaves a token, a mutex makes its critical section one step, and mio delivers
  an event for a socket after an operation on it answered \<open>WouldBlock\<close> and could then go on, and
  other events at will. For redis-bench every event may come at any time, which covers mio's.

  Not modelled: DNS, connecting and binding beyond success or failure, logging beyond success or failure, task metrics, argument
  parsing by clap, memory limits, a \<open>block_on\<close>
  inside a \<open>block_on\<close>, a socket write that accepts no bytes without an error, infinities and
  subnormal numbers of \<open>f64\<close>, the decimal digits of printed floating point numbers, and the bodies
  of the exercise skeletons, which are \<open>todo!()\<close>; the test of \<open>ex3.rs\<close> is run with the three methods
  of its solution. How long a write waits for its peer is modelled in the server only, where a handler in such a
  write cannot notice the shutdown. The steps of a connection handler are whole
  commands: a handler holds the lock for one database operation per command and keeps nothing of
  the database across an await, so a finer interleaving would only split the writing of the reply
  from the operation.
\<close>

section \<open>Client and server together\<close>

lemma length_dec_small: "n \<le> 2 ^ 61 \<Longrightarrow> length (dec n) \<le> 20"
  by (rule dec_length_bound) simp_all

lemma set_get_lengths:
  assumes "length key + length val \<le> 2 ^ 61"
  shows "length (concat (map encode [Array (map Bulk [''set'', key, val]), Array (map Bulk [''get'', key])])) \<le> isize_max"
    "length (concat (map encode [Simple ''OK'', Bulk val])) \<le> isize_max"
  using length_dec_small [of "length key"] length_dec_small [of "length val"]
    length_dec_small [of "Suc (Suc (Suc 0))"] length_dec_small [of "Suc (Suc 0)"] assms
  by (simp_all add: encode.simps CRLF_def isize_max_def)

lemma set_get_replies:
  assumes "\<not> poisoned (shared s)"
  shows "\<exists>t. replies B N [SetCmd \<lparr>set_key = key, set_value = val, set_expire = None\<rparr>, GetCmd \<lparr>get_key = key\<rparr>] s =
    ([Simple ''OK'', Bulk val], t)"
proof -
  have "snd (db_set_notify N key val None s) =
      s\<lparr>shared := \<lparr>state = put_entry key val None (state (shared s)), poisoned = False\<rparr>\<rparr>"
    using assms by (simp add: db_set_notify_def run_db_def db_set_plain)
  then show ?thesis by (simp add: replies.simps)
qed

lemma set_get_served:
  assumes "ascii_case E" "atoi_reads_decimal E" "utf8 key" "length key + length val \<le> 2 ^ 61"
    and "h = new_handler\<lparr>h_conn := new_connection (map Recv outgoing)\<rparr>"
      "[] \<notin> set outgoing" "\<not> poisoned (shared s)"
      "concat outgoing = concat (map encode [Array (map Bulk [''set'', key, val]), Array (map Bulk [''get'', key])])"
  shows "sent (h_conn (fst (serve E B N M 2 h s))) = concat (map encode [Simple ''OK'', Bulk val])"
proof -
  let ?cmd = "\<lparr>set_key = key, set_value = val, set_expire = None\<rparr>"
  let ?f = "Array (map Bulk [''set'', key, val])" and ?g = "Array (map Bulk [''get'', key])"
  let ?cs = "[SetCmd ?cmd, GetCmd \<lparr>get_key = key\<rparr>]"
  have reqs: "list_all2 (\<lambda>f c. requests c f \<and> wf_command c \<and> answers c \<and> fits_clock (clock s) (on_wire c)) [?f, ?g] ?cs"
    using assms(3) get_codec.frame [of "\<lparr>get_key = key\<rparr>"]
    by (simp add: set_into_frame_args set_args_def wf_set_def set_on_wire_def)
  have fl: "list_all flat [?f, ?g]" using assms(4) by (simp add: isize_max_def)
  have ow: "map on_wire ?cs = ?cs" by (simp add: set_on_wire_def)
  obtain t where t: "replies B N (map on_wire ?cs) s = ([Simple ''OK'', Bulk val], t)"
    unfolding ow using set_get_replies [OF assms(7)] by blast
  have rl: "list_all flat (fst (replies B N (map on_wire ?cs) s))"
    unfolding t using assms(4) by (simp add: isize_max_def)
  have len: "length (concat outgoing) \<le> isize_max" using set_get_lengths(1) [OF assms(4)] assms(8) by simp
  from pipelined_requests [OF assms(1,2) reqs fl rl assms(8) len assms(6,7,5), of M] show ?thesis
    unfolding t by (auto simp: numeral_2_eq_2 simp del: serve.simps)
qed

text \<open>
  C3: set and get, from client to client. What a client's \<open>set\<close> and \<open>get\<close> write, served by a
  handler in whatever packets the network makes of it, produces replies from which, again in any
  packets, the \<open>set\<close> returns success and the \<open>get\<close> returns the value just set.
\<close>

theorem set_then_get_end_to_end:
  assumes "ascii_case E" "atoi_reads_decimal E" "utf8 key" "length key + length val \<le> 2 ^ 61"
    and server: "h = new_handler\<lparr>h_conn := new_connection (map Recv outgoing)\<rparr>"
      "[] \<notin> set outgoing" "\<not> poisoned (shared s)"
      "concat outgoing = concat (map encode [Array (map Bulk [''set'', key, val]), Array (map Bulk [''get'', key])])"
    and client: "c = new_connection (map Recv packets)" "[] \<notin> set packets"
      "concat packets = sent (h_conn (fst (serve E B N M 2 h s)))"
  shows "\<exists>c' c''. client_set E key val c = Done (Ok ((), c')) \<and>
    client_get E key c' = Done (Ok (Some val, c'')) \<and> sent c'' = concat outgoing"
proof -
  let ?cmd = "\<lparr>set_key = key, set_value = val, set_expire = None\<rparr>"
  let ?f = "Array (map Bulk (''set'' # set_args ?cmd))" and ?g = "Array (map Bulk [''get'', key])"
  have fl: "flat ?f" "flat ?g" using assms(4) by (simp_all add: isize_max_def set_args_def)
  have "expects [Simple ''OK'', Bulk val] c"
    unfolding expects_def
    using client set_get_served [OF assms(1-4) server, of B N M] set_get_lengths(2) [OF assms(4)] assms(4)
    by (intro conjI exI [of _ packets]) (simp_all add: new_connection_def utf8_def isize_max_def)
  from set_op.answered [OF assms(2) this fl(1), of "()"]
  obtain c' where c': "set_cmd E ?cmd c = Done (Ok ((), c'))" "expects [Bulk val] c'" "sent c' = sent c @ encode ?f"
    by auto
  from get_op.answered [OF assms(2) c'(2) fl(2), of "Some val"]
  obtain c'' where "client_get E key c' = Done (Ok (Some val, c''))" "sent c'' = sent c' @ encode ?g" by auto
  with c' client(1) server(4) show ?thesis by (auto simp: client_set_def new_connection_def set_args_def)
qed

theorem set_then_get_end_to_end_witness:
  "\<exists>c c' c''. client_set (ref_env True) ''k'' ''v'' c = Done (Ok ((), c')) \<and>
     client_get (ref_env True) ''k'' c' = Done (Ok (Some ''v'', c''))"
proof -
  let ?out = "concat (map encode [Array (map Bulk [''set'', ''k'', ''v'']), Array (map Bulk [''get'', ''k''])])"
  let ?h = "new_handler\<lparr>h_conn := new_connection (map Recv [?out])\<rparr>"
  let ?in = "sent (h_conn (fst (serve (ref_env True) ref_broadcast permit ref_stream_map 2 ?h due_state)))"
  have k: "utf8 ''k''" "length ''k'' + length ''v'' \<le> 2 ^ 61" by (simp_all add: utf8_def)
  have out: "[] \<notin> set [?out]" by (simp add: encode.simps)
  have "?in = concat (map encode [Simple ''OK'', Bulk ''v''])"
    by (rule set_get_served [OF ref_env_case ref_env_atoi k refl out due_state_simps(5)]) simp
  then have "[] \<notin> set [?in]" by (simp add: encode.simps)
  from set_then_get_end_to_end [OF ref_env_case ref_env_atoi k refl out due_state_simps(5) _ refl this]
  show ?thesis by (simp del: serve.simps) blast
qed

text \<open>
  The example \<open>hello_world\<close> and the server: its two requests, served by a handler in any packets,
  produce replies on which, in any packets, it prints success.
\<close>

theorem hello_world_end_to_end:
  assumes "ascii_case E" "atoi_reads_decimal E"
    and server: "h = new_handler\<lparr>h_conn := new_connection (map Recv outgoing)\<rparr>"
      "[] \<notin> set outgoing" "\<not> poisoned (shared s)"
      "concat outgoing = concat (map encode
         [Array (map Bulk [''set'', ''hello'', ''world'']), Array (map Bulk [''get'', ''hello''])])"
    and client: "T example_addr = Some (map Recv packets)" "[] \<notin> set packets"
      "concat packets = sent (h_conn (fst (serve E B N M 2 h s)))"
  shows "\<exists>c. hello_world E T = ([''got value from the server; success=true''], CliOk c) \<and> sent c = concat outgoing"
proof -
  have "utf8 ''hello''" "length ''hello'' + length ''world'' \<le> 2 ^ 61" by (simp_all add: utf8_def)
  from set_get_served [OF assms(1,2) this server, of B N M] client(3)
  have p: "concat packets = concat (map encode [Simple ''OK'', Bulk ''world''])" by simp
  from hello_world_prints [where T = T, OF assms(2) client(1,2) p] server(4) show ?thesis by simp
qed

definition bench_cmd :: "Phase \<Rightarrow> nat \<Rightarrow> bytes \<Rightarrow> nat \<Rightarrow> command" where
  "bench_cmd ph conn_id val i =
     (case ph of
        SetPhase \<Rightarrow> SetCmd \<lparr>set_key = bench_key conn_id i, set_value = val, set_expire = None\<rparr>
      | GetPhase \<Rightarrow> GetCmd \<lparr>get_key = bench_key conn_id i\<rparr>)"

lemma bench_key_utf8: "utf8 (bench_key conn_id i)"
  using ascii_dec [of conn_id] ascii_dec [of i]
  by (intro utf8_ascii) (auto simp: bench_key_def ascii_def)

lemma upper_names:
  assumes "ascii_case E"
  shows "names E (Bulk ''SET'') ''set''" "names E (Bulk ''GET'') ''get''"
proof -
  have "map ascii_lower ''SET'' = ''set''" "map ascii_lower ''GET'' = ''get''" by code_simp+
  moreover have "utf8 ''SET''" "utf8 ''GET''" by (simp_all add: utf8_def)
  ultimately show "names E (Bulk ''SET'') ''set''" "names E (Bulk ''GET'') ''get''"
    using assms by (simp_all add: names_def ascii_case_def ascii_def from_utf8_def del: list.map)
qed

lemma bench_frame_command:
  assumes "ascii_case E"
  shows "from_frame E (bench_frame ph conn_id val i) = Ok (bench_cmd ph conn_id val i)"
proof (rule from_frame_complete)
  have "as_text (Bulk (bench_key conn_id i)) = Some (bench_key conn_id i)"
    using bench_key_utf8 by (simp add: from_utf8_def)
  then show "denotes E (bench_frame ph conn_id val i) (bench_cmd ph conn_id val i)"
    using upper_names [OF assms] by (cases ph) (auto simp: bench_frame_def bench_cmd_def intro!: denotes.set denotes.get)
qed

lemma bench_reply_line_safe: "line_safe (fst (reply B N (bench_cmd ph conn_id val i) s))"
  by (cases ph) (auto simp: bench_cmd_def utf8_def split: option.splits)

lemma bench_replies_line_safe: "list_all line_safe (fst (replies B N (map (bench_cmd ph conn_id val) is) s))"
  by (induction "is" arbitrary: s) (simp_all add: replies_Cons bench_reply_line_safe)

lemma length_replies: "length (fst (replies B N cs s)) = length cs"
  by (induction cs arbitrary: s) (simp_all add: replies_Cons)

text \<open>A batch that fits in memory is made of frames that do.\<close>

lemma bench_frame_flat:
  assumes "length (build_batch ph conn_id k val) \<le> isize_max" "i < k"
  shows "flat (bench_frame ph conn_id val i)"
proof -
  have "bench_command ph conn_id val i \<in> set (map (bench_command ph conn_id val) [0..<k])" using assms(2) by simp
  then have "length (bench_command ph conn_id val i) \<le> length (build_batch ph conn_id k val)"
    unfolding build_batch_def length_concat by (intro member_le_sum_list) auto
  with assms(1) show ?thesis
    by (cases ph) (auto simp: bench_command_def bench_frame_def Let_def isize_max_def)
qed

text \<open>
  C26: a benchmark batch against the server. The bytes of \<open>build_batch\<close>, in any packets, are read by a
  fresh handler as the \<open>SET\<close> or \<open>GET\<close> commands they stand for, executed in order, and answered one
  by one; scanning the answers with \<open>try_parse_response\<close>, the benchmark counts exactly one response
  per command, with nothing left over.
\<close>

theorem bench_batch_served:
  assumes "ascii_case E" "atoi_reads_decimal E"
    and "cs = map (bench_cmd ph conn_id val) [0..<k]" "list_all flat (fst (replies B N cs s))"
    and "concat chunks = build_batch ph conn_id k val" "[] \<notin> set chunks" "length (concat chunks) \<le> isize_max"
    and "\<not> poisoned (shared s)" "h = new_handler\<lparr>h_conn := new_connection (map Recv chunks)\<rparr>"
  shows "\<exists>h'. serve E B N M k h s = (h', snd (replies B N cs s)) \<and> bench_parse E k (sent (h_conn h')) = Ok (0, [])"
proof -
  let ?fs = "map (bench_frame ph conn_id val) [0..<k]"
  have 1: "list_all2 (\<lambda>f c. from_frame E f = Ok c \<and> answers c \<and> fits_clock (clock s) c) ?fs cs"
    unfolding assms(3) using bench_frame_command [OF assms(1)]
    by (auto simp: list_all2_map1 list_all2_map2 bench_cmd_def intro!: list.rel_refl_strong split: Phase.splits)
  have 2: "list_all flat ?fs" "list_all line_safe ?fs"
    using bench_frame_flat [of ph conn_id k val] assms(5,7) by (auto simp: list_all_iff bench_frame_def split: Phase.splits)
  have h: "serving h" "buffer (h_conn h) = []" "inbound (h_conn h) = map Recv chunks @ []" "sent (h_conn h) = []"
    using assms(9) by (simp_all add: serving_def new_handler_def new_connection_def shutdown_new_def)
  have "buffer (h_conn h) @ concat chunks = concat (map encode ?fs) @ []"
    using h(2) assms(5) by (simp add: build_batch_encode)
  from pipeline [OF assms(2) 1 2 assms(4) this _ h(3) assms(6) h(1) assms(8), of M] h assms(7)
  obtain h' where "serve E B N M k h s = (h', snd (replies B N cs s))"
    "sent (h_conn h') = concat (map encode (fst (replies B N cs s)))" by auto
  moreover have "bench_parse E (length (fst (replies B N cs s))) (concat (map encode (fst (replies B N cs s)))) = Ok (0, [])"
    by (rule bench_parse_all) (use assms(3,4) bench_replies_line_safe in auto)
  moreover have "length (fst (replies B N cs s)) = k" using assms(3) by (simp add: length_replies)
  ultimately show ?thesis by auto
qed

theorem bench_batch_served_witness:
  "\<exists>h'. serve (ref_env True) ref_broadcast permit ref_stream_map 2
      (new_handler\<lparr>h_conn := new_connection (map Recv [build_batch GetPhase 0 2 []])\<rparr>) due_state = (h', due_state) \<and>
    bench_parse (ref_env True) 2 (sent (h_conn h')) = Ok (0, [])"
proof -
  let ?cs = "map (bench_cmd GetPhase 0 []) [0..<2]"
  have u: "[0..<2] = [0, Suc 0]" by (simp add: numeral_2_eq_2)
  have r: "snd (replies ref_broadcast permit ?cs due_state) = due_state" "list_all flat (fst (replies ref_broadcast permit ?cs due_state))"
    by (auto simp: u replies_Cons bench_cmd_def due_state_simps isize_max_def split: option.splits)
  have ne: "[] \<notin> set [build_batch GetPhase 0 2 []]" and len: "length (concat [build_batch GetPhase 0 2 []]) \<le> isize_max"
    by (simp_all add: build_batch_def u bench_command_def bench_key_def Let_def isize_max_def CRLF_def dec.simps)
  have c: "concat [build_batch GetPhase 0 2 []] = build_batch GetPhase 0 2 []" by simp
  from bench_batch_served [OF ref_env_case ref_env_atoi refl r(2) c ne len due_state_simps(5) refl, where M = ref_stream_map]
  show ?thesis by (simp only: r(1))
qed

end
